(* ===== verification/CMT_Prelude.thy ===== *)
theory CMT_Prelude
  imports Main "HOL-Library.Multiset"
begin

text \<open>
  Shared vocabulary of the development: the types that name pointers and clock values, the
  faults a C++ run can end in, singly linked lists threaded through a \<open>next\<close> field, and the
  generic list lemmas that the component theories use.
\<close>

section \<open>Collections of rewrite rules\<close>

named_theorems cmt_frame \<open>what an operation leaves unchanged\<close>
named_theorems cmt_defs \<open>definitions of the primitive field updates\<close>

section \<open>Pointers, time, faults\<close>

text \<open>
  Every object of the C++ heap is named by a natural number; a pointer that may be null is an
  \<open>option\<close>, null being \<open>None\<close>.  A \<open>system_clock::time_point\<close> is its signed 64-bit tick
  count.
\<close>

type_synonym ptr = nat
type_synonym cptr = ptr
type_synonym pptr = ptr
type_synonym tptr = ptr
type_synonym thid = ptr
type_synonym time_point = int

definition time_max :: time_point where
  "time_max = 9223372036854775807"

definition time_min :: time_point where
  "time_min = - 9223372036854775808"

text \<open>Two's complement wrap-around of 64-bit signed arithmetic on tick counts.\<close>

definition wrap64 :: "int \<Rightarrow> int" where
  "wrap64 x = (x + 9223372036854775808) mod 18446744073709551616 - 9223372036854775808"

lemma wrap64_range: "time_min \<le> wrap64 x \<and> wrap64 x \<le> time_max"
  unfolding wrap64_def time_min_def time_max_def
  using pos_mod_bound [of 18446744073709551616 "x + 9223372036854775808"]
    pos_mod_sign [of 18446744073709551616 "x + 9223372036854775808"] by linarith

lemma wrap64_id: "time_min \<le> x \<Longrightarrow> x \<le> time_max \<Longrightarrow> wrap64 x = x"
  unfolding wrap64_def time_min_def time_max_def by simp

text \<open>The conversion of a \<open>size_t\<close> to \<open>int\<close>.\<close>

definition to_int32 :: "nat \<Rightarrow> int" where
  "to_int32 n = (int n + 2 ^ 31) mod 2 ^ 32 - 2 ^ 31"

lemma to_int32_small: "n < 2 ^ 31 \<Longrightarrow> to_int32 n = int n"
  by (simp add: to_int32_def)

text \<open>
  How a run can go wrong outside the exception mechanism: a failed \<open>BOOST_ASSERT\<close>, the
  use of a null pointer, an access outside an array, the use of a deleted
  object, or a walk along a pointer list that does not
  end (the walks carry fuel;
  \<open>Out_Of_Fuel\<close> is a list longer than there are objects, hence a cycle).  An operation that can
  fault returns \<open>fault + 'a\<close>.
\<close>

datatype fault = Assert_Failed | Null_Deref | Out_Of_Fuel | Out_Of_Bounds | Dangling

section \<open>Linked lists threaded through a field\<close>

fun chain :: "(ptr \<Rightarrow> ptr option) \<Rightarrow> ptr option \<Rightarrow> ptr list \<Rightarrow> bool" where
  "chain nxt p [] = (p = None)"
| "chain nxt p (x # xs) = (p = Some x \<and> chain nxt (nxt x) xs)"

lemma chain_None [simp]: "chain nxt None xs = (xs = [])"
  by (cases xs) auto

lemma chain_Some: "chain nxt (Some x) xs = (\<exists>ys. xs = x # ys \<and> chain nxt (nxt x) ys)"
  by (cases xs) auto

lemma chain_functional: "chain nxt p xs \<Longrightarrow> chain nxt p ys \<Longrightarrow> xs = ys"
proof (induction xs arbitrary: p ys)
  case Nil
  then show ?case by simp
next
  case (Cons x xs)
  then show ?case by (cases ys) auto
qed

lemma chain_suffix: "chain nxt p (xs @ ys) \<Longrightarrow> \<exists>q. chain nxt q ys"
  by (induction xs arbitrary: p) auto

lemma chain_head_fresh:
  assumes "chain nxt (nxt x) xs"
  shows "x \<notin> set xs"
proof
  assume "x \<in> set xs"
  then obtain as bs where xs: "xs = as @ x # bs" by (auto simp: in_set_conv_decomp)
  with assms obtain q where "chain nxt q (x # bs)" using chain_suffix by blast
  then have "chain nxt (nxt x) bs" by simp
  with assms have "xs = bs" by (rule chain_functional)
  with xs show False by simp
qed

lemma chain_distinct: "chain nxt p xs \<Longrightarrow> distinct xs"
  by (induction xs arbitrary: p) (auto dest: chain_head_fresh)

lemma chain_upd_other [simp]: "x \<notin> set xs \<Longrightarrow> chain (nxt(x := q)) p xs = chain nxt p xs"
  by (induction xs arbitrary: p) auto

lemma chain_cong: "(\<And>x. x \<in> set xs \<Longrightarrow> f x = g x) \<Longrightarrow> chain f p xs = chain g p xs"
  by (induction xs arbitrary: p) auto

lemma chain_snoc:
  assumes "chain nxt p (xs @ [y])" and "z \<notin> set (xs @ [y])"
  shows "chain (nxt(z := None, y := Some z)) p (xs @ [y, z])"
  using assms
proof (induction xs arbitrary: p)
  case Nil
  then show ?case by auto
next
  case (Cons x xs)
  then have "x \<noteq> y" using chain_distinct [of nxt p "(x # xs) @ [y]"] by auto
  with Cons show ?case by auto
qed

lemma chain_unlink:
  assumes "chain nxt p (xs @ y # z # zs)"
  shows "chain (nxt(y := nxt z)) p (xs @ y # zs)"
  using assms
proof (induction xs arbitrary: p)
  case Nil
  then have "chain nxt (nxt z) zs" and y: "y \<notin> set zs" and "p = Some y"
    using chain_distinct [of nxt p "y # z # zs"] by auto
  then have "chain (nxt(y := nxt z)) (nxt z) zs" by simp
  with \<open>p = Some y\<close> show ?case by (simp del: fun_upd_apply add: fun_upd_same)
next
  case (Cons x xs)
  then have "x \<noteq> y" using chain_distinct [of nxt p "(x # xs) @ y # z # zs"] by auto
  with Cons show ?case by simp
qed

end
