(* ===== verification/Std_Heap.thy ===== *)
theory Std_Heap
  imports CMT_Prelude
begin

text \<open>
  The heap algorithms of the C++ standard library that the scheduler calls on its three
  vectors (\<open>task_pqueue\<close>, \<open>task_sch_queue\<close>, \<open>sleep_pqueue\<close>): \<open>std::push_heap\<close>,
  \<open>std::pop_heap\<close>, \<open>std::make_heap\<close> over a comparison object.  The first part is an
  executable binary heap on lists; the second part is the contract the standard gives those
  three algorithms for a strict weak order, as a locale, and its interpretation on the
  executable definitions.  The rest of the development uses the contract only, so it does not
  depend on how ties are broken.
\<close>

section \<open>The algorithms\<close>

definition swap_at :: "'a list \<Rightarrow> nat \<Rightarrow> nat \<Rightarrow> 'a list" where
  "swap_at xs i j = xs[i := xs ! j, j := xs ! i]"

definition parent :: "nat \<Rightarrow> nat" where
  "parent i = (i - 1) div 2"

text \<open>No element is greater than the root of the subtree it is in.\<close>

definition is_heap :: "('a \<Rightarrow> 'a \<Rightarrow> bool) \<Rightarrow> 'a list \<Rightarrow> bool" where
  "is_heap lt xs = (\<forall>k < length xs. 0 < k \<longrightarrow> \<not> lt (xs ! parent k) (xs ! k))"

function sift_up :: "('a \<Rightarrow> 'a \<Rightarrow> bool) \<Rightarrow> 'a list \<Rightarrow> nat \<Rightarrow> 'a list" where
  "sift_up lt xs i =
     (if 0 < i \<and> lt (xs ! parent i) (xs ! i)
      then sift_up lt (swap_at xs i (parent i)) (parent i) else xs)"
  by pat_completeness auto
termination
  by (relation "measure (\<lambda>(lt, xs, i). i)") (auto simp: parent_def)

text \<open>The child of \<open>i\<close> below the bound \<open>n\<close> that no sibling exceeds.\<close>

definition max_child :: "('a \<Rightarrow> 'a \<Rightarrow> bool) \<Rightarrow> 'a list \<Rightarrow> nat \<Rightarrow> nat \<Rightarrow> nat" where
  "max_child lt xs n i =
     (if 2 * i + 2 < n \<and> lt (xs ! (2 * i + 1)) (xs ! (2 * i + 2)) then 2 * i + 2 else 2 * i + 1)"

lemma max_child_gt: "i < max_child lt xs n i"
  by (simp add: max_child_def)

function sift_down :: "('a \<Rightarrow> 'a \<Rightarrow> bool) \<Rightarrow> 'a list \<Rightarrow> nat \<Rightarrow> nat \<Rightarrow> 'a list" where
  "sift_down lt xs n i =
     (if 2 * i + 1 < n \<and> lt (xs ! i) (xs ! max_child lt xs n i)
      then sift_down lt (swap_at xs i (max_child lt xs n i)) n (max_child lt xs n i)
      else xs)"
  by pat_completeness auto
termination
  by (relation "measure (\<lambda>(lt, xs, n, i). n - i)") (auto simp: max_child_def)

declare sift_up.simps [simp del] sift_down.simps [simp del]

lemma sift_up_step:
  "0 < i \<and> lt (xs ! parent i) (xs ! i) \<Longrightarrow>
   sift_up lt xs i = sift_up lt (swap_at xs i (parent i)) (parent i)"
  by (subst sift_up.simps) simp

lemma sift_up_stop: "\<not> (0 < i \<and> lt (xs ! parent i) (xs ! i)) \<Longrightarrow> sift_up lt xs i = xs"
  by (subst sift_up.simps) auto

lemma sift_down_step:
  "2 * i + 1 < n \<and> lt (xs ! i) (xs ! max_child lt xs n i) \<Longrightarrow>
   sift_down lt xs n i = sift_down lt (swap_at xs i (max_child lt xs n i)) n (max_child lt xs n i)"
  by (subst sift_down.simps) simp

lemma sift_down_stop:
  "\<not> (2 * i + 1 < n \<and> lt (xs ! i) (xs ! max_child lt xs n i)) \<Longrightarrow> sift_down lt xs n i = xs"
  by (subst sift_down.simps) auto

definition push_heap :: "('a \<Rightarrow> 'a \<Rightarrow> bool) \<Rightarrow> 'a list \<Rightarrow> 'a list" where
  "push_heap lt xs = sift_up lt xs (length xs - 1)"

definition pop_heap :: "('a \<Rightarrow> 'a \<Rightarrow> bool) \<Rightarrow> 'a list \<Rightarrow> 'a list" where
  "pop_heap lt xs =
     (if length xs \<le> 1 then xs
      else sift_down lt (swap_at xs 0 (length xs - 1)) (length xs - 1) 0)"

definition make_heap :: "('a \<Rightarrow> 'a \<Rightarrow> bool) \<Rightarrow> 'a list \<Rightarrow> 'a list" where
  "make_heap lt xs =
     foldr (\<lambda>i ys. sift_down lt ys (length xs) i) [0..<length xs div 2] xs"

section \<open>Permutation\<close>

lemma length_swap_at [simp]: "length (swap_at xs i j) = length xs"
  by (simp add: swap_at_def)

lemma mset_swap_at [simp]:
  "i < length xs \<Longrightarrow> j < length xs \<Longrightarrow> mset (swap_at xs i j) = mset xs"
  by (simp add: swap_at_def mset_swap)

lemma swap_at_nth:
  "i < length xs \<Longrightarrow> j < length xs \<Longrightarrow> k < length xs \<Longrightarrow>
   swap_at xs i j ! k = (if k = i then xs ! j else if k = j then xs ! i else xs ! k)"
  by (auto simp: swap_at_def nth_list_update)

lemma parent_less: "0 < i \<Longrightarrow> parent i < i"
  by (auto simp: parent_def)

lemma length_sift_up [simp]: "length (sift_up lt xs i) = length xs"
proof (induction lt xs i rule: sift_up.induct)
  case (1 lt xs i)
  then show ?case by (subst sift_up.simps) simp
qed

lemma length_sift_down [simp]: "length (sift_down lt xs n i) = length xs"
proof (induction lt xs n i rule: sift_down.induct)
  case (1 lt xs n i)
  then show ?case by (subst sift_down.simps) simp
qed

lemma mset_sift_up: "i < length xs \<Longrightarrow> mset (sift_up lt xs i) = mset xs"
proof (induction lt xs i rule: sift_up.induct)
  case (1 lt xs i)
  show ?case
  proof (cases "0 < i \<and> lt (xs ! parent i) (xs ! i)")
    case True
    moreover from True have "parent i < i" by (simp add: parent_less)
    ultimately show ?thesis using 1 by (simp add: sift_up_step)
  qed (simp add: sift_up_stop)
qed

lemma max_child_less: "2 * i + 1 < n \<Longrightarrow> max_child lt xs n i < n"
  by (simp add: max_child_def)

lemma mset_sift_down: "n \<le> length xs \<Longrightarrow> mset (sift_down lt xs n i) = mset xs"
proof (induction lt xs n i rule: sift_down.induct)
  case (1 lt xs n i)
  show ?case
  proof (cases "2 * i + 1 < n \<and> lt (xs ! i) (xs ! max_child lt xs n i)")
    case True
    moreover from True have "max_child lt xs n i < length xs" "i < length xs"
      using max_child_less [of i n lt xs] "1.prems" by simp_all
    ultimately show ?thesis using 1 by (simp add: sift_down_step)
  qed (simp add: sift_down_stop)
qed

lemma sift_down_beyond: "n \<le> k \<Longrightarrow> sift_down lt xs n i ! k = xs ! k"
proof (induction lt xs n i rule: sift_down.induct)
  case (1 lt xs n i)
  show ?case
  proof (cases "2 * i + 1 < n \<and> lt (xs ! i) (xs ! max_child lt xs n i)")
    case True
    moreover from True have "max_child lt xs n i \<noteq> k" "i \<noteq> k"
      using max_child_less [of i n lt xs] "1.prems" by auto
    ultimately show ?thesis using 1 by (simp add: sift_down_step) (simp add: swap_at_def)
  qed (simp add: sift_down_stop)
qed

lemma length_push_heap [simp]: "length (push_heap lt xs) = length xs"
  by (simp add: push_heap_def)

lemma length_pop_heap [simp]: "length (pop_heap lt xs) = length xs"
  by (simp add: pop_heap_def)

lemma mset_push_heap: "mset (push_heap lt xs) = mset xs"
proof (cases xs)
  case Nil
  then show ?thesis by (simp add: push_heap_def sift_up_stop)
qed (simp add: push_heap_def mset_sift_up)

lemma mset_pop_heap: "mset (pop_heap lt xs) = mset xs"
  by (auto simp: pop_heap_def mset_sift_down intro!: mset_swap_at)

lemma fold_sift_down_inv:
  "length (foldr (\<lambda>i ys. sift_down lt ys n i) is xs) = length xs \<and>
   (n \<le> length xs \<longrightarrow> mset (foldr (\<lambda>i ys. sift_down lt ys n i) is xs) = mset xs)"
  by (induction "is") (auto simp: mset_sift_down)

lemma mset_make_heap: "mset (make_heap lt xs) = mset xs"
  by (simp add: make_heap_def fold_sift_down_inv)

lemma last_pop_heap:
  assumes "xs \<noteq> []"
  shows "last (pop_heap lt xs) = hd xs"
proof (cases "length xs \<le> 1")
  case True
  with assms show ?thesis by (cases xs) (auto simp: pop_heap_def)
next
  case False
  let ?n = "length xs - 1"
  have "last (pop_heap lt xs) = sift_down lt (swap_at xs 0 ?n) ?n 0 ! ?n"
    using False assms by (simp add: pop_heap_def last_conv_nth flip: length_0_conv)
  also have "\<dots> = swap_at xs 0 ?n ! ?n" by (rule sift_down_beyond) simp
  also have "\<dots> = hd xs" using False assms by (simp add: swap_at_nth hd_conv_nth)
  finally show ?thesis .
qed

text \<open>What the scheduler keeps after \<open>pop_heap\<close> followed by \<open>pop_back\<close>.\<close>

lemma mset_pop_back:
  assumes "xs \<noteq> []"
  shows "mset (butlast (pop_heap lt xs)) = mset xs - {#hd xs#}"
proof -
  let ?ys = "pop_heap lt xs"
  have "?ys \<noteq> []" using assms by (simp flip: length_greater_0_conv)
  then have "mset (butlast ?ys @ [last ?ys]) = mset ?ys" by simp
  then have "mset (butlast ?ys) + {#hd xs#} = mset xs"
    by (simp add: mset_pop_heap last_pop_heap assms)
  then show ?thesis by (metis add_diff_cancel_right')
qed

section \<open>Order\<close>

text \<open>
  The comparison objects of the scheduler are strict weak orders: irreflexive, transitive, and
  with transitive incomparability.
\<close>

locale strict_weak_order =
  fixes lt :: "'a \<Rightarrow> 'a \<Rightarrow> bool"
  assumes irrefl: "\<not> lt x x"
    and trans: "lt x y \<Longrightarrow> lt y z \<Longrightarrow> lt x z"
    and not_trans: "\<not> lt x y \<Longrightarrow> \<not> lt y z \<Longrightarrow> \<not> lt x z"

text \<open>A heap but for position \<open>i\<close>, which may exceed its parent.\<close>

definition heap_up :: "('a \<Rightarrow> 'a \<Rightarrow> bool) \<Rightarrow> 'a list \<Rightarrow> nat \<Rightarrow> bool" where
  "heap_up lt xs i =
     (\<forall>k < length xs. 0 < k \<longrightarrow>
        (k \<noteq> i \<longrightarrow> \<not> lt (xs ! parent k) (xs ! k)) \<and>
        (parent k = i \<longrightarrow> 0 < i \<longrightarrow> \<not> lt (xs ! parent i) (xs ! k)))"

text \<open>The first \<open>n\<close> elements are a heap for the parents from \<open>m\<close> on.\<close>

definition heap_from :: "('a \<Rightarrow> 'a \<Rightarrow> bool) \<Rightarrow> 'a list \<Rightarrow> nat \<Rightarrow> nat \<Rightarrow> bool" where
  "heap_from lt xs n m =
     (\<forall>k < n. 0 < k \<longrightarrow> m \<le> parent k \<longrightarrow> \<not> lt (xs ! parent k) (xs ! k))"

text \<open>The same but for position \<open>i\<close>, which may be exceeded by its children.\<close>

definition heap_down :: "('a \<Rightarrow> 'a \<Rightarrow> bool) \<Rightarrow> 'a list \<Rightarrow> nat \<Rightarrow> nat \<Rightarrow> nat \<Rightarrow> bool" where
  "heap_down lt xs n m i =
     (\<forall>k < n. 0 < k \<longrightarrow>
        (m \<le> parent k \<longrightarrow> parent k \<noteq> i \<longrightarrow> \<not> lt (xs ! parent k) (xs ! k)) \<and>
        (parent k = i \<longrightarrow> 0 < i \<longrightarrow> m \<le> parent i \<longrightarrow> \<not> lt (xs ! parent i) (xs ! k)))"

lemma is_heap_butlast: "is_heap lt (butlast xs) = heap_from lt xs (length xs - 1) 0"
proof -
  have "butlast xs ! parent k = xs ! parent k" if "k < length xs - 1" "0 < k" for k
    using nth_butlast [of "parent k" xs] parent_less [of k] that by simp
  then show ?thesis by (auto simp: is_heap_def heap_from_def nth_butlast)
qed

lemma parent_child: "parent k = i \<Longrightarrow> 0 < k \<Longrightarrow> k = 2 * i + 1 \<or> k = 2 * i + 2"
  unfolding parent_def by presburger

lemma parent_max_child [simp]: "parent (max_child lt xs n i) = i"
  by (simp add: parent_def max_child_def)

context strict_weak_order
begin

lemma asym: "lt x y \<Longrightarrow> \<not> lt y x"
  using irrefl trans by blast

lemma heap_up_swap:
  assumes h: "heap_up lt xs i" and i: "i < length xs" "0 < i" and l: "lt (xs ! parent i) (xs ! i)"
  shows "heap_up lt (swap_at xs i (parent i)) (parent i)"
proof -
  let ?p = "parent i" and ?ys = "swap_at xs i (parent i)"
  have p: "?p < i" "?p < length xs" using parent_less [OF i(2)] i(1) by simp_all
  have nth: "?ys ! k = (if k = i then xs ! ?p else if k = ?p then xs ! i else xs ! k)"
    if "k < length xs" for k using that swap_at_nth [of i xs ?p k] i p by simp
  have ord: "\<not> lt (xs ! parent k) (xs ! k)" if "k < length xs" "0 < k" "k \<noteq> i" for k
    using h that by (simp add: heap_up_def)
  have below: "\<not> lt (xs ! ?p) (xs ! k)" if "k < length xs" "0 < k" "parent k = i" for k
    using h that i by (simp add: heap_up_def)
  have sib: "\<not> lt (xs ! i) (xs ! k)" if "k < length xs" "0 < k" "parent k = ?p" "k \<noteq> i" for k
    using ord [of k] that l trans by metis
  have grand: "\<not> lt (xs ! parent ?p) (xs ! k)"
    if "0 < ?p" "k < length xs" "0 < k" "parent k = ?p" "k \<noteq> i" for k
    using ord [of k] ord [of ?p] not_trans that p by metis
  show ?thesis unfolding heap_up_def
  proof (intro allI impI conjI)
    fix k assume k: "k < length ?ys" "0 < k"
    then have pk: "parent k < k" "parent k < length xs" using parent_less [of k] by simp_all
    show "\<not> lt (?ys ! parent k) (?ys ! k)" if "k \<noteq> ?p"
    proof (cases "k = i")
      case True
      with asym [OF l] p i nth show ?thesis by simp
    next
      case False
      with k pk nth ord [of k] below [of k] sib [of k] that show ?thesis
        by (cases "parent k = i"; cases "parent k = ?p") auto
    qed
    show "\<not> lt (?ys ! parent ?p) (?ys ! k)" if "parent k = ?p" "0 < ?p"
    proof -
      have "parent ?p < ?p" using that(2) by (rule parent_less)
      then have "?ys ! parent ?p = xs ! parent ?p" using nth p by simp
      moreover have "k \<noteq> ?p" using pk that by auto
      ultimately show ?thesis
        using k nth [of k] that grand [of k] ord [of ?p] p by (cases "k = i") auto
    qed
  qed
qed

lemma sift_up_heap: "heap_up lt xs i \<Longrightarrow> i < length xs \<Longrightarrow> is_heap lt (sift_up lt xs i)"
proof (induction i arbitrary: xs rule: less_induct)
  case (less i)
  show ?case
  proof (cases "0 < i \<and> lt (xs ! parent i) (xs ! i)")
    case True
    then have "parent i < i" by (simp add: parent_less)
    moreover from True less.prems have "heap_up lt (swap_at xs i (parent i)) (parent i)"
      by (simp add: heap_up_swap)
    ultimately show ?thesis using less True by (simp add: sift_up_step)
  next
    case False
    with less.prems(1) show ?thesis
      by (simp add: sift_up_stop) (auto simp: heap_up_def is_heap_def)
  qed
qed

lemma heap_down_swap:
  fixes xs n i
  defines "c \<equiv> max_child lt xs n i"
  assumes h: "heap_down lt xs n m i" and n: "n \<le> length xs"
    and c: "2 * i + 1 < n" and l: "lt (xs ! i) (xs ! c)" and m: "m \<le> i"
  shows "heap_down lt (swap_at xs i c) n m c"
proof -
  let ?ys = "swap_at xs i c"
  have ci: "c < n" "i < c" "parent c = i" "0 < c"
    using max_child_less [OF c, of lt xs] max_child_gt [of i lt xs n] by (simp_all add: c_def)
  have nth: "?ys ! k = (if k = i then xs ! c else if k = c then xs ! i else xs ! k)"
    if "k < n" for k using that swap_at_nth [of i xs c k] ci n by simp
  have ord: "\<not> lt (xs ! parent k) (xs ! k)" if "k < n" "0 < k" "m \<le> parent k" "parent k \<noteq> i" for k
    using h that by (simp add: heap_down_def)
  have over: "\<not> lt (xs ! parent i) (xs ! k)"
    if "k < n" "0 < k" "parent k = i" "0 < i" "m \<le> parent i" for k
    using h that by (simp add: heap_down_def)
  have sib: "\<not> lt (xs ! c) (xs ! k)" if "k < n" "0 < k" "parent k = i" for k
    using parent_child [OF that(3,2)] that irrefl asym by (auto simp: c_def max_child_def)
  show ?thesis unfolding heap_down_def
  proof (intro allI impI conjI)
    fix k assume k: "k < n" "0 < k"
    then have pk: "parent k < k" "parent k < n" using parent_less [of k] by simp_all
    show "\<not> lt (?ys ! parent k) (?ys ! k)" if "m \<le> parent k" "parent k \<noteq> c"
    proof (cases "k = c")
      case True
      with asym [OF l] ci nth [of c] nth [of i] show ?thesis by simp
    next
      case False
      with that k pk nth [of k] nth [of "parent k"] ord [of k] over [of c] sib [of k] ci
      show ?thesis by (cases "parent k = i"; cases "k = i") auto
    qed
    show "\<not> lt (?ys ! parent c) (?ys ! k)" if "parent k = c"
      using that k pk ci nth [of k] nth [of i] ord [of k] m by auto
  qed
qed

lemma max_child_max:
  "k < n \<Longrightarrow> 0 < k \<Longrightarrow> parent k = i \<Longrightarrow> \<not> lt (xs ! max_child lt xs n i) (xs ! k)"
  using parent_child [of k i] irrefl asym by (auto simp: max_child_def)

lemma heap_down_stop:
  assumes h: "heap_down lt xs n m i"
    and stop: "\<not> (2 * i + 1 < n \<and> lt (xs ! i) (xs ! max_child lt xs n i))"
  shows "heap_from lt xs n m"
  unfolding heap_from_def
proof (intro allI impI)
  fix k assume k: "k < n" "0 < k" "m \<le> parent k"
  show "\<not> lt (xs ! parent k) (xs ! k)"
  proof (cases "parent k = i")
    case True
    with k parent_child [of k i] stop have "\<not> lt (xs ! i) (xs ! max_child lt xs n i)" by auto
    then have "\<not> lt (xs ! i) (xs ! k)" using max_child_max k True not_trans by blast
    with True show ?thesis by simp
  next
    case False
    with h k show ?thesis by (simp add: heap_down_def)
  qed
qed

lemma sift_down_heap:
  "heap_down lt xs n m i \<Longrightarrow> n \<le> length xs \<Longrightarrow> m \<le> i \<Longrightarrow> heap_from lt (sift_down lt xs n i) n m"
proof (induction "n - i" arbitrary: xs i rule: less_induct)
  case less
  let ?c = "max_child lt xs n i"
  show ?case
  proof (cases "2 * i + 1 < n \<and> lt (xs ! i) (xs ! ?c)")
    case True
    moreover have "n - ?c < n - i" using max_child_gt [of i lt xs n] True by linarith
    moreover from True less.prems have "heap_down lt (swap_at xs i ?c) n m ?c"
      by (simp add: heap_down_swap)
    ultimately show ?thesis
      using less.hyps [of ?c "swap_at xs i ?c"] less.prems max_child_gt [of i lt xs n]
      by (simp add: sift_down_step)
  next
    case False
    with less.prems(1) show ?thesis by (simp add: sift_down_stop heap_down_stop)
  qed
qed

text \<open>No element of a heap is greater than its root.\<close>

lemma heap_root:
  assumes "is_heap lt xs"
  shows "i < length xs \<Longrightarrow> \<not> lt (xs ! 0) (xs ! i)"
proof (induction i rule: less_induct)
  case (less i)
  show ?case
  proof (cases "i = 0")
    case True
    then show ?thesis by (simp add: irrefl)
  next
    case False
    then have "parent i < i" by (simp add: parent_less)
    with less have "\<not> lt (xs ! 0) (xs ! parent i)" by simp
    moreover have "\<not> lt (xs ! parent i) (xs ! i)" using assms less.prems False by (simp add: is_heap_def)
    ultimately show ?thesis by (rule not_trans)
  qed
qed

lemma push_heap_heap:
  assumes "is_heap lt (butlast xs)" and "xs \<noteq> []"
  shows "is_heap lt (push_heap lt xs)"
proof -
  let ?n = "length xs - 1"
  have "\<not> lt (xs ! parent k) (xs ! k)" if "k < ?n" "0 < k" for k
    using assms(1) that by (simp add: is_heap_butlast heap_from_def)
  moreover have "parent k \<noteq> ?n" if "k < length xs" "0 < k" for k
    using parent_less [of k] that by simp
  ultimately have "heap_up lt xs ?n" unfolding heap_up_def
    by (metis One_nat_def Suc_pred assms(2) length_greater_0_conv less_SucE)
  then show ?thesis unfolding push_heap_def using assms(2) by (simp add: sift_up_heap)
qed

lemma pop_heap_heap:
  assumes "is_heap lt xs"
  shows "is_heap lt (butlast (pop_heap lt xs))"
proof (cases "length xs \<le> 1")
  case True
  then show ?thesis by (simp add: pop_heap_def is_heap_def)
next
  case False
  let ?n = "length xs - 1" and ?ys = "swap_at xs 0 (length xs - 1)"
  have "heap_down lt ?ys ?n 0 0" unfolding heap_down_def
  proof (intro allI impI conjI)
    fix k assume k: "k < ?n" "0 < k" and "parent k \<noteq> 0"
    moreover have "parent k < k" using k(2) by (rule parent_less)
    ultimately have "?ys ! k = xs ! k" "?ys ! parent k = xs ! parent k"
      by (simp_all add: swap_at_def nth_list_update)
    with assms k show "\<not> lt (?ys ! parent k) (?ys ! k)" by (simp add: is_heap_def)
  qed simp
  then have "heap_from lt (pop_heap lt xs) ?n 0"
    using False by (simp add: pop_heap_def sift_down_heap)
  then show ?thesis by (simp add: is_heap_butlast)
qed

lemma heap_from_prepend: "heap_from lt xs n (Suc m) \<Longrightarrow> heap_down lt xs n m m"
  unfolding heap_from_def heap_down_def
  by (metis Suc_leI le_neq_implies_less not_less parent_less)

lemma make_heap_heap: "is_heap lt (make_heap lt xs)"
proof -
  let ?n = "length xs" and ?f = "\<lambda>i ys. sift_down lt ys (length xs) i"
  have step: "heap_from lt (foldr ?f [m..<?n div 2] xs) ?n m" if "m \<le> ?n div 2" for m
    using that
  proof (induction m rule: inc_induct)
    case base
    have "\<not> ?n div 2 \<le> parent k" if "k < ?n" "0 < k" for k using that unfolding parent_def by linarith
    then show ?case unfolding heap_from_def by blast
  next
    case (step m)
    from step.IH have "heap_down lt (foldr ?f [Suc m..<?n div 2] xs) ?n m m" by (rule heap_from_prepend)
    with step.hyps show ?case
      by (simp add: upt_conv_Cons sift_down_heap fold_sift_down_inv)
  qed
  from step [of 0] show ?thesis
    by (auto simp: make_heap_def heap_from_def is_heap_def fold_sift_down_inv)
qed

end

section \<open>The contract\<close>

text \<open>
  What the standard promises of the three algorithms ([alg.heap.operations]): they permute the
  range, \<open>push_heap\<close> makes a heap of a heap with one element appended, \<open>pop_heap\<close> moves the
  front to the back and leaves a heap before it, \<open>make_heap\<close> makes a heap; the front of a heap
  is an element no other exceeds.
\<close>

locale std_heap = strict_weak_order lt
  for lt :: "'a \<Rightarrow> 'a \<Rightarrow> bool" +
  fixes heap :: "'a list \<Rightarrow> bool"
    and push pop mk :: "'a list \<Rightarrow> 'a list"
  assumes heap_Nil: "heap []"
    and front_max: "heap xs \<Longrightarrow> x \<in> set xs \<Longrightarrow> \<not> lt (hd xs) x"
    and push_mset: "mset (push (xs @ [x])) = mset xs + {#x#}"
    and push_heap: "heap xs \<Longrightarrow> heap (push (xs @ [x]))"
    and pop_mset: "xs \<noteq> [] \<Longrightarrow> mset (butlast (pop xs)) = mset xs - {#hd xs#}"
    and pop_heap: "heap xs \<Longrightarrow> heap (butlast (pop xs))"
    and mk_mset: "mset (mk xs) = mset xs"
    and mk_heap: "heap (mk xs)"
begin

text \<open>Taking elements off the front until none is left.\<close>

fun drain :: "nat \<Rightarrow> 'a list \<Rightarrow> 'a list" where
  "drain 0 xs = []"
| "drain (Suc n) xs = (if xs = [] then [] else hd xs # drain n (butlast (pop xs)))"

lemma set_push: "set (push (xs @ [x])) = insert x (set xs)"
  using push_mset [of xs x] by (metis add_mset_add_single set_mset_add_mset_insert set_mset_mset)

lemma length_push: "length (push (xs @ [x])) = Suc (length xs)"
  using push_mset [of xs x] by (metis size_mset size_add_mset add_mset_add_single)

lemma length_pop: "xs \<noteq> [] \<Longrightarrow> length (butlast (pop xs)) = length xs - 1"
  using pop_mset [of xs]
  by (metis One_nat_def hd_in_set set_mset_mset size_Diff_singleton size_mset)

lemma pop_add: "xs \<noteq> [] \<Longrightarrow> mset (butlast (pop xs)) + {#hd xs#} = mset xs"
  by (simp add: pop_mset)

lemma set_mk: "set (mk xs) = set xs"
  using mk_mset by (metis set_mset_mset)

lemma set_pop_subset: "xs \<noteq> [] \<Longrightarrow> set (butlast (pop xs)) \<subseteq> set xs"
  using pop_mset [of xs] by (metis diff_subset_eq_self set_mset_mono set_mset_mset)

lemma drain_mset: "length xs \<le> n \<Longrightarrow> mset (drain n xs) = mset xs"
proof (induction n arbitrary: xs)
  case (Suc n)
  show ?case
  proof (cases "xs = []")
    case False
    then have "length (butlast (pop xs)) \<le> n" using Suc.prems length_pop by fastforce
    with Suc.IH False show ?thesis by (simp add: pop_mset)
  qed simp
qed simp

text \<open>The elements come off in order: none is exceeded by a later one.\<close>

lemma drain_ordered:
  "heap xs \<Longrightarrow> length xs \<le> n \<Longrightarrow> sorted_wrt (\<lambda>x y. \<not> lt x y) (drain n xs)"
proof (induction n arbitrary: xs)
  case (Suc n)
  show ?case
  proof (cases "xs = []")
    case False
    then have len: "length (butlast (pop xs)) \<le> n" using Suc.prems length_pop by fastforce
    then have "set (drain n (butlast (pop xs))) = set (butlast (pop xs))"
      by (metis drain_mset set_mset_mset)
    with False set_pop_subset have "set (drain n (butlast (pop xs))) \<subseteq> set xs" by simp
    with False len Suc show ?thesis by (auto simp: pop_heap front_max)
  qed simp
qed simp

end

lemma std_heap_algorithms:
  assumes "strict_weak_order lt"
  shows "std_heap lt (is_heap lt) (push_heap lt) (pop_heap lt) (make_heap lt)"
proof -
  note swo = assms
  show ?thesis
  proof (intro std_heap.intro swo std_heap_axioms.intro)
    fix xs :: "'a list" and x
    show "is_heap lt []" by (simp add: is_heap_def)
    show "mset (push_heap lt (xs @ [x])) = mset xs + {#x#}" by (simp add: mset_push_heap)
    show "mset (make_heap lt xs) = mset xs" by (rule mset_make_heap)
    show "is_heap lt (make_heap lt xs)" by (rule strict_weak_order.make_heap_heap [OF swo])
    { assume "is_heap lt xs" then show "is_heap lt (push_heap lt (xs @ [x]))"
        by (simp add: strict_weak_order.push_heap_heap [OF swo]) }
    { assume "xs \<noteq> []" then show "mset (butlast (pop_heap lt xs)) = mset xs - {#hd xs#}"
        by (rule mset_pop_back) }
    { assume "is_heap lt xs" then show "is_heap lt (butlast (pop_heap lt xs))"
        by (rule strict_weak_order.pop_heap_heap [OF swo]) }
    { assume h: "is_heap lt xs" and "x \<in> set xs"
      then obtain i where "i < length xs" "x = xs ! i" by (auto simp: in_set_conv_nth)
      with strict_weak_order.heap_root [OF swo h, of i] show "\<not> lt (hd xs) x"
        by (cases xs) auto }
  qed
qed

end
