(* ===== verification/CMT_Task.thy ===== *)
theory CMT_Task
  imports Std_Heap "HOL-Library.Word"
begin

text \<open>
  Exceptions (\<open>include/boost/cmt/error.hpp\<close>), priorities and tasks
  (\<open>include/boost/cmt/task.hpp\<close>), fiber contexts (\<open>cmt_context\<close> of \<open>src/thread.cpp\<close>), and
  the three comparison objects of the scheduler's heaps.  The objects live in stores indexed
  by address, because the scheduler's lists and heaps hold pointers and the comparison objects
  read through them.
\<close>

section \<open>Exceptions\<close>

datatype future_exception =
  Future_Exception | Null_Future | Future_Value_Not_Ready | Future_Wait_Timeout
| Broken_Promise | Task_Canceled | Thread_Quit

fun what :: "future_exception \<Rightarrow> string" where
  "what Future_Exception = ''future exception''"
| "what Null_Future = ''attempt to access null future''"
| "what Future_Value_Not_Ready = ''the future value is not ready''"
| "what Future_Wait_Timeout = ''timeout waiting for future''"
| "what Broken_Promise = ''broken promise - operation timeout''"
| "what Task_Canceled = ''task canceled''"
| "what Thread_Quit = ''thread quit''"

text \<open>
  What a \<open>boost::exception_ptr\<close> can hold: one of the library's exceptions, a
  \<open>boost::system::system_error\<close> with its code, another exception derived from
  \<open>std::exception\<close> or \<open>boost::exception\<close>, or a value of any other type.
\<close>

datatype exn =
  Future_Error future_exception
| System_Error int
| Std_Error string
| Other_Error nat

section \<open>Priorities\<close>

datatype priority = Priority (prio_value: int)

instantiation priority :: linorder
begin

definition less_eq_priority :: "priority \<Rightarrow> priority \<Rightarrow> bool" where
  "less_eq_priority p q = (prio_value p \<le> prio_value q)"

definition less_priority :: "priority \<Rightarrow> priority \<Rightarrow> bool" where
  "less_priority p q = (prio_value p < prio_value q)"

instance
  by standard (auto simp: less_eq_priority_def less_priority_def priority.expand)

end

text \<open>\<open>explicit priority( int v = 0)\<close>.\<close>

definition default_priority :: priority where
  "default_priority = Priority 0"

text \<open>\<open>std::max(a,b)\<close>: the first argument unless it is less than the second.\<close>

definition std_max :: "priority \<Rightarrow> priority \<Rightarrow> priority" where
  "std_max a b = (if a < b then b else a)"

lemma std_max_max [simp]: "std_max a b = max a b"
  by (auto simp: std_max_def max_def)

section \<open>Tasks\<close>

text \<open>
  What a task's \<open>m_functor\<close> can be: user code (opaque, named by a number), or one of the two
  functors that the library itself binds and posts, \<open>thread::notify\<close> and \<open>thread::quit\<close>.
\<close>

datatype task_functor = User_Fun nat | Notify_Fun thid pptr | Quit_Fun thid

text \<open>
  The two classes derived from \<open>task\<close>: \<open>rtask<R>\<close> delivers the functor's result to a promise,
  \<open>vtask\<close> drops it.
\<close>

datatype task_kind = Rtask task_functor pptr | Vtask task_functor

record task =
  tk_when :: time_point
  tk_canceled :: bool
  tk_posted_num :: "64 word"
  tk_prio :: priority
  tk_next :: "tptr option"
  tk_active_context :: "cptr option"
  tk_kind :: task_kind
  tk_name :: string

text \<open>
  The constructor \<open>task(p, w)\<close>: the counter \<open>global_task_count\<close> is incremented and the new
  value becomes \<open>posted_num\<close>.
\<close>

definition make_task ::
  "task_kind \<Rightarrow> priority \<Rightarrow> time_point \<Rightarrow> string \<Rightarrow> 64 word \<Rightarrow> task \<times> 64 word" where
  "make_task k p w n global_task_count =
     (let posted = global_task_count + 1 in
      (\<lparr>tk_when = w, tk_canceled = False, tk_posted_num = posted, tk_prio = p, tk_next = None,
        tk_active_context = None, tk_kind = k, tk_name = n\<rparr>, posted))"

text \<open>Set by the scheduler around \<open>run()\<close>; the spin lock makes the assignment atomic.\<close>

definition set_active_context :: "cptr option \<Rightarrow> task \<Rightarrow> task" where
  "set_active_context c t = t\<lparr>tk_active_context := c\<rparr>"

section \<open>Contexts\<close>

record cmt_context =
  c_caller_context :: "cptr option"
  c_start_func :: bool
  c_complete :: bool
  c_prio :: priority
  c_prom :: "pptr option"
  c_resume_time :: time_point
  c_next_blocked :: "cptr option"
  c_next :: "cptr option"
  c_canceled :: bool

text \<open>
  The two constructors.  They leave \<open>resume_time\<close> to the default constructor of
  \<open>time_point\<close> (the epoch) and \<open>prio\<close> to that of \<open>priority\<close>; \<open>c_start_func\<close> says whether
  a start function (always \<open>start_process_tasks\<close>) and a stack were given.
\<close>

definition make_context :: "bool \<Rightarrow> cmt_context" where
  "make_context sf =
     \<lparr>c_caller_context = None, c_start_func = sf, c_complete = False, c_prio = default_priority,
      c_prom = None, c_resume_time = 0, c_next_blocked = None, c_next = None,
      c_canceled = False\<rparr>"

definition add_blocking_promise :: "pptr \<Rightarrow> cmt_context \<Rightarrow> cmt_context" where
  "add_blocking_promise p c = c\<lparr>c_prom := Some p\<rparr>"

definition try_unblock :: "pptr \<Rightarrow> cmt_context \<Rightarrow> bool" where
  "try_unblock p c = (Some p = c_prom c)"

definition remove_blocking_promise :: "pptr \<Rightarrow> cmt_context \<Rightarrow> cmt_context" where
  "remove_blocking_promise p c = c\<lparr>c_prom := None\<rparr>"

definition clear_blocking_promises :: "cmt_context \<Rightarrow> cmt_context" where
  "clear_blocking_promises c = c\<lparr>c_prom := None\<rparr>"

definition is_complete :: "cmt_context \<Rightarrow> bool" where
  "is_complete c = c_complete c"

type_synonym cstore = "cptr \<Rightarrow> cmt_context"
type_synonym tstore = "tptr \<Rightarrow> task"

section \<open>Cancelling a task\<close>

text \<open>
  \<open>task::cancel\<close>, which \<open>vtask\<close> overrides with an empty body: mark the task, and the context
  that runs it if there is one, and forget that context.
\<close>

definition task_cancel :: "tptr \<Rightarrow> tstore \<Rightarrow> cstore \<Rightarrow> tstore \<times> cstore" where
  "task_cancel t ts cs =
     (case tk_kind (ts t) of
        Vtask _ \<Rightarrow> (ts, cs)
      | Rtask _ _ \<Rightarrow>
          (let ts = ts(t := (ts t)\<lparr>tk_canceled := True\<rparr>) in
           case tk_active_context (ts t) of
             None \<Rightarrow> (ts, cs)
           | Some c \<Rightarrow> (ts(t := (ts t)\<lparr>tk_active_context := None\<rparr>),
                        cs(c := (cs c)\<lparr>c_canceled := True\<rparr>))))"

section \<open>Running a task\<close>

text \<open>
  \<open>run()\<close> of \<open>rtask\<close>, given how the functor's call ended (\<open>Inl\<close> an exception): what is
  delivered to the promise, an exception or a value.  The functor is not called when the task
  was cancelled.
\<close>

definition rtask_run :: "bool \<Rightarrow> exn + 'v \<Rightarrow> exn + 'v" where
  "rtask_run canceled result =
     (if \<not> canceled then (case result of Inr v \<Rightarrow> Inr v | Inl e \<Rightarrow> Inl e)
      else Inl (Future_Error Task_Canceled))"

text \<open>
  \<open>run()\<close> of \<open>vtask\<close>: exceptions derived from \<open>boost::exception\<close> or \<open>std::exception\<close> are
  logged and dropped, any other fails an assertion.
\<close>

definition vtask_run :: "bool \<Rightarrow> exn + 'v \<Rightarrow> fault + unit" where
  "vtask_run canceled result =
     (if \<not> canceled then
        (case result of
           Inr _ \<Rightarrow> Inr ()
         | Inl (Other_Error _) \<Rightarrow> Inl Assert_Failed
         | Inl _ \<Rightarrow> Inr ())
      else Inr ())"

section \<open>Comparison objects\<close>

definition sleep_priority_less :: "cstore \<Rightarrow> cptr \<Rightarrow> cptr \<Rightarrow> bool" where
  "sleep_priority_less cs a b = (c_resume_time (cs a) > c_resume_time (cs b))"

definition task_priority_less :: "tstore \<Rightarrow> tptr \<Rightarrow> tptr \<Rightarrow> bool" where
  "task_priority_less ts a b =
     (if prio_value (tk_prio (ts a)) < prio_value (tk_prio (ts b)) then True
      else if prio_value (tk_prio (ts a)) > prio_value (tk_prio (ts b)) then False
      else tk_posted_num (ts a) > tk_posted_num (ts b))"

definition task_when_less :: "tstore \<Rightarrow> tptr \<Rightarrow> tptr \<Rightarrow> bool" where
  "task_when_less ts a b = (tk_when (ts a) < tk_when (ts b))"

lemma swo_sleep: "strict_weak_order (sleep_priority_less cs)"
  by unfold_locales (auto simp: sleep_priority_less_def)

lemma swo_prio: "strict_weak_order (task_priority_less ts)"
  by unfold_locales (auto simp: task_priority_less_def split: if_splits)

lemma swo_when: "strict_weak_order (task_when_less ts)"
  by unfold_locales (auto simp: task_when_less_def)

text \<open>The three heaps of the scheduler, as instances of the contract of \<open>std_heap\<close>.\<close>

interpretation sleepq: std_heap
  "sleep_priority_less cs" "is_heap (sleep_priority_less cs)" "push_heap (sleep_priority_less cs)"
  "pop_heap (sleep_priority_less cs)" "make_heap (sleep_priority_less cs)" for cs
  by (rule std_heap_algorithms [OF swo_sleep])

interpretation prioq: std_heap
  "task_priority_less ts" "is_heap (task_priority_less ts)" "push_heap (task_priority_less ts)"
  "pop_heap (task_priority_less ts)" "make_heap (task_priority_less ts)" for ts
  by (rule std_heap_algorithms [OF swo_prio])

interpretation schq: std_heap
  "task_when_less ts" "is_heap (task_when_less ts)" "push_heap (task_when_less ts)"
  "pop_heap (task_when_less ts)" "make_heap (task_when_less ts)" for ts
  by (rule std_heap_algorithms [OF swo_when])

text \<open>Which element is at the front of each heap.\<close>

lemma sleepq_front: "is_heap (sleep_priority_less cs) q \<Longrightarrow> c \<in> set q \<Longrightarrow>
    c_resume_time (cs (hd q)) \<le> c_resume_time (cs c)"
  using sleepq.front_max [of cs q c] by (simp add: sleep_priority_less_def)

lemma prioq_front: "is_heap (task_priority_less ts) q \<Longrightarrow> t \<in> set q \<Longrightarrow>
    tk_prio (ts t) < tk_prio (ts (hd q)) \<or>
    tk_prio (ts t) = tk_prio (ts (hd q)) \<and> tk_posted_num (ts (hd q)) \<le> tk_posted_num (ts t)"
  using prioq.front_max [of ts q t]
  by (auto simp: task_priority_less_def less_priority_def priority.expand split: if_splits)

lemma schq_front: "is_heap (task_when_less ts) q \<Longrightarrow> t \<in> set q \<Longrightarrow>
    tk_when (ts t) \<le> tk_when (ts (hd q))"
  using schq.front_max [of ts q t] by (simp add: task_when_less_def)

text \<open>A heap depends on the keys of its elements only.\<close>

lemma is_heap_cong:
  assumes "\<And>a b. a \<in> set q \<Longrightarrow> b \<in> set q \<Longrightarrow> lt a b = lt' a b"
  shows "is_heap lt q = is_heap lt' q"
proof -
  have "lt (q ! parent k) (q ! k) = lt' (q ! parent k) (q ! k)" if "k < length q" "0 < k" for k
    using assms parent_less [of k] that by simp
  then show ?thesis by (simp add: is_heap_def)
qed

lemma sleep_heap_cong:
  "(\<And>c. c \<in> set q \<Longrightarrow> c_resume_time (cs c) = c_resume_time (cs' c)) \<Longrightarrow>
   is_heap (sleep_priority_less cs) q = is_heap (sleep_priority_less cs') q"
  by (rule is_heap_cong) (simp add: sleep_priority_less_def)

end
