(* ===== verification/CMT_Promise.thy ===== *)
theory CMT_Promise
  imports CMT_Task
begin

text \<open>
  The promise object (\<open>promise_base\<close> and \<open>promise<T>\<close> of \<open>include/boost/cmt/future.hpp\<close>,
  \<open>src/future.cpp\<close>): its fields and the part of each member function that runs under
  \<open>m_mutex\<close>.  What a member function does after releasing the mutex (waking a thread,
  switching fibers) is in the scheduler theories, which call the definitions here.  The
  critical sections contain no yield, so each is one step.
\<close>

section \<open>State\<close>

record 'v promise =
  m_task :: "tptr option"
  m_blocked_thread :: "thid option"
  m_error :: "exn option"
  m_value :: "'v option"

definition make_promise :: "'v promise" where
  "make_promise = \<lparr>m_task = None, m_blocked_thread = None, m_error = None, m_value = None\<rparr>"

text \<open>\<open>promise( const T& v )\<close>.\<close>

definition make_promise_value :: "'v \<Rightarrow> 'v promise" where
  "make_promise_value v = make_promise\<lparr>m_value := Some v\<rparr>"

section \<open>Operations\<close>

definition promise_ready :: "'v promise \<Rightarrow> bool" where
  "promise_ready p = (m_error p \<noteq> None \<or> m_value p \<noteq> None)"

definition promise_error :: "'v promise \<Rightarrow> bool" where
  "promise_error p = (m_error p \<noteq> None)"

definition enqueue_thread :: "thid \<Rightarrow> 'v promise \<Rightarrow> 'v promise" where
  "enqueue_thread me p = p\<lparr>m_blocked_thread := Some me\<rparr>"

definition set_task :: "tptr option \<Rightarrow> 'v promise \<Rightarrow> 'v promise" where
  "set_task t p = p\<lparr>m_task := t\<rparr>"

text \<open>The first, locked block of \<open>wait\<close> and \<open>wait_until\<close>.\<close>

datatype 'v wait_outcome = Rethrow exn | Have 'v | Must_Block

definition wait_check :: "thid \<Rightarrow> 'v promise \<Rightarrow> 'v wait_outcome \<times> 'v promise" where
  "wait_check me p =
     (case m_error p of
        Some e \<Rightarrow> (Rethrow e, p)
      | None \<Rightarrow> (case m_value p of
                   Some v \<Rightarrow> (Have v, p)
                 | None \<Rightarrow> (Must_Block, enqueue_thread me p)))"

text \<open>
  The end of \<open>wait\<close> and \<open>wait_until\<close>, after the fiber was resumed: a stored exception is
  taken out of the promise and rethrown.
\<close>

definition wait_finish :: "'v promise \<Rightarrow> (exn + 'v) \<times> 'v promise" where
  "wait_finish p =
     (case m_error p of
        Some e \<Rightarrow> (Inl e, p\<lparr>m_error := None\<rparr>)
      | None \<Rightarrow> (case m_value p of
                   Some v \<Rightarrow> (Inr v, p)
                 | None \<Rightarrow> (Inl (Future_Error Future_Value_Not_Ready), p)))"

text \<open>
  The locked blocks of \<open>set_exception\<close>, \<open>set_value\<close> and \<open>set_timeout\<close>; the second component
  says whether \<open>notify()\<close> is called afterwards.
\<close>

definition store_exception :: "exn \<Rightarrow> 'v promise \<Rightarrow> 'v promise \<times> bool" where
  "store_exception e p = (p\<lparr>m_error := Some e\<rparr>, True)"

definition store_value :: "'v \<Rightarrow> 'v promise \<Rightarrow> 'v promise \<times> bool" where
  "store_value v p = (if m_error p \<noteq> None then (p, False) else (p\<lparr>m_value := Some v\<rparr>, True))"

definition store_timeout :: "'v promise \<Rightarrow> 'v promise \<times> bool" where
  "store_timeout p =
     (if m_value p \<noteq> None then (p, False)
      else (p\<lparr>m_error := Some (Future_Error Future_Wait_Timeout)\<rparr>, True))"

lemmas promise_ops = promise_ready_def promise_error_def enqueue_thread_def set_task_def
  wait_check_def wait_finish_def store_exception_def store_value_def store_timeout_def

section \<open>The life of a promise\<close>

text \<open>
  What can happen to a promise, one atomic block at a time: a producer stores a value, an
  exception or a timeout; a consumer enters \<open>wait\<close>, or leaves it after being resumed.
\<close>

datatype 'v promise_event =
  Set_Value 'v | Set_Exception exn | Set_Timeout | Wait_Enter thid | Wait_Leave

fun promise_step :: "'v promise_event \<Rightarrow> 'v promise \<Rightarrow> 'v promise" where
  "promise_step (Set_Value v) p = fst (store_value v p)"
| "promise_step (Set_Exception e) p = fst (store_exception e p)"
| "promise_step Set_Timeout p = fst (store_timeout p)"
| "promise_step (Wait_Enter me) p = snd (wait_check me p)"
| "promise_step Wait_Leave p = snd (wait_finish p)"

definition promise_run :: "'v promise_event list \<Rightarrow> 'v promise \<Rightarrow> 'v promise" where
  "promise_run es p = fold promise_step es p"

text \<open>A value, once stored, is only ever replaced by another stored value.\<close>

lemma promise_step_value:
  "m_value (promise_step e p) = (case e of
     Set_Value v \<Rightarrow> if m_error p = None then Some v else m_value p | _ \<Rightarrow> m_value p)"
  by (cases e) (auto simp: promise_ops split: option.splits)

lemma promise_step_keeps_value: "m_value p \<noteq> None \<Longrightarrow> m_value (promise_step e p) \<noteq> None"
  by (simp add: promise_step_value split: promise_event.split)

lemma promise_run_Cons [simp]: "promise_run (e # es) p = promise_run es (promise_step e p)"
  by (simp add: promise_run_def)

lemma promise_run_Nil [simp]: "promise_run [] p = p"
  by (simp add: promise_run_def)

lemma promise_run_keeps_value: "m_value p \<noteq> None \<Longrightarrow> m_value (promise_run es p) \<noteq> None"
  by (induction es arbitrary: p) (simp_all add: promise_step_keeps_value del: not_None_eq)

text \<open>The value a promise holds after a run is one that some producer stored during the run.\<close>

lemma promise_run_value_origin:
  "m_value (promise_run es p) = Some v \<Longrightarrow> m_value p = Some v \<or> Set_Value v \<in> set es"
proof (induction es arbitrary: p)
  case (Cons e es)
  then have "m_value (promise_step e p) = Some v \<or> Set_Value v \<in> set es" by simp
  then show ?case by (auto simp: promise_step_value split: promise_event.splits if_splits)
qed simp

text \<open>An exception stays until the consumer that leaves \<open>wait\<close> takes it out.\<close>

lemma promise_step_keeps_error:
  "m_error p \<noteq> None \<Longrightarrow> e \<noteq> Wait_Leave \<Longrightarrow> m_error (promise_step e p) \<noteq> None"
  by (cases e) (auto simp: promise_ops split: option.splits)

lemma promise_run_keeps_error:
  "m_error p \<noteq> None \<Longrightarrow> Wait_Leave \<notin> set es \<Longrightarrow> m_error (promise_run es p) \<noteq> None"
proof (induction es arbitrary: p)
  case (Cons e es)
  then have "m_error (promise_step e p) \<noteq> None" by (intro promise_step_keeps_error) auto
  with Cons show ?case by simp
qed simp

end
