(* ===== verification/CMT_Thread.thy ===== *)
theory CMT_Thread
  imports CMT_Promise
begin

text \<open>
  The per-thread scheduler state (\<open>thread_private\<close> of \<open>src/thread.cpp\<close>) and its two intrusive
  linked lists: the ready queue (\<open>ready_head\<close>, \<open>ready_tail\<close>, linked by \<open>next\<close>) and the list
  of blocked contexts (\<open>blocked\<close>, linked by \<open>next_blocked\<close>).  The lists are related to HOL
  lists, and the ready queue is shown to be a double-ended queue in the sense of a locale whose
  client lemma is the fairness of yielding.
\<close>

section \<open>State\<close>

record thread_private =
  th_boost_thread :: bool
  th_task_in_queue :: "tptr option"
  th_task_pqueue :: "tptr list"
  th_task_sch_queue :: "tptr list"
  th_sleep_pqueue :: "cptr list"
  th_done :: bool
  th_name :: string
  th_current :: "cptr option"
  th_ready_head :: "cptr option"
  th_ready_tail :: "cptr option"
  th_blocked :: "cptr option"

text \<open>The constructor; the name is the decimal rendering of the object's address.\<close>

definition make_thread :: "string \<Rightarrow> thread_private" where
  "make_thread nm =
     \<lparr>th_boost_thread = False, th_task_in_queue = None, th_task_pqueue = [],
      th_task_sch_queue = [], th_sleep_pqueue = [], th_done = False, th_name = nm,
      th_current = None, th_ready_head = None, th_ready_tail = None, th_blocked = None\<rparr>"

section \<open>List operations\<close>

definition add_to_blocked :: "cptr \<Rightarrow> cstore \<times> thread_private \<Rightarrow> cstore \<times> thread_private" where
  "add_to_blocked c = (\<lambda>(cs, tp).
     (cs(c := (cs c)\<lparr>c_next_blocked := th_blocked tp\<rparr>), tp\<lparr>th_blocked := Some c\<rparr>))"

definition ready_pop_front ::
  "cstore \<times> thread_private \<Rightarrow> cptr option \<times> cstore \<times> thread_private" where
  "ready_pop_front = (\<lambda>(cs, tp).
     case th_ready_head tp of
       None \<Rightarrow> (None, cs, tp)
     | Some tmp \<Rightarrow>
         (let tp = tp\<lparr>th_ready_head := c_next (cs tmp)\<rparr>;
              tp = (if th_ready_head tp = None then tp\<lparr>th_ready_tail := None\<rparr> else tp)
          in (Some tmp, cs(tmp := (cs tmp)\<lparr>c_next := None\<rparr>), tp)))"

definition ready_push_front :: "cptr \<Rightarrow> cstore \<times> thread_private \<Rightarrow> cstore \<times> thread_private" where
  "ready_push_front c = (\<lambda>(cs, tp).
     (let cs = cs(c := (cs c)\<lparr>c_next := th_ready_head tp\<rparr>);
          tp = tp\<lparr>th_ready_head := Some c\<rparr>;
          tp = (if th_ready_tail tp = None then tp\<lparr>th_ready_tail := Some c\<rparr> else tp)
      in (cs, tp)))"

definition ready_push_back :: "cptr \<Rightarrow> cstore \<times> thread_private \<Rightarrow> cstore \<times> thread_private" where
  "ready_push_back c = (\<lambda>(cs, tp).
     (let cs = cs(c := (cs c)\<lparr>c_next := None\<rparr>);
          (cs, tp) = (case th_ready_tail tp of
             Some t \<Rightarrow> (cs(t := (cs t)\<lparr>c_next := Some c\<rparr>), tp)
           | None \<Rightarrow> (cs, tp\<lparr>th_ready_head := Some c\<rparr>))
      in (cs, tp\<lparr>th_ready_tail := Some c\<rparr>)))"

section \<open>What the lists hold\<close>

definition ready_list :: "cstore \<times> thread_private \<Rightarrow> cptr list \<Rightarrow> bool" where
  "ready_list = (\<lambda>(cs, tp) rs.
     chain (\<lambda>c. c_next (cs c)) (th_ready_head tp) rs \<and>
     th_ready_tail tp = (if rs = [] then None else Some (last rs)))"

definition blocked_list :: "cstore \<times> thread_private \<Rightarrow> cptr list \<Rightarrow> bool" where
  "blocked_list = (\<lambda>(cs, tp) bs. chain (\<lambda>c. c_next_blocked (cs c)) (th_blocked tp) bs)"

lemma chain_field_upd [simp]:
  "c \<notin> set xs \<Longrightarrow> chain (\<lambda>x. f (if x = c then v else cs x)) p xs = chain (\<lambda>x. f (cs x)) p xs"
  by (rule chain_cong) auto

lemma ready_list_distinct: "ready_list st rs \<Longrightarrow> distinct rs"
  by (cases st) (auto simp: ready_list_def dest: chain_distinct)

lemma blocked_list_distinct: "blocked_list st bs \<Longrightarrow> distinct bs"
  by (cases st) (auto simp: blocked_list_def dest: chain_distinct)

lemma ready_list_unique: "ready_list st rs \<Longrightarrow> ready_list st rs' \<Longrightarrow> rs = rs'"
  by (cases st) (auto simp: ready_list_def dest: chain_functional)

lemma blocked_list_unique: "blocked_list st bs \<Longrightarrow> blocked_list st bs' \<Longrightarrow> bs = bs'"
  by (cases st) (auto simp: blocked_list_def dest: chain_functional)

lemma ready_push_front_list:
  assumes "ready_list st rs" and "c \<notin> set rs"
  shows "ready_list (ready_push_front c st) (c # rs)"
proof (cases st)
  case (Pair cs tp)
  with assms show ?thesis
    by (auto simp: ready_list_def ready_push_front_def Let_def)
qed

lemma ready_push_back_list:
  assumes "ready_list st rs" and "c \<notin> set rs"
  shows "ready_list (ready_push_back c st) (rs @ [c])"
proof (cases st)
  case (Pair cs tp)
  show ?thesis
  proof (cases rs rule: rev_cases)
    case Nil
    with assms Pair show ?thesis by (simp add: ready_list_def ready_push_back_def Let_def)
  next
    case (snoc rs' l)
    let ?n = "\<lambda>c. c_next (cs c)"
    have "chain (?n(c := None, l := Some c)) (th_ready_head tp) (rs' @ [l, c])"
      using assms snoc Pair by (intro chain_snoc) (auto simp: ready_list_def)
    moreover have "?n(c := None, l := Some c) =
        (\<lambda>x. c_next ((cs(c := (cs c)\<lparr>c_next := None\<rparr>, l := (cs l)\<lparr>c_next := Some c\<rparr>)) x))"
      by auto
    ultimately show ?thesis
      using assms snoc Pair by (auto simp: ready_list_def ready_push_back_def Let_def fun_upd_def)
  qed
qed

lemma ready_pop_front_list:
  assumes "ready_list st (c # rs)" and "ready_pop_front st = (r, st')"
  shows "r = Some c \<and> ready_list st' rs"
proof (cases st)
  case (Pair cs tp)
  with assms have "chain (\<lambda>x. c_next (cs x)) (c_next (cs c)) rs" by (simp add: ready_list_def)
  moreover from this have "c \<notin> set rs" by (rule chain_head_fresh)
  ultimately have "chain (\<lambda>x. c_next ((cs(c := (cs c)\<lparr>c_next := None\<rparr>)) x)) (c_next (cs c)) rs"
    by simp
  with assms Pair show ?thesis
    by (cases rs) (auto simp: ready_list_def ready_pop_front_def Let_def)
qed

lemma ready_pop_front_empty:
  "ready_list st [] \<Longrightarrow> ready_pop_front st = (None, st)"
  by (cases st) (auto simp: ready_list_def ready_pop_front_def)

lemma add_to_blocked_list:
  assumes "blocked_list st bs" and "c \<notin> set bs"
  shows "blocked_list (add_to_blocked c st) (c # bs)"
  using assms by (cases st) (auto simp: blocked_list_def add_to_blocked_def)

section \<open>The ready queue as a double-ended queue\<close>

locale ready_deque =
  fixes holds :: "'s \<Rightarrow> cptr list \<Rightarrow> bool"
    and push_front push_back :: "cptr \<Rightarrow> 's \<Rightarrow> 's"
    and pop_front :: "'s \<Rightarrow> cptr option \<times> 's"
  assumes holds_unique: "holds s rs \<Longrightarrow> holds s rs' \<Longrightarrow> rs = rs'"
    and holds_distinct: "holds s rs \<Longrightarrow> distinct rs"
    and push_front: "holds s rs \<Longrightarrow> c \<notin> set rs \<Longrightarrow> holds (push_front c s) (c # rs)"
    and push_back: "holds s rs \<Longrightarrow> c \<notin> set rs \<Longrightarrow> holds (push_back c s) (rs @ [c])"
    and pop_front: "holds s (c # rs) \<Longrightarrow> pop_front s = (r, s') \<Longrightarrow> r = Some c \<and> holds s' rs"
    and pop_front_empty: "holds s [] \<Longrightarrow> pop_front s = (None, s)"
begin

text \<open>One yield: take the front context, append the running one, run the front.\<close>

fun rotate_once :: "cptr \<times> 's \<Rightarrow> cptr \<times> 's" where
  "rotate_once (cur, s) = (case pop_front s of
     (None, s') \<Rightarrow> (cur, s') | (Some n, s') \<Rightarrow> (n, push_back cur s'))"

lemma rotate_once_holds:
  assumes "holds s rs" and "cur \<notin> set rs" and "rs \<noteq> []"
  shows "\<exists>s'. rotate_once (cur, s) = (hd rs, s') \<and> holds s' (tl rs @ [cur])"
proof -
  obtain c rs' where rs: "rs = c # rs'" using assms(3) by (cases rs) auto
  obtain r s' where pop: "pop_front s = (r, s')" by fastforce
  with assms(1) rs have "r = Some c" and s': "holds s' rs'" using pop_front by blast+
  with pop rs assms(2) push_back [OF s', of cur] show ?thesis by auto
qed

lemma rotate_holds:
  assumes "holds s rs" and "cur \<notin> set rs" and "rs \<noteq> []"
  shows "\<exists>cur' s'. (rotate_once ^^ k) (cur, s) = (cur', s') \<and>
           cur' \<notin> set (tl (rotate k (cur # rs))) \<and>
           cur' # tl (rotate k (cur # rs)) = rotate k (cur # rs) \<and>
           holds s' (tl (rotate k (cur # rs)))"
proof (induction k)
  case 0
  with assms show ?case by simp
next
  case (Suc k)
  let ?l = "rotate k (cur # rs)"
  from Suc obtain c s' where it: "(rotate_once ^^ k) (cur, s) = (c, s')"
    and c: "c \<notin> set (tl ?l)" and l: "c # tl ?l = ?l" and h: "holds s' (tl ?l)" by blast
  have ne: "tl ?l \<noteq> []" using l assms(3) by (metis length_Cons length_rotate length_0_conv
        list.size(3) nat.inject)
  from rotate_once_holds [OF h c ne] obtain s'' where
    "rotate_once (c, s') = (hd (tl ?l), s'')" and h': "holds s'' (tl (tl ?l) @ [c])" by blast
  moreover have "rotate (Suc k) (cur # rs) = tl ?l @ [c]"
    by (metis l list.distinct(1) list.sel(1) list.sel(3) rotate1.simps(2) rotate_Suc)
  moreover have "distinct (tl (tl ?l) @ [c])" using h' by (rule holds_distinct)
  moreover have "hd (tl ?l) \<notin> set (tl (tl ?l) @ [c])"
    using ne c holds_distinct [OF h] by (cases "tl ?l") auto
  ultimately show ?case using it ne by (cases "tl ?l") auto
qed

text \<open>After as many yields as there are contexts, the first one runs again.\<close>

lemma round_robin:
  assumes "holds s rs" and "cur \<notin> set rs" and "k < length (cur # rs)"
  shows "fst ((rotate_once ^^ k) (cur, s)) = (cur # rs) ! k"
    and "fst ((rotate_once ^^ length (cur # rs)) (cur, s)) = cur"
proof -
  have "fst ((rotate_once ^^ n) (cur, s)) = hd (rotate n (cur # rs))" for n
  proof (cases "rs = []")
    case True
    then have "(rotate_once ^^ n) (cur, s) = (cur, s)"
      using assms(1) pop_front_empty by (induction n) auto
    with True show ?thesis by (simp add: rotate_conv_mod hd_conv_nth)
  next
    case False
    from rotate_holds [OF assms(1,2) False, of n] show ?thesis
      by (metis fst_conv list.sel(1))
  qed
  note hd = this
  show "fst ((rotate_once ^^ k) (cur, s)) = (cur # rs) ! k"
    using assms(3) by (simp add: hd hd_rotate_conv_nth)
  have "rotate (length (cur # rs)) (cur # rs) = cur # rs" by (rule rotate_id) simp
  then show "fst ((rotate_once ^^ length (cur # rs)) (cur, s)) = cur" by (metis hd list.sel(1))
qed

end

interpretation rdq: ready_deque ready_list ready_push_front ready_push_back ready_pop_front
  by unfold_locales
    (blast intro: ready_list_unique ready_list_distinct ready_push_front_list ready_push_back_list
      ready_pop_front_empty dest: ready_pop_front_list)+

end
