(* ===== verification/CMT_Sched.thy ===== *)
theory CMT_Sched
  imports CMT_Thread
begin

text \<open>
  The operations of the cooperative scheduler, \<open>src/thread.cpp\<close>, on the state of the whole
  process: the stores of contexts, tasks and promises, and the scheduler state of every
  thread.  \<open>me\<close> is always the calling thread (\<open>thread::current()\<close>), and every clock reading
  is an argument.  An operation that switches fibers (\<open>jump_fcontext\<close>) is split at the switch:
  \<open>..._begin\<close> is what runs before it and leaves \<open>current\<close> on the context switched to,
  \<open>..._end\<close> is what runs when the fiber is switched back to.
\<close>

section \<open>The state of the process\<close>

record 'v sys =
  s_ctxs :: cstore
  s_tasks :: tstore
  s_proms :: "pptr \<Rightarrow> 'v promise"
  s_thrs :: "thid \<Rightarrow> thread_private"
  s_next_ctx :: cptr
  s_next_task :: tptr
  s_next_prom :: pptr
  s_task_count :: "64 word"

definition on_thread ::
  "thid \<Rightarrow> (cstore \<times> thread_private \<Rightarrow> cstore \<times> thread_private) \<Rightarrow> 'v sys \<Rightarrow> 'v sys" where
  "on_thread t f s =
     (let (cs, tp) = f (s_ctxs s, s_thrs s t) in s\<lparr>s_ctxs := cs, s_thrs := (s_thrs s)(t := tp)\<rparr>)"

definition upd_thread :: "thid \<Rightarrow> (thread_private \<Rightarrow> thread_private) \<Rightarrow> 'v sys \<Rightarrow> 'v sys" where
  "upd_thread t f s = s\<lparr>s_thrs := (s_thrs s)(t := f (s_thrs s t))\<rparr>"

definition upd_ctx :: "cptr \<Rightarrow> (cmt_context \<Rightarrow> cmt_context) \<Rightarrow> 'v sys \<Rightarrow> 'v sys" where
  "upd_ctx c f s = s\<lparr>s_ctxs := (s_ctxs s)(c := f (s_ctxs s c))\<rparr>"

definition upd_prom :: "pptr \<Rightarrow> ('v promise \<Rightarrow> 'v promise) \<Rightarrow> 'v sys \<Rightarrow> 'v sys" where
  "upd_prom p f s = s\<lparr>s_proms := (s_proms s)(p := f (s_proms s p))\<rparr>"

text \<open>\<open>new cmt_context(...)\<close>.\<close>

definition new_context :: "bool \<Rightarrow> 'v sys \<Rightarrow> cptr \<times> 'v sys" where
  "new_context sf s =
     (s_next_ctx s, s\<lparr>s_ctxs := (s_ctxs s)(s_next_ctx s := make_context sf),
                       s_next_ctx := Suc (s_next_ctx s)\<rparr>)"

text \<open>\<open>new vtask(...)\<close> and \<open>new rtask<T>(...)\<close>; the latter's constructor calls \<open>set_task\<close>.\<close>

definition new_task ::
  "task_kind \<Rightarrow> priority \<Rightarrow> time_point \<Rightarrow> string \<Rightarrow> 'v sys \<Rightarrow> tptr \<times> 'v sys" where
  "new_task k pr w n s =
     (let (tk, cnt) = make_task k pr w n (s_task_count s); t = s_next_task s;
          s = s\<lparr>s_tasks := (s_tasks s)(t := tk), s_next_task := Suc t, s_task_count := cnt\<rparr>
      in (t, case k of Rtask _ p \<Rightarrow> upd_prom p (set_task (Some t)) s | Vtask _ \<Rightarrow> s))"

definition new_promise :: "'v sys \<Rightarrow> pptr \<times> 'v sys" where
  "new_promise s =
     (s_next_prom s, s\<lparr>s_proms := (s_proms s)(s_next_prom s := make_promise),
                        s_next_prom := Suc (s_next_prom s)\<rparr>)"

section \<open>Posting tasks\<close>

text \<open>
  \<open>thread::async( const task::ptr& )\<close>: the compare-exchange loop leaves the task at the head of
  the target's intake list, in front of what was there (the interleavings of the loop are the
  subject of the intake theory).
\<close>

definition async_task :: "thid \<Rightarrow> tptr \<Rightarrow> 'v sys \<Rightarrow> 'v sys" where
  "async_task t k s =
     (let s = s\<lparr>s_tasks := (s_tasks s)(k := (s_tasks s k)\<lparr>tk_next := th_task_in_queue (s_thrs s t)\<rparr>)\<rparr>
      in upd_thread t (\<lambda>tp. tp\<lparr>th_task_in_queue := Some k\<rparr>) s)"

text \<open>\<open>thread::async( const boost::function<void()>&, priority )\<close>: post a \<open>vtask\<close>.\<close>

definition async_void :: "thid \<Rightarrow> task_functor \<Rightarrow> priority \<Rightarrow> 'v sys \<Rightarrow> 'v sys" where
  "async_void t f pr s = (let (k, s) = new_task (Vtask f) pr time_min [] s in async_task t k s)"

definition current_priority :: "thid \<Rightarrow> 'v sys \<Rightarrow> priority" where
  "current_priority t s =
     (case th_current (s_thrs s t) of Some c \<Rightarrow> c_prio (s_ctxs s c) | None \<Rightarrow> default_priority)"

text \<open>
  \<open>thread::schedule\<close> and \<open>thread::async<T>\<close> of \<open>thread.hpp\<close>: a fresh promise, a task bound to it
  with at least the caller's priority, posted to the target.  \<open>current_priority()\<close> inside the
  member function is that of the target thread.
\<close>

definition schedule_result ::
  "thid \<Rightarrow> task_functor \<Rightarrow> time_point \<Rightarrow> priority \<Rightarrow> string \<Rightarrow> 'v sys \<Rightarrow> pptr \<times> 'v sys" where
  "schedule_result t f w pr n s =
     (let (p, s) = new_promise s;
          (k, s) = new_task (Rtask f p) (std_max (current_priority t s) pr) w n s
      in (p, async_task t k s))"

definition schedule_void ::
  "thid \<Rightarrow> task_functor \<Rightarrow> time_point \<Rightarrow> priority \<Rightarrow> string \<Rightarrow> 'v sys \<Rightarrow> 'v sys" where
  "schedule_void t f w pr n s =
     (let (k, s) = new_task (Vtask f) (std_max (current_priority t s) pr) w n s
      in async_task t k s)"

definition async_result ::
  "thid \<Rightarrow> task_functor \<Rightarrow> priority \<Rightarrow> string \<Rightarrow> 'v sys \<Rightarrow> pptr \<times> 'v sys" where
  "async_result t f pr n s =
     (let (p, s) = new_promise s;
          (k, s) = new_task (Rtask f p) (std_max (current_priority t s) pr) time_min n s
      in (p, async_task t k s))"

section \<open>The task queues of a thread\<close>

text \<open>
  \<open>enqueue\<close>: walk the intake list, each task going to the heap of scheduled tasks when its
  time is in the future and to the heap of runnable ones otherwise.
\<close>

fun enqueue :: "nat \<Rightarrow> time_point \<Rightarrow> tstore \<Rightarrow> tptr option \<Rightarrow> thread_private
    \<Rightarrow> fault + thread_private" where
  "enqueue fuel now ts None tp = Inr tp"
| "enqueue 0 now ts (Some cur) tp = Inl Out_Of_Fuel"
| "enqueue (Suc fuel) now ts (Some cur) tp =
     (let tp = (if tk_when (ts cur) > now
                then tp\<lparr>th_task_sch_queue :=
                          push_heap (task_when_less ts) (th_task_sch_queue tp @ [cur])\<rparr>
                else tp\<lparr>th_task_pqueue :=
                          push_heap (task_priority_less ts) (th_task_pqueue tp @ [cur])\<rparr>)
      in enqueue fuel now ts (tk_next (ts cur)) tp)"

text \<open>
  \<open>dequeue\<close>: take the whole intake list, sort it into the heaps (\<open>now1\<close>), then give the front of
  the scheduled heap if its time has come (\<open>now2\<close>), else the front of the runnable heap.
\<close>

definition dequeue :: "nat \<Rightarrow> time_point \<Rightarrow> time_point \<Rightarrow> tstore \<Rightarrow> thread_private
    \<Rightarrow> fault + (tptr option \<times> thread_private)" where
  "dequeue fuel now1 now2 ts tp =
     (let pending = th_task_in_queue tp; tp = tp\<lparr>th_task_in_queue := None\<rparr> in
      case (case pending of None \<Rightarrow> Inr tp | Some k \<Rightarrow> enqueue fuel now1 ts (Some k) tp) of
        Inl f \<Rightarrow> Inl f
      | Inr tp \<Rightarrow>
          (if th_task_sch_queue tp \<noteq> [] \<and> tk_when (ts (hd (th_task_sch_queue tp))) \<le> now2
           then Inr (Some (hd (th_task_sch_queue tp)),
                     tp\<lparr>th_task_sch_queue :=
                          butlast (pop_heap (task_when_less ts) (th_task_sch_queue tp))\<rparr>)
           else if th_task_pqueue tp \<noteq> []
           then Inr (Some (hd (th_task_pqueue tp)),
                     tp\<lparr>th_task_pqueue :=
                          butlast (pop_heap (task_priority_less ts) (th_task_pqueue tp))\<rparr>)
           else Inr (None, tp)))"

section \<open>Waking\<close>

text \<open>
  The first loop of \<open>thread::notify\<close>: walk the blocked list; a context that waits for the
  promise is unlinked, its \<open>next_blocked\<close> cleared, it goes to the front of the ready queue,
  and the walk goes on from the (cleared) \<open>next_blocked\<close>.
\<close>

fun unblock_loop :: "nat \<Rightarrow> pptr \<Rightarrow> cptr option \<Rightarrow> cptr option \<Rightarrow> cstore \<times> thread_private
    \<Rightarrow> fault + (cstore \<times> thread_private)" where
  "unblock_loop fuel p None prev st = Inr st"
| "unblock_loop 0 p (Some cur) prev st = Inl Out_Of_Fuel"
| "unblock_loop (Suc fuel) p (Some cur) prev (cs, tp) =
     (if try_unblock p (cs cur) then
        (let (cs, tp) = (case prev of
               Some b \<Rightarrow> (cs(b := (cs b)\<lparr>c_next_blocked := c_next_blocked (cs cur)\<rparr>), tp)
             | None \<Rightarrow> (cs, tp\<lparr>th_blocked := c_next_blocked (cs cur)\<rparr>));
             cs = cs(cur := (cs cur)\<lparr>c_next_blocked := None\<rparr>);
             (cs, tp) = ready_push_front cur (cs, tp)
         in unblock_loop fuel p (c_next_blocked (cs cur)) prev (cs, tp))
      else unblock_loop fuel p (c_next_blocked (cs cur)) (Some cur) (cs, tp))"

text \<open>
  The second loop: the first sleeper that waits for the promise loses its \<open>prom\<close>, is
  overwritten by the last element of the vector, and the vector is made a heap again.
\<close>

function unsleep_loop :: "pptr \<Rightarrow> nat \<Rightarrow> cstore \<Rightarrow> cptr list \<Rightarrow> cstore \<times> cptr list" where
  "unsleep_loop p i cs q =
     (if i < length q then
        if c_prom (cs (q ! i)) = Some p then
          (let cs = cs(q ! i := (cs (q ! i))\<lparr>c_prom := None\<rparr>)
           in (cs, make_heap (sleep_priority_less cs) (butlast (q[i := last q]))))
        else unsleep_loop p (Suc i) cs q
      else (cs, q))"
  by pat_completeness auto
termination
  by (relation "measure (\<lambda>(p, i, cs, q). length q - i)") auto

declare unsleep_loop.simps [simp del]

text \<open>\<open>thread::notify\<close>; called on another thread it posts itself there.\<close>

definition thread_notify :: "thid \<Rightarrow> thid \<Rightarrow> pptr \<Rightarrow> 'v sys \<Rightarrow> fault + 'v sys" where
  "thread_notify me t p s =
     (if \<not> promise_ready (s_proms s p) then Inl Assert_Failed
      else if me \<noteq> t then Inr (async_void t (Notify_Fun t p) default_priority s)
      else case unblock_loop (s_next_ctx s) p (th_blocked (s_thrs s t)) None (s_ctxs s, s_thrs s t) of
             Inl f \<Rightarrow> Inl f
           | Inr (cs, tp) \<Rightarrow>
               (let (cs, q) = unsleep_loop p 0 cs (th_sleep_pqueue tp)
                in Inr (s\<lparr>s_ctxs := cs, s_thrs := (s_thrs s)(t := tp\<lparr>th_sleep_pqueue := q\<rparr>)\<rparr>)))"

text \<open>\<open>promise_base::notify\<close>.\<close>

definition promise_notify :: "thid \<Rightarrow> pptr \<Rightarrow> 'v sys \<Rightarrow> fault + 'v sys" where
  "promise_notify me p s =
     (if \<not> promise_ready (s_proms s p) then Inl Assert_Failed
      else case m_blocked_thread (s_proms s p) of
             Some t \<Rightarrow> thread_notify me t p s
           | None \<Rightarrow> Inr s)"

definition set_exception :: "thid \<Rightarrow> pptr \<Rightarrow> exn \<Rightarrow> 'v sys \<Rightarrow> fault + 'v sys" where
  "set_exception me p e s =
     (let (pr, ntf) = store_exception e (s_proms s p); s = upd_prom p (\<lambda>_. pr) s
      in if ntf then promise_notify me p s else Inr s)"

definition set_value :: "thid \<Rightarrow> pptr \<Rightarrow> 'v \<Rightarrow> 'v sys \<Rightarrow> fault + 'v sys" where
  "set_value me p v s =
     (let (pr, ntf) = store_value v (s_proms s p); s = upd_prom p (\<lambda>_. pr) s
      in if ntf then promise_notify me p s else Inr s)"

definition set_timeout :: "thid \<Rightarrow> pptr \<Rightarrow> 'v sys \<Rightarrow> fault + 'v sys" where
  "set_timeout me p s =
     (let (pr, ntf) = store_timeout (s_proms s p); s = upd_prom p (\<lambda>_. pr) s
      in if ntf then promise_notify me p s else Inr s)"

text \<open>\<open>promise_base::cancel\<close>.\<close>

definition promise_cancel :: "pptr \<Rightarrow> 'v sys \<Rightarrow> 'v sys" where
  "promise_cancel p s =
     (case m_task (s_proms s p) of
        None \<Rightarrow> s
      | Some t \<Rightarrow> (let (ts, cs) = task_cancel t (s_tasks s) (s_ctxs s)
                   in s\<lparr>s_tasks := ts, s_ctxs := cs\<rparr>))"

section \<open>Timeouts\<close>

text \<open>
  The loop of \<open>check_for_timeouts\<close>: expired sleepers leave the heap; one that waits for a
  promise gets a timeout exception there (which wakes it), one that just sleeps goes to the
  back of the ready queue.  Every round shortens the heap, so its length is enough fuel.
\<close>

fun expire_loop :: "nat \<Rightarrow> thid \<Rightarrow> time_point \<Rightarrow> 'v sys \<Rightarrow> fault + 'v sys" where
  "expire_loop fuel me now s =
     (case th_sleep_pqueue (s_thrs s me) of
        [] \<Rightarrow> Inr s
      | c # q \<Rightarrow>
          if now \<ge> c_resume_time (s_ctxs s c) then
            (case fuel of
               0 \<Rightarrow> Inl Out_Of_Fuel
             | Suc fuel \<Rightarrow>
                 (let s = upd_thread me (\<lambda>tp. tp\<lparr>th_sleep_pqueue :=
                            butlast (pop_heap (sleep_priority_less (s_ctxs s)) (c # q))\<rparr>) s
                  in case c_prom (s_ctxs s c) of
                       Some p \<Rightarrow>
                         (case set_exception me p (Future_Error Future_Wait_Timeout) s of
                            Inl f \<Rightarrow> Inl f
                          | Inr s \<Rightarrow> expire_loop fuel me now s)
                     | None \<Rightarrow> expire_loop fuel me now (on_thread me (ready_push_back c) s)))
          else Inr s)"

declare expire_loop.simps [simp del]

definition next_timeout :: "thid \<Rightarrow> 'v sys \<Rightarrow> time_point" where
  "next_timeout me s =
     (let tp = s_thrs s me; nxt = time_max;
          nxt = (if th_task_sch_queue tp \<noteq> [] \<and>
                    nxt > tk_when (s_tasks s (hd (th_task_sch_queue tp)))
                 then tk_when (s_tasks s (hd (th_task_sch_queue tp))) else nxt);
          nxt = (if th_sleep_pqueue tp \<noteq> [] \<and>
                    nxt > c_resume_time (s_ctxs s (hd (th_sleep_pqueue tp)))
                 then c_resume_time (s_ctxs s (hd (th_sleep_pqueue tp))) else nxt)
      in nxt)"

definition check_for_timeouts :: "thid \<Rightarrow> time_point \<Rightarrow> 'v sys \<Rightarrow> fault + (time_point \<times> 'v sys)" where
  "check_for_timeouts me now s =
     (if th_sleep_pqueue (s_thrs s me) = [] \<and> th_task_sch_queue (s_thrs s me) = []
      then Inr (time_max, s)
      else if now < next_timeout me s then Inr (next_timeout me s, s)
      else case expire_loop (length (th_sleep_pqueue (s_thrs s me))) me now s of
             Inl f \<Rightarrow> Inl f
           | Inr s \<Rightarrow> Inr (time_min, s))"

end
