(* ===== verification/CMT_Fiber.thy ===== *)
theory CMT_Fiber
  imports CMT_Sched
begin

text \<open>
  The part of \<open>src/thread.cpp\<close> that switches fibers: \<open>start_next_task\<close> and the blocking calls
  built on it (\<open>sleep_until\<close>, \<open>usleep\<close>, \<open>wait\<close>, \<open>yield\<close>), the blocking calls of
  \<open>future.hpp\<close> on top of those, \<open>quit\<close>, and the task loop \<open>process_tasks\<close> cut at its
  blocking points.
\<close>

section \<open>Switching\<close>

definition set_current :: "thid \<Rightarrow> cptr \<Rightarrow> 'v sys \<Rightarrow> 'v sys" where
  "set_current me c s = upd_thread me (\<lambda>tp. tp\<lparr>th_current := Some c\<rparr>) s"

text \<open>\<open>if( !current ) current = new cmt_context();\<close>\<close>

definition ensure_current :: "thid \<Rightarrow> 'v sys \<Rightarrow> cptr \<times> 'v sys" where
  "ensure_current me s =
     (case th_current (s_thrs s me) of
        Some c \<Rightarrow> (c, s)
      | None \<Rightarrow> (let (c, s) = new_context False s in (c, set_current me c s)))"

text \<open>
  \<open>start_next_task\<close> up to the jump.  The result names the context that is left; the context
  that is entered is the new \<open>current\<close>.
\<close>

definition start_next_task_begin ::
  "thid \<Rightarrow> bool \<Rightarrow> time_point \<Rightarrow> 'v sys \<Rightarrow> fault + (cptr \<times> 'v sys)" where
  "start_next_task_begin me reschedule now s =
     (case check_for_timeouts me now s of
        Inl f \<Rightarrow> Inl f
      | Inr (_, s) \<Rightarrow>
          (let (cur, s) = ensure_current me s in
           case ready_pop_front (s_ctxs s, s_thrs s me) of
             (Some nxt, cs, tp) \<Rightarrow>
               (let s = s\<lparr>s_ctxs := cs, s_thrs := (s_thrs s)(me := tp)\<rparr> in
                if nxt = cur then Inl Assert_Failed
                else (let s = (if reschedule then on_thread me (ready_push_back cur) s else s)
                      in Inr (cur, set_current me nxt s)))
           | (None, _, _) \<Rightarrow>
               (let s = (if reschedule then on_thread me (ready_push_back cur) s else s);
                    (nxt, s) = new_context True s
                in Inr (cur, set_current me nxt s))))"

text \<open>
  \<open>start_next_task\<close> after the jump back into the context \<open>self\<close>: \<open>current = prev\<close>, and
  cancellation is raised.
\<close>

definition start_next_task_end :: "thid \<Rightarrow> cptr \<Rightarrow> 'v sys \<Rightarrow> exn option \<times> 'v sys" where
  "start_next_task_end me self s =
     (let s = set_current me self s in
      (if c_canceled (s_ctxs s self) then Some (Future_Error Task_Canceled) else None, s))"

section \<open>Blocking calls of the thread\<close>

text \<open>How the first half of a blocking call ends: it returned, threw, or switched away.\<close>

datatype call = Returned | Threw exn | Switched cptr

text \<open>\<open>v.push_back(c); std::push_heap(...)\<close> on the vector of sleepers.\<close>

definition sleep_push :: "thid \<Rightarrow> cptr \<Rightarrow> 'v sys \<Rightarrow> 'v sys" where
  "sleep_push me c s =
     upd_thread me (\<lambda>tp. tp\<lparr>th_sleep_pqueue :=
       push_heap (sleep_priority_less (s_ctxs s)) (th_sleep_pqueue tp @ [c])\<rparr>) s"

definition sleep_until_begin :: "thid \<Rightarrow> time_point \<Rightarrow> time_point \<Rightarrow> 'v sys \<Rightarrow> fault + (call \<times> 'v sys)" where
  "sleep_until_begin me tm now s =
     (if th_done (s_thrs s me) then Inr (Threw (Future_Error Thread_Quit), s)
      else
        (let (cur, s) = ensure_current me s;
             s = upd_ctx cur (\<lambda>c. c\<lparr>c_resume_time := tm\<rparr>) s;
             s = upd_ctx cur clear_blocking_promises s;
             s = sleep_push me cur s
         in case start_next_task_begin me False now s of
              Inl f \<Rightarrow> Inl f
            | Inr (prev, s) \<Rightarrow> Inr (Switched prev, s)))"

definition sleep_until_end :: "thid \<Rightarrow> cptr \<Rightarrow> 'v sys \<Rightarrow> exn option \<times> 'v sys" where
  "sleep_until_end me self s =
     (case start_next_task_end me self s of
        (Some e, s) \<Rightarrow> (Some e, s)
      | (None, s) \<Rightarrow>
          (let s = upd_ctx self (\<lambda>c. c\<lparr>c_resume_time := time_max\<rparr>) s in
           (if c_canceled (s_ctxs s self) then Some (Future_Error Task_Canceled) else None, s)))"

text \<open>
  A number of microseconds as a signed 64-bit count of clock ticks (nanoseconds), and the sum
  \<open>system_clock::now() + us\<close>.
\<close>

definition us_ticks :: "int \<Rightarrow> int" where
  "us_ticks us = wrap64 (us * 1000)"

definition after_us :: "time_point \<Rightarrow> int \<Rightarrow> time_point" where
  "after_us now us = wrap64 (now + us_ticks us)"

text \<open>\<open>usleep\<close> takes an unsigned 64-bit count, converted to the signed representation.\<close>

definition usleep_begin ::
  "thid \<Rightarrow> 64 word \<Rightarrow> time_point \<Rightarrow> time_point \<Rightarrow> 'v sys \<Rightarrow> fault + (call \<times> 'v sys)" where
  "usleep_begin me us now1 now2 s = sleep_until_begin me (after_us now1 (sint us)) now2 s"

definition thread_wait_begin ::
  "thid \<Rightarrow> pptr \<Rightarrow> time_point \<Rightarrow> time_point \<Rightarrow> time_point \<Rightarrow> 'v sys \<Rightarrow> fault + (call \<times> 'v sys)" where
  "thread_wait_begin me p timeout now1 now2 s =
     (if promise_ready (s_proms s p) then Inr (Returned, s)
      else if timeout < now1 then Inr (Threw (Future_Error Future_Wait_Timeout), s)
      else
        (let (cur, s) = ensure_current me s;
             s = upd_ctx cur (add_blocking_promise p) s;
             s = (if timeout \<noteq> time_max
                  then sleep_push me cur (upd_ctx cur (\<lambda>c. c\<lparr>c_resume_time := timeout\<rparr>) s)
                  else s);
             s = on_thread me (add_to_blocked cur) s
         in case start_next_task_begin me False now2 s of
              Inl f \<Rightarrow> Inl f
            | Inr (prev, s) \<Rightarrow> Inr (Switched prev, s)))"

definition thread_wait_end :: "thid \<Rightarrow> cptr \<Rightarrow> pptr \<Rightarrow> 'v sys \<Rightarrow> exn option \<times> 'v sys" where
  "thread_wait_end me self p s =
     (case start_next_task_end me self s of
        (Some e, s) \<Rightarrow> (Some e, s)
      | (None, s) \<Rightarrow>
          (let s = upd_ctx self (remove_blocking_promise p) s in
           (if c_canceled (s_ctxs s self) then Some (Future_Error Task_Canceled) else None, s)))"

text \<open>\<open>microseconds::max()\<close> means no timeout.\<close>

definition timeout_point :: "int \<Rightarrow> time_point \<Rightarrow> time_point" where
  "timeout_point us now = (if us = time_max then time_max else after_us now us)"

definition thread_wait_us_begin ::
  "thid \<Rightarrow> pptr \<Rightarrow> int \<Rightarrow> time_point \<Rightarrow> time_point \<Rightarrow> time_point \<Rightarrow> 'v sys \<Rightarrow> fault + (call \<times> 'v sys)" where
  "thread_wait_us_begin me p us now0 now1 now2 s =
     thread_wait_begin me p (timeout_point us now0) now1 now2 s"

definition yield_begin :: "thid \<Rightarrow> time_point \<Rightarrow> 'v sys \<Rightarrow> fault + (cptr \<times> 'v sys)" where
  "yield_begin me now s = start_next_task_begin me True now s"

section \<open>Waiting for a promise\<close>

text \<open>\<open>promise<T>::wait\<close> and \<open>wait_until\<close>, up to the switch; \<open>Inr v\<close> is a value returned at once.\<close>

definition promise_wait_begin ::
  "thid \<Rightarrow> pptr \<Rightarrow> time_point \<Rightarrow> time_point \<Rightarrow> time_point \<Rightarrow> 'v sys
     \<Rightarrow> fault + ((call + 'v) \<times> 'v sys)" where
  "promise_wait_begin me p timeout now1 now2 s =
     (let (r, pr) = wait_check me (s_proms s p); s = upd_prom p (\<lambda>_. pr) s in
      case r of
        Rethrow e \<Rightarrow> Inr (Inl (Threw e), s)
      | Have v \<Rightarrow> Inr (Inr v, s)
      | Must_Block \<Rightarrow>
          (case thread_wait_begin me p timeout now1 now2 s of
             Inl f \<Rightarrow> Inl f
           | Inr (c, s) \<Rightarrow> Inr (Inl c, s)))"

text \<open>The same calls after the fiber is switched back to.\<close>

definition promise_wait_end :: "thid \<Rightarrow> cptr \<Rightarrow> pptr \<Rightarrow> 'v sys \<Rightarrow> (exn + 'v) \<times> 'v sys" where
  "promise_wait_end me self p s =
     (case thread_wait_end me self p s of
        (Some e, s) \<Rightarrow> (Inl e, s)
      | (None, s) \<Rightarrow>
          (let (r, pr) = wait_finish (s_proms s p) in (r, upd_prom p (\<lambda>_. pr) s)))"

text \<open>\<open>future<T>\<close>: a possibly null pointer to a promise.\<close>

definition future_valid :: "pptr option \<Rightarrow> bool" where
  "future_valid f = (f \<noteq> None)"

definition future_ready :: "pptr option \<Rightarrow> 'v sys \<Rightarrow> fault + bool" where
  "future_ready f s =
     (case f of None \<Rightarrow> Inl Null_Deref | Some p \<Rightarrow> Inr (promise_ready (s_proms s p)))"

definition future_error :: "pptr option \<Rightarrow> 'v sys \<Rightarrow> bool" where
  "future_error f s =
     (case f of None \<Rightarrow> False | Some p \<Rightarrow> promise_error (s_proms s p))"

definition future_cancel :: "pptr option \<Rightarrow> 'v sys \<Rightarrow> 'v sys" where
  "future_cancel f s =
     (case f of
        None \<Rightarrow> s
      | Some p \<Rightarrow> if promise_ready (s_proms s p) then s else promise_cancel p s)"

definition future_wait_begin ::
  "thid \<Rightarrow> pptr option \<Rightarrow> time_point \<Rightarrow> time_point \<Rightarrow> time_point \<Rightarrow> 'v sys
     \<Rightarrow> fault + ((call + 'v) \<times> 'v sys)" where
  "future_wait_begin me f timeout now1 now2 s =
     (case f of
        None \<Rightarrow> Inr (Inl (Threw (Future_Error Null_Future)), s)
      | Some p \<Rightarrow> promise_wait_begin me p timeout now1 now2 s)"

section \<open>Quitting\<close>

text \<open>
  The first loop of \<open>quit\<close>, from the head of the blocked list but along \<open>next\<close>: the promise of
  each context visited gets a \<open>thread_quit\<close> exception.
\<close>

fun quit_blocked :: "nat \<Rightarrow> thid \<Rightarrow> cptr option \<Rightarrow> 'v sys \<Rightarrow> fault + 'v sys" where
  "quit_blocked fuel me None s = Inr s"
| "quit_blocked 0 me (Some cur) s = Inl Out_Of_Fuel"
| "quit_blocked (Suc fuel) me (Some cur) s =
     (case c_prom (s_ctxs s cur) of
        None \<Rightarrow> Inl Null_Deref
      | Some p \<Rightarrow>
          (case set_exception me p (Future_Error Thread_Quit) s of
             Inl f \<Rightarrow> Inl f
           | Inr s \<Rightarrow> quit_blocked fuel me (c_next (s_ctxs s cur)) s))"

text \<open>The second loop: every ready context is marked cancelled.\<close>

fun cancel_ready :: "nat \<Rightarrow> cptr option \<Rightarrow> cstore \<Rightarrow> fault + cstore" where
  "cancel_ready fuel None cs = Inr cs"
| "cancel_ready 0 (Some cur) cs = Inl Out_Of_Fuel"
| "cancel_ready (Suc fuel) (Some cur) cs =
     cancel_ready fuel (c_next (cs cur)) (cs(cur := (cs cur)\<lparr>c_canceled := True\<rparr>))"

text \<open>The third loop: every sleeper is cancelled and pushed to the front of the ready queue.\<close>

definition cancel_sleepers :: "cptr list \<Rightarrow> cstore \<times> thread_private \<Rightarrow> cstore \<times> thread_private" where
  "cancel_sleepers q st =
     fold (\<lambda>c (cs, tp). ready_push_front c (cs(c := (cs c)\<lparr>c_canceled := True\<rparr>), tp)) q st"

definition quit_here :: "thid \<Rightarrow> 'v sys \<Rightarrow> fault + 'v sys" where
  "quit_here me s =
     (case quit_blocked (Suc (s_next_ctx s)) me (th_blocked (s_thrs s me)) s of
        Inl f \<Rightarrow> Inl f
      | Inr s \<Rightarrow>
          (case cancel_ready (Suc (s_next_ctx s)) (th_ready_head (s_thrs s me)) (s_ctxs s) of
             Inl f \<Rightarrow> Inl f
           | Inr cs \<Rightarrow>
               (let s = s\<lparr>s_ctxs := cs\<rparr>;
                    s = on_thread me (cancel_sleepers (th_sleep_pqueue (s_thrs s me))) s
                in Inr (upd_thread me (\<lambda>tp. tp\<lparr>th_sleep_pqueue := [], th_done := True\<rparr>) s))))"

text \<open>
  \<open>thread::quit\<close>: on another thread it posts itself there and returns the future that the
  caller goes on to wait for (and, after that, to join the thread).
\<close>

definition thread_quit :: "thid \<Rightarrow> thid \<Rightarrow> 'v sys \<Rightarrow> fault + (pptr option \<times> 'v sys)" where
  "thread_quit me t s =
     (if me \<noteq> t
      then (let (p, s) = async_result t (Quit_Fun t) default_priority [] s in Inr (Some p, s))
      else (case quit_here me s of Inl f \<Rightarrow> Inl f | Inr s \<Rightarrow> Inr (None, s)))"

section \<open>Observers\<close>

definition is_running :: "thid \<Rightarrow> 'v sys \<Rightarrow> bool" where
  "is_running t s = (th_current (s_thrs s t) \<noteq> None)"

definition set_name :: "thid \<Rightarrow> string \<Rightarrow> 'v sys \<Rightarrow> 'v sys" where
  "set_name t n s = upd_thread t (\<lambda>tp. tp\<lparr>th_name := n\<rparr>) s"

definition thread_name :: "thid \<Rightarrow> 'v sys \<Rightarrow> string" where
  "thread_name t s = th_name (s_thrs s t)"

definition set_boost_thread :: "thid \<Rightarrow> 'v sys \<Rightarrow> 'v sys" where
  "set_boost_thread t s = upd_thread t (\<lambda>tp. tp\<lparr>th_boost_thread := True\<rparr>) s"

end
