(* ===== verification/CMT_Sched_Inv.thy ===== *)
theory CMT_Sched_Inv
  imports CMT_Sched
begin

text \<open>
  The invariant that ties the ready queue, the blocked list and the heap of sleepers of one
  thread together, and what waking (\<open>thread::notify\<close>), delivering a result
  (\<open>set_value\<close>, \<open>set_exception\<close>) and expiring timeouts (\<open>check_for_timeouts\<close>) do to them.
\<close>

section \<open>Vectors\<close>

lemma mset_overwrite_last:
  assumes "k < length q"
  shows "mset (butlast (q[k := last q])) = mset q - {#q ! k#}"
proof -
  let ?r = "q[k := last q]"
  have ne: "q \<noteq> []" "?r \<noteq> []" using assms by auto
  have "last ?r = last q" using assms ne by (auto simp: last_conv_nth nth_list_update)
  then have "mset (butlast ?r) + {#last q#} = mset ?r"
    using ne(2) by (metis append_butlast_last_id mset_append mset_single_iff_right)
  also have "\<dots> = (mset q - {#q ! k#}) + {#last q#}" using assms by (simp add: mset_update)
  finally show ?thesis by simp
qed

section \<open>The blocked list under the first loop of notify\<close>

text \<open>What the loop does to the context it finds, \<open>prev\<close> being its predecessor.\<close>

definition unlink_blocked ::
  "cptr option \<Rightarrow> cptr \<Rightarrow> cstore \<times> thread_private \<Rightarrow> cstore \<times> thread_private" where
  "unlink_blocked prev cur = (\<lambda>(cs, tp).
     (let (cs, tp) = (case prev of
            Some b \<Rightarrow> (cs(b := (cs b)\<lparr>c_next_blocked := c_next_blocked (cs cur)\<rparr>), tp)
          | None \<Rightarrow> (cs, tp\<lparr>th_blocked := c_next_blocked (cs cur)\<rparr>));
          cs = cs(cur := (cs cur)\<lparr>c_next_blocked := None\<rparr>)
      in ready_push_front cur (cs, tp)))"

lemma unblock_loop_none:
  "chain (\<lambda>c. c_next_blocked (cs c)) cur ys \<Longrightarrow> \<forall>c \<in> set ys. c_prom (cs c) \<noteq> Some p \<Longrightarrow>
   length ys \<le> fuel \<Longrightarrow> unblock_loop fuel p cur prev (cs, tp) = Inr (cs, tp)"
proof (induction ys arbitrary: fuel cur prev)
  case (Cons y ys)
  then obtain f where "fuel = Suc f" by (cases fuel) auto
  with Cons show ?case by (auto simp: try_unblock_def)
qed simp

lemma unlink_blocked_next [simp]:
  "unlink_blocked prev y st = (cs', tp') \<Longrightarrow> c_next_blocked (cs' y) = None"
  by (cases st) (auto simp: unlink_blocked_def ready_push_front_def Let_def split: option.splits)

lemma unblock_loop_found:
  assumes "c_prom (cs y) = Some p"
  shows "unblock_loop (Suc fuel) p (Some y) prev (cs, tp) = Inr (unlink_blocked prev y (cs, tp))"
proof -
  obtain cs' tp' where u: "unlink_blocked prev y (cs, tp) = (cs', tp')" by fastforce
  have "unblock_loop (Suc fuel) p (Some y) prev (cs, tp) =
      unblock_loop fuel p (c_next_blocked (cs' y)) prev (cs', tp')"
    using assms u
    by (cases prev) (simp_all add: try_unblock_def unlink_blocked_def Let_def split: prod.splits)
  with u show ?thesis by simp
qed

lemma unblock_loop_hit:
  "chain (\<lambda>c. c_next_blocked (cs c)) cur (as @ y # ys) \<Longrightarrow>
   \<forall>c \<in> set as. c_prom (cs c) \<noteq> Some p \<Longrightarrow> c_prom (cs y) = Some p \<Longrightarrow> length as < fuel \<Longrightarrow>
   unblock_loop fuel p cur prev (cs, tp) =
     Inr (unlink_blocked (if as = [] then prev else Some (last as)) y (cs, tp))"
proof (induction as arbitrary: fuel cur prev)
  case Nil
  then obtain f where "fuel = Suc f" by (cases fuel) auto
  with Nil show ?case by (simp add: unblock_loop_found del: unblock_loop.simps)
next
  case (Cons a as)
  then obtain f where "fuel = Suc f" by (cases fuel) auto
  with Cons show ?case by (auto simp: try_unblock_def)
qed

text \<open>The fields the list operations do not write.\<close>

lemma ready_push_front_fields [cmt_frame]:
  assumes "ready_push_front c (cs, tp) = (cs', tp')"
  shows "c_prom (cs' x) = c_prom (cs x)" "c_resume_time (cs' x) = c_resume_time (cs x)"
    "c_canceled (cs' x) = c_canceled (cs x)" "c_prio (cs' x) = c_prio (cs x)"
    "c_next_blocked (cs' x) = c_next_blocked (cs x)" "x \<noteq> c \<Longrightarrow> cs' x = cs x"
    "\<exists>h t. tp' = tp\<lparr>th_ready_head := h, th_ready_tail := t\<rparr>"
proof -
  have cs': "cs' = cs(c := (cs c)\<lparr>c_next := th_ready_head tp\<rparr>)"
    using assms by (simp add: ready_push_front_def Let_def)
  then show "c_prom (cs' x) = c_prom (cs x)" "c_resume_time (cs' x) = c_resume_time (cs x)"
    "c_canceled (cs' x) = c_canceled (cs x)" "c_prio (cs' x) = c_prio (cs x)"
    "c_next_blocked (cs' x) = c_next_blocked (cs x)" "x \<noteq> c \<Longrightarrow> cs' x = cs x" by simp_all
  have "tp' = tp\<lparr>th_ready_head := Some c,
      th_ready_tail := (if th_ready_tail tp = None then Some c else th_ready_tail tp)\<rparr>"
    using assms by (auto simp: ready_push_front_def Let_def)
  then show "\<exists>h t. tp' = tp\<lparr>th_ready_head := h, th_ready_tail := t\<rparr>" by blast
qed

lemma ready_push_back_fields [cmt_frame]:
  assumes "ready_push_back c (cs, tp) = (cs', tp')"
  shows "c_prom (cs' x) = c_prom (cs x)" "c_resume_time (cs' x) = c_resume_time (cs x)"
    "c_canceled (cs' x) = c_canceled (cs x)" "c_prio (cs' x) = c_prio (cs x)"
    "c_next_blocked (cs' x) = c_next_blocked (cs x)"
    "x \<noteq> c \<Longrightarrow> th_ready_tail tp \<noteq> Some x \<Longrightarrow> cs' x = cs x"
    "\<exists>h t. tp' = tp\<lparr>th_ready_head := h, th_ready_tail := t\<rparr>"
proof -
  have cs': "cs' = (case th_ready_tail tp of
        Some t \<Rightarrow> cs(c := (cs c)\<lparr>c_next := None\<rparr>,
                     t := ((cs(c := (cs c)\<lparr>c_next := None\<rparr>)) t)\<lparr>c_next := Some c\<rparr>)
      | None \<Rightarrow> cs(c := (cs c)\<lparr>c_next := None\<rparr>))"
    using assms by (auto simp: ready_push_back_def Let_def split: option.splits)
  show "c_prom (cs' x) = c_prom (cs x)" "c_resume_time (cs' x) = c_resume_time (cs x)"
    "c_canceled (cs' x) = c_canceled (cs x)" "c_prio (cs' x) = c_prio (cs x)"
    "c_next_blocked (cs' x) = c_next_blocked (cs x)"
    "x \<noteq> c \<Longrightarrow> th_ready_tail tp \<noteq> Some x \<Longrightarrow> cs' x = cs x"
    unfolding cs' by (auto split: option.splits)
  have "tp' = tp\<lparr>th_ready_head := (if th_ready_tail tp = None then Some c else th_ready_head tp),
      th_ready_tail := Some c\<rparr>"
    using assms by (auto simp: ready_push_back_def Let_def split: option.splits)
  then show "\<exists>h t. tp' = tp\<lparr>th_ready_head := h, th_ready_tail := t\<rparr>" by blast
qed

lemma blocked_list_cong:
  "(\<And>x. c_next_blocked (cs' x) = c_next_blocked (cs x)) \<Longrightarrow> th_blocked tp' = th_blocked tp \<Longrightarrow>
   blocked_list (cs', tp') bs = blocked_list (cs, tp) bs"
  by (simp add: blocked_list_def)

lemma ready_list_cong:
  "(\<And>x. c_next (cs' x) = c_next (cs x)) \<Longrightarrow> th_ready_head tp' = th_ready_head tp \<Longrightarrow>
   th_ready_tail tp' = th_ready_tail tp \<Longrightarrow> ready_list (cs', tp') rs = ready_list (cs, tp) rs"
  by (simp add: ready_list_def)

text \<open>Unlinking takes the context out of the blocked list and puts it in front of the ready queue.\<close>

lemma unlink_blocked_effect:
  assumes r: "ready_list (cs, tp) rs" and b: "blocked_list (cs, tp) (as @ y # ys)" and y: "y \<notin> set rs"
    and u: "unlink_blocked (if as = [] then None else Some (last as)) y (cs, tp) = (cs', tp')"
  shows "ready_list (cs', tp') (y # rs)" "blocked_list (cs', tp') (as @ ys)"
    "c_prom (cs' x) = c_prom (cs x)" "c_resume_time (cs' x) = c_resume_time (cs x)"
    "c_canceled (cs' x) = c_canceled (cs x)" "c_prio (cs' x) = c_prio (cs x)"
    "x \<notin> set (as @ [y]) \<Longrightarrow> cs' x = cs x"
    "\<exists>h t bl. tp' = tp\<lparr>th_blocked := bl, th_ready_head := h, th_ready_tail := t\<rparr>"
proof -
  let ?nb = "\<lambda>c. c_next_blocked (cs c)"
  obtain cs1 bl where mid: "ready_push_front y (cs1, tp\<lparr>th_blocked := bl\<rparr>) = (cs', tp')"
    and keep: "\<And>x. c_prom (cs1 x) = c_prom (cs x)" "\<And>x. c_resume_time (cs1 x) = c_resume_time (cs x)"
      "\<And>x. c_canceled (cs1 x) = c_canceled (cs x)" "\<And>x. c_prio (cs1 x) = c_prio (cs x)"
      "\<And>x. c_next (cs1 x) = c_next (cs x)" "\<And>x. x \<notin> set (as @ [y]) \<Longrightarrow> cs1 x = cs x"
    and bl: "chain (\<lambda>c. c_next_blocked (cs1 c)) bl (as @ ys)"
  proof (cases as rule: rev_cases)
    case Nil
    let ?cs = "cs(y := (cs y)\<lparr>c_next_blocked := None\<rparr>)"
    from b Nil have ch: "chain ?nb (?nb y) ys" by (simp add: blocked_list_def)
    with chain_head_fresh [OF ch] have "chain (\<lambda>c. c_next_blocked (?cs c)) (?nb y) ys" by simp
    with u Nil show thesis by (intro that [of ?cs "?nb y"]) (auto simp: unlink_blocked_def Let_def)
  next
    case (snoc as' a)
    let ?cs = "cs(a := (cs a)\<lparr>c_next_blocked := ?nb y\<rparr>)"
    let ?cs' = "?cs(y := (?cs y)\<lparr>c_next_blocked := None\<rparr>)"
    have d: "distinct (as @ y # ys)" using b by (rule blocked_list_distinct)
    have "chain (?nb(a := ?nb y)) (th_blocked tp) (as' @ a # ys)"
      using b snoc by (intro chain_unlink) (simp add: blocked_list_def)
    moreover have "(?nb(a := ?nb y)) x = c_next_blocked (?cs' x)" if "x \<in> set (as' @ a # ys)" for x
      using that d snoc by auto
    ultimately have "chain (\<lambda>c. c_next_blocked (?cs' c)) (th_blocked tp) (as @ ys)"
      using snoc chain_cong [of "as' @ a # ys" "?nb(a := ?nb y)" "\<lambda>c. c_next_blocked (?cs' c)"] by simp
    moreover have "ready_push_front y (?cs', tp\<lparr>th_blocked := th_blocked tp\<rparr>) = (cs', tp')"
      using u snoc by (simp add: unlink_blocked_def Let_def)
    ultimately show thesis using snoc d by (intro that [of ?cs' "th_blocked tp"]) auto
  qed
  have "ready_list (cs1, tp\<lparr>th_blocked := bl\<rparr>) rs"
    using r keep(5) ready_list_cong [of cs1 cs "tp\<lparr>th_blocked := bl\<rparr>" tp rs] by simp
  from ready_push_front_list [OF this y] mid show "ready_list (cs', tp') (y # rs)" by simp
  note f = ready_push_front_fields [OF mid]
  obtain h t where tp': "tp' = tp\<lparr>th_blocked := bl, th_ready_head := h, th_ready_tail := t\<rparr>"
    using f(7) by blast
  with bl f(5) show "blocked_list (cs', tp') (as @ ys)" by (simp add: blocked_list_def)
  show "c_prom (cs' x) = c_prom (cs x)" "c_resume_time (cs' x) = c_resume_time (cs x)"
    "c_canceled (cs' x) = c_canceled (cs x)" "c_prio (cs' x) = c_prio (cs x)"
    using f(1-4) [of x] keep(1-4) [of x] by simp_all
  show "x \<notin> set (as @ [y]) \<Longrightarrow> cs' x = cs x" using f(6) [of x] keep(6) [of x] by simp
  show "\<exists>h t bl. tp' = tp\<lparr>th_blocked := bl, th_ready_head := h, th_ready_tail := t\<rparr>"
    using tp' by blast
qed

section \<open>The sleepers under the second loop of notify\<close>

lemma unsleep_loop_none:
  "\<forall>c \<in> set (drop i q). c_prom (cs c) \<noteq> Some p \<Longrightarrow> unsleep_loop p i cs q = (cs, q)"
proof (induction p i cs q rule: unsleep_loop.induct)
  case (1 p i cs q)
  show ?case
  proof (cases "i < length q")
    case True
    then have "drop i q = q ! i # drop (Suc i) q" by (simp add: Cons_nth_drop_Suc)
    with 1 True show ?thesis by (subst unsleep_loop.simps) simp
  qed (subst unsleep_loop.simps, simp)
qed

lemma unsleep_loop_hit:
  "i \<le> k \<Longrightarrow> k < length q \<Longrightarrow> c_prom (cs (q ! k)) = Some p \<Longrightarrow>
   \<forall>j. i \<le> j \<and> j < k \<longrightarrow> c_prom (cs (q ! j)) \<noteq> Some p \<Longrightarrow>
   unsleep_loop p i cs q =
     (cs(q ! k := (cs (q ! k))\<lparr>c_prom := None\<rparr>),
      make_heap (sleep_priority_less (cs(q ! k := (cs (q ! k))\<lparr>c_prom := None\<rparr>)))
        (butlast (q[k := last q])))"
proof (induction p i cs q rule: unsleep_loop.induct)
  case (1 p i cs q)
  show ?case
  proof (cases "i = k")
    case True
    with 1 show ?thesis by (subst unsleep_loop.simps) (simp add: Let_def)
  next
    case False
    with 1 have "c_prom (cs (q ! i)) \<noteq> Some p" "Suc i \<le> k" "i < length q" by auto
    with 1 show ?thesis by (subst unsleep_loop.simps) (simp del: fun_upd_apply)
  qed
qed

section \<open>The invariant of a thread\<close>

text \<open>
  \<open>rs\<close> is the ready queue and \<open>bs\<close> the blocked list of thread \<open>t\<close>.  No context is both ready
  and blocked or asleep; a blocked context names the promise it waits for, that promise names
  this thread, and no two blocked contexts wait for the same promise (a promise has one
  \<open>m_blocked_thread\<close>); a sleeper has a promise exactly when it is also blocked.
\<close>

definition thread_inv :: "thid \<Rightarrow> 'v sys \<Rightarrow> cptr list \<Rightarrow> cptr list \<Rightarrow> bool" where
  "thread_inv t s rs bs =
     (ready_list (s_ctxs s, s_thrs s t) rs \<and> blocked_list (s_ctxs s, s_thrs s t) bs \<and>
      is_heap (sleep_priority_less (s_ctxs s)) (th_sleep_pqueue (s_thrs s t)) \<and>
      distinct (th_sleep_pqueue (s_thrs s t)) \<and>
      set rs \<inter> set bs = {} \<and> set rs \<inter> set (th_sleep_pqueue (s_thrs s t)) = {} \<and>
      (\<forall>c \<in> set rs \<union> set bs \<union> set (th_sleep_pqueue (s_thrs s t)). c < s_next_ctx s) \<and>
      (\<forall>c \<in> set bs. \<exists>p. c_prom (s_ctxs s c) = Some p \<and> m_blocked_thread (s_proms s p) = Some t) \<and>
      inj_on (\<lambda>c. c_prom (s_ctxs s c)) (set bs) \<and>
      (\<forall>c \<in> set (th_sleep_pqueue (s_thrs s t)). c_prom (s_ctxs s c) \<noteq> None \<longleftrightarrow> c \<in> set bs))"

lemma thread_invD:
  assumes "thread_inv t s rs bs"
  shows "ready_list (s_ctxs s, s_thrs s t) rs" "blocked_list (s_ctxs s, s_thrs s t) bs"
    "is_heap (sleep_priority_less (s_ctxs s)) (th_sleep_pqueue (s_thrs s t))"
    "distinct (th_sleep_pqueue (s_thrs s t))"
    "set rs \<inter> set bs = {}" "set rs \<inter> set (th_sleep_pqueue (s_thrs s t)) = {}"
    "c \<in> set rs \<union> set bs \<union> set (th_sleep_pqueue (s_thrs s t)) \<Longrightarrow> c < s_next_ctx s"
    "c \<in> set bs \<Longrightarrow> \<exists>p. c_prom (s_ctxs s c) = Some p \<and> m_blocked_thread (s_proms s p) = Some t"
    "c \<in> set bs \<Longrightarrow> d \<in> set bs \<Longrightarrow> c_prom (s_ctxs s c) = c_prom (s_ctxs s d) \<Longrightarrow> c = d"
    "c \<in> set (th_sleep_pqueue (s_thrs s t)) \<Longrightarrow> c_prom (s_ctxs s c) \<noteq> None \<longleftrightarrow> c \<in> set bs"
  using assms by (auto simp: thread_inv_def inj_on_def)

text \<open>The contexts a thread's lists hold.\<close>

definition owned :: "thid \<Rightarrow> 'v sys \<Rightarrow> cptr list \<Rightarrow> cptr list \<Rightarrow> cptr set" where
  "owned t s rs bs = set rs \<union> set bs \<union> set (th_sleep_pqueue (s_thrs s t))"

lemma blocked_length_bound:
  assumes "thread_inv t s rs bs"
  shows "length bs \<le> s_next_ctx s"
proof -
  have "set bs \<subseteq> {..<s_next_ctx s}" using thread_invD(7) [OF assms] by auto
  then have "card (set bs) \<le> card {..<s_next_ctx s}" by (intro card_mono) auto
  then show ?thesis using blocked_list_distinct [OF thread_invD(2) [OF assms]]
    by (simp add: distinct_card)
qed

text \<open>
  What stays as it is when thread \<open>t\<close> moves contexts of the set \<open>A\<close> between its lists.
\<close>

definition sched_frame :: "thid \<Rightarrow> cptr set \<Rightarrow> 'v sys \<Rightarrow> 'v sys \<Rightarrow> bool" where
  "sched_frame t A s s' =
     (s_tasks s' = s_tasks s \<and> s_next_ctx s' = s_next_ctx s \<and> s_next_task s' = s_next_task s \<and>
      s_next_prom s' = s_next_prom s \<and> s_task_count s' = s_task_count s \<and>
      (\<forall>u. u \<noteq> t \<longrightarrow> s_thrs s' u = s_thrs s u) \<and>
      (\<exists>q h l b. s_thrs s' t = (s_thrs s t)\<lparr>th_sleep_pqueue := q, th_ready_head := h,
                                              th_ready_tail := l, th_blocked := b\<rparr>) \<and>
      (\<forall>c. c_resume_time (s_ctxs s' c) = c_resume_time (s_ctxs s c) \<and>
           c_canceled (s_ctxs s' c) = c_canceled (s_ctxs s c) \<and>
           c_prio (s_ctxs s' c) = c_prio (s_ctxs s c)) \<and>
      (\<forall>c. c \<notin> A \<longrightarrow> s_ctxs s' c = s_ctxs s c) \<and>
      (\<forall>p. m_blocked_thread (s_proms s' p) = m_blocked_thread (s_proms s p) \<and>
           m_value (s_proms s' p) = m_value (s_proms s p) \<and>
           m_task (s_proms s' p) = m_task (s_proms s p)))"

lemma same_lists [simp]:
  "\<exists>q h l b. tp = tp\<lparr>th_sleep_pqueue := q, th_ready_head := h, th_ready_tail := l, th_blocked := b\<rparr>"
proof -
  have "tp = tp\<lparr>th_sleep_pqueue := th_sleep_pqueue tp, th_ready_head := th_ready_head tp,
      th_ready_tail := th_ready_tail tp, th_blocked := th_blocked tp\<rparr>" by simp
  then show ?thesis by blast
qed

lemma sched_frame_refl [simp]: "sched_frame t A s s"
  by (simp add: sched_frame_def)

lemma sched_frame_trans:
  assumes "sched_frame t A s1 s2" and "sched_frame t A s2 s3"
  shows "sched_frame t A s1 s3"
proof -
  from assms obtain q h l b q' h' l' b' where
    "s_thrs s2 t = (s_thrs s1 t)\<lparr>th_sleep_pqueue := q, th_ready_head := h, th_ready_tail := l, th_blocked := b\<rparr>"
    "s_thrs s3 t = (s_thrs s2 t)\<lparr>th_sleep_pqueue := q', th_ready_head := h', th_ready_tail := l', th_blocked := b'\<rparr>"
    unfolding sched_frame_def by blast
  then have "s_thrs s3 t = (s_thrs s1 t)\<lparr>th_sleep_pqueue := q', th_ready_head := h', th_ready_tail := l', th_blocked := b'\<rparr>"
    by simp
  then show ?thesis using assms unfolding sched_frame_def by metis
qed

lemma sched_frame_mono: "sched_frame t A s s' \<Longrightarrow> A \<subseteq> B \<Longrightarrow> sched_frame t B s s'"
  unfolding sched_frame_def by blast

lemma sched_frame_current: "sched_frame t A s s' \<Longrightarrow> th_current (s_thrs s' t) = th_current (s_thrs s t)"
  by (auto simp: sched_frame_def)

section \<open>Notify\<close>

lemma notify_no_waiter:
  assumes inv: "thread_inv t s rs bs" and "promise_ready (s_proms s p)"
    and no: "\<forall>c \<in> set bs. c_prom (s_ctxs s c) \<noteq> Some p"
  shows "thread_notify t t p s = Inr s"
proof -
  have "unblock_loop (s_next_ctx s) p (th_blocked (s_thrs s t)) None (s_ctxs s, s_thrs s t) =
      Inr (s_ctxs s, s_thrs s t)"
    using thread_invD(2) [OF inv] no blocked_length_bound [OF inv]
    by (intro unblock_loop_none) (auto simp: blocked_list_def)
  moreover have "unsleep_loop p 0 (s_ctxs s) (th_sleep_pqueue (s_thrs s t)) =
      (s_ctxs s, th_sleep_pqueue (s_thrs s t))"
    using no thread_invD(10) [OF inv] by (intro unsleep_loop_none) auto
  ultimately show ?thesis using assms(2) by (simp add: thread_notify_def)
qed

text \<open>The effect of the second loop: the woken context leaves the heap of sleepers.\<close>

lemma unsleep_effect:
  assumes h: "is_heap (sleep_priority_less cs) q" "distinct q"
    and only: "\<And>d. d \<in> set q \<Longrightarrow> c_prom (cs d) = Some p \<longleftrightarrow> d = c"
    and u: "unsleep_loop p 0 cs q = (cs', q')"
  shows "set q' = set q - {c}" "distinct q'" "is_heap (sleep_priority_less cs') q'"
    "\<And>x. x \<noteq> c \<Longrightarrow> cs' x = cs x"
    "cs' c = (if c \<in> set q then (cs c)\<lparr>c_prom := None\<rparr> else cs c)"
proof -
  have "set q' = set q - {c} \<and> distinct q' \<and> is_heap (sleep_priority_less cs') q' \<and>
      (\<forall>x. x \<noteq> c \<longrightarrow> cs' x = cs x) \<and> cs' c = (if c \<in> set q then (cs c)\<lparr>c_prom := None\<rparr> else cs c)"
  proof (cases "c \<in> set q")
    case True
    then obtain k where k: "k < length q" "q ! k = c" by (auto simp: in_set_conv_nth)
    let ?cs = "cs(c := (cs c)\<lparr>c_prom := None\<rparr>)"
    have "c_prom (cs (q ! j)) \<noteq> Some p" if "j < k" for j
      using only [of "q ! j"] that k h(2) by (auto simp: nth_eq_iff_index_eq)
    then have "unsleep_loop p 0 cs q =
        (?cs, make_heap (sleep_priority_less ?cs) (butlast (q[k := last q])))"
      using only [OF True] k by (subst unsleep_loop_hit [of 0 k]) auto
    with u have cs': "cs' = ?cs" and q': "q' = make_heap (sleep_priority_less ?cs) (butlast (q[k := last q]))"
      by auto
    have "mset q' = mset q - {#c#}" unfolding q' by (simp add: sleepq.mk_mset mset_overwrite_last k)
    then have "set q' = set q - {c} \<and> distinct q'" using h(2)
      by (metis distinct_remove1 mset_remove1 mset_eq_imp_distinct_iff mset_eq_setD set_remove1_eq)
    then show ?thesis using True sleepq.mk_heap by (simp add: cs' q')
  next
    case False
    then have "unsleep_loop p 0 cs q = (cs, q)" using only by (intro unsleep_loop_none) auto
    with u False h show ?thesis by auto
  qed
  then show "set q' = set q - {c}" "distinct q'" "is_heap (sleep_priority_less cs') q'"
    "\<And>x. x \<noteq> c \<Longrightarrow> cs' x = cs x"
    "cs' c = (if c \<in> set q then (cs c)\<lparr>c_prom := None\<rparr> else cs c)" by auto
qed

lemma notify_waiter:
  assumes inv: "thread_inv t s rs bs" and rdy: "promise_ready (s_proms s p)"
    and bs: "bs = as @ c # bs'" and c: "c_prom (s_ctxs s c) = Some p"
  obtains s' where "thread_notify t t p s = Inr s'" "thread_inv t s' (c # rs) (as @ bs')"
    "sched_frame t (owned t s rs bs) s s'" "s_proms s' = s_proms s"
    "set (th_sleep_pqueue (s_thrs s' t)) = set (th_sleep_pqueue (s_thrs s t)) - {c}"
    "\<And>d. d \<noteq> c \<Longrightarrow> c_prom (s_ctxs s' d) = c_prom (s_ctxs s d)"
proof -
  note D = thread_invD [OF inv]
  let ?q = "th_sleep_pqueue (s_thrs s t)" and ?prev = "if as = [] then None else Some (last as)"
  have dist: "distinct bs" using D(2) by (rule blocked_list_distinct)
  have cbs: "c \<in> set bs" and crs: "c \<notin> set rs" using bs D(5) by auto
  have others: "c_prom (s_ctxs s d) \<noteq> Some p" if "d \<in> set bs" "d \<noteq> c" for d
    using D(9) [OF that(1) cbs] c that by auto
  obtain cs1 tp1 where u: "unlink_blocked ?prev c (s_ctxs s, s_thrs s t) = (cs1, tp1)" by fastforce
  have loop: "unblock_loop (s_next_ctx s) p (th_blocked (s_thrs s t)) None (s_ctxs s, s_thrs s t) =
      Inr (cs1, tp1)"
    using D(2) bs others dist c blocked_length_bound [OF inv] u
    by (subst unblock_loop_hit [where y = c and as = as and ys = bs']) (auto simp: blocked_list_def)
  note e = unlink_blocked_effect [OF D(1) D(2) [unfolded bs] crs u]
  obtain h l b where tp1: "tp1 = (s_thrs s t)\<lparr>th_blocked := b, th_ready_head := h, th_ready_tail := l\<rparr>"
    using e(8) by blast
  obtain cs2 q2 where us: "unsleep_loop p 0 cs1 ?q = (cs2, q2)" by fastforce
  have only: "c_prom (cs1 d) = Some p \<longleftrightarrow> d = c" if "d \<in> set ?q" for d
    using D(10) [OF that] others [of d] c e(3) [of d] by auto
  have hp: "is_heap (sleep_priority_less cs1) ?q" using D(3) e(4) by (subst sleep_heap_cong) auto
  note us = unsleep_effect [OF hp D(4) only us] and run = us
  let ?s' = "s\<lparr>s_ctxs := cs2, s_thrs := (s_thrs s)(t := tp1\<lparr>th_sleep_pqueue := q2\<rparr>)\<rparr>"
  have keep: "c_next (cs2 x) = c_next (cs1 x)" "c_next_blocked (cs2 x) = c_next_blocked (cs1 x)"
    "c_resume_time (cs2 x) = c_resume_time (cs1 x)" "c_canceled (cs2 x) = c_canceled (cs1 x)"
    "c_prio (cs2 x) = c_prio (cs1 x)" "x \<noteq> c \<Longrightarrow> c_prom (cs2 x) = c_prom (cs1 x)" for x
    using us(4) [of x] us(5) by (cases "x = c"; simp)+
  have "thread_notify t t p s = Inr ?s'"
    using rdy loop run tp1 by (simp add: thread_notify_def)
  moreover have "thread_inv t ?s' (c # rs) (as @ bs')"
  proof -
    have "ready_list (cs2, tp1\<lparr>th_sleep_pqueue := q2\<rparr>) (c # rs)"
      using e(1) keep(1) ready_list_cong [of cs2 cs1 "tp1\<lparr>th_sleep_pqueue := q2\<rparr>" tp1] by simp
    moreover have "blocked_list (cs2, tp1\<lparr>th_sleep_pqueue := q2\<rparr>) (as @ bs')"
      using e(2) keep(2) blocked_list_cong [of cs2 cs1 "tp1\<lparr>th_sleep_pqueue := q2\<rparr>" tp1] by simp
    moreover have "c_prom (cs2 d) = c_prom (s_ctxs s d)" if "d \<in> set (as @ bs')" for d
      using that dist bs keep(6) [of d] e(3) [of d] by auto
    moreover have "c_prom (cs2 d) \<noteq> None \<longleftrightarrow> d \<in> set (as @ bs')" if "d \<in> set q2" for d
      using that us(1) D(10) [of d] keep(6) [of d] e(3) [of d] bs by auto
    ultimately show ?thesis
      using D(5-9) us(1-3) bs dist by (auto simp: thread_inv_def inj_on_def)
  qed
  moreover have "sched_frame t (owned t s rs bs) s ?s'"
  proof -
    have "s_thrs ?s' t = (s_thrs s t)\<lparr>th_sleep_pqueue := q2, th_ready_head := h, th_ready_tail := l,
        th_blocked := b\<rparr>" by (simp add: tp1)
    then have "\<exists>q h l b. s_thrs ?s' t = (s_thrs s t)\<lparr>th_sleep_pqueue := q, th_ready_head := h,
        th_ready_tail := l, th_blocked := b\<rparr>" by blast
    moreover have "cs2 x = s_ctxs s x" if "x \<notin> owned t s rs bs" for x
      using that us(4) [of x] e(7) [of x] bs by (auto simp: owned_def)
    ultimately show ?thesis unfolding sched_frame_def using e(4-6) keep(3-5) by simp
  qed
  ultimately show thesis using that [of ?s'] us(1) keep(6) e(3) tp1 by simp
qed

section \<open>Delivering a result\<close>

lemma thread_inv_upd_prom:
  "m_blocked_thread (f (s_proms s p)) = m_blocked_thread (s_proms s p) \<Longrightarrow>
   thread_inv t (upd_prom p f s) rs bs = thread_inv t s rs bs"
  by (auto simp: thread_inv_def upd_prom_def)

lemma sched_frame_upd_prom:
  "m_blocked_thread (f (s_proms s p)) = m_blocked_thread (s_proms s p) \<Longrightarrow>
   m_value (f (s_proms s p)) = m_value (s_proms s p) \<Longrightarrow>
   m_task (f (s_proms s p)) = m_task (s_proms s p) \<Longrightarrow> sched_frame t A s (upd_prom p f s)"
  by (simp add: sched_frame_def upd_prom_def)

lemma owned_upd_prom [simp]: "owned t (upd_prom p f s) rs bs = owned t s rs bs"
  by (simp add: owned_def upd_prom_def)

text \<open>
  An exception stored in a promise that a blocked context of the calling thread waits for makes
  that context ready, at the front of the queue.
\<close>

lemma set_exception_waiter:
  assumes inv: "thread_inv t s rs bs" and bs: "bs = as @ c # bs'" and c: "c_prom (s_ctxs s c) = Some p"
  obtains s' where "set_exception t p e s = Inr s'" "thread_inv t s' (c # rs) (as @ bs')"
    "sched_frame t (owned t s rs bs) s s'"
    "set (th_sleep_pqueue (s_thrs s' t)) = set (th_sleep_pqueue (s_thrs s t)) - {c}"
    "\<And>d. d \<noteq> c \<Longrightarrow> c_prom (s_ctxs s' d) = c_prom (s_ctxs s d)"
    "\<And>r. m_error (s_proms s' r) = (if r = p then Some e else m_error (s_proms s r))"
proof -
  let ?f = "\<lambda>_. fst (store_exception e (s_proms s p))" and ?s = "upd_prom p (\<lambda>_. fst (store_exception e (s_proms s p))) s"
  have bt: "m_blocked_thread (s_proms s p) = Some t" using thread_invD(8) [OF inv, of c] bs c by auto
  have inv': "thread_inv t ?s rs bs" using inv by (simp add: thread_inv_upd_prom promise_ops)
  have fr: "sched_frame t (owned t s rs bs) s ?s" by (rule sched_frame_upd_prom) (simp_all add: promise_ops)
  have rdy: "promise_ready (s_proms ?s p)" by (simp add: upd_prom_def promise_ops)
  have "set_exception t p e s = thread_notify t t p ?s"
    using bt by (simp add: set_exception_def promise_notify_def upd_prom_def promise_ops)
  moreover obtain s' where "thread_notify t t p ?s = Inr s'" "thread_inv t s' (c # rs) (as @ bs')"
    "sched_frame t (owned t ?s rs bs) ?s s'" "s_proms s' = s_proms ?s"
    "set (th_sleep_pqueue (s_thrs s' t)) = set (th_sleep_pqueue (s_thrs ?s t)) - {c}"
    "\<And>d. d \<noteq> c \<Longrightarrow> c_prom (s_ctxs s' d) = c_prom (s_ctxs ?s d)"
    using notify_waiter [OF inv' rdy bs] c by (auto simp: upd_prom_def)
  moreover have "sched_frame t (owned t s rs bs) s s'" using fr calculation(4) sched_frame_trans by auto
  ultimately show thesis by (intro that [of s']) (simp_all add: upd_prom_def promise_ops)
qed

section \<open>Expiring timeouts\<close>

lemma pop_sleeper_inv:
  assumes inv: "thread_inv t s rs bs" and q: "th_sleep_pqueue (s_thrs s t) = c # q"
  defines "s1 \<equiv> upd_thread t (\<lambda>tp. tp\<lparr>th_sleep_pqueue :=
      butlast (pop_heap (sleep_priority_less (s_ctxs s)) (c # q))\<rparr>) s"
  shows "thread_inv t s1 rs bs" "set (th_sleep_pqueue (s_thrs s1 t)) = set q"
    "sched_frame t A s s1" "s_proms s1 = s_proms s" "s_ctxs s1 = s_ctxs s" "c \<notin> set q"
    "length (th_sleep_pqueue (s_thrs s1 t)) = length q"
proof -
  note D = thread_invD [OF inv]
  let ?q = "butlast (pop_heap (sleep_priority_less (s_ctxs s)) (c # q))"
  have m: "mset ?q = mset q" by (subst sleepq.pop_mset) simp_all
  have thr: "s_thrs s1 t = (s_thrs s t)\<lparr>th_sleep_pqueue := ?q\<rparr>" by (simp add: s1_def upd_thread_def)
  have st: "set ?q = set q" "distinct ?q" "is_heap (sleep_priority_less (s_ctxs s)) ?q"
    using m D(3,4) q mset_eq_setD [OF m] mset_eq_imp_distinct_iff [OF m] sleepq.pop_heap by auto
  show c: "c \<notin> set q" using D(4) q by simp
  show cs: "s_proms s1 = s_proms s" "s_ctxs s1 = s_ctxs s" by (simp_all add: s1_def upd_thread_def)
  show "set (th_sleep_pqueue (s_thrs s1 t)) = set q" using thr st by simp
  show "length (th_sleep_pqueue (s_thrs s1 t)) = length q" using thr m by (metis size_mset
        thread_private.select_convs(5) thread_private.surjective thread_private.update_convs(5))
  show "thread_inv t s1 rs bs"
    using inv st q
    by (auto simp: thread_inv_def thr cs ready_list_def blocked_list_def) (simp_all add: s1_def upd_thread_def)
  have "s_thrs s1 t = (s_thrs s t)\<lparr>th_sleep_pqueue := ?q, th_ready_head := th_ready_head (s_thrs s t),
      th_ready_tail := th_ready_tail (s_thrs s t), th_blocked := th_blocked (s_thrs s t)\<rparr>"
    by (simp add: thr)
  then have "\<exists>q h l b. s_thrs s1 t = (s_thrs s t)\<lparr>th_sleep_pqueue := q, th_ready_head := h,
        th_ready_tail := l, th_blocked := b\<rparr>" by blast
  then show "sched_frame t A s s1" using cs
    by (simp add: sched_frame_def) (simp add: s1_def upd_thread_def)
qed

lemma push_back_inv:
  assumes inv: "thread_inv t s rs bs" and c: "c \<notin> owned t s rs bs" "c < s_next_ctx s"
  defines "s1 \<equiv> on_thread t (ready_push_back c) s"
  shows "thread_inv t s1 (rs @ [c]) bs" "sched_frame t (insert c (owned t s rs bs)) s s1"
    "s_proms s1 = s_proms s" "th_sleep_pqueue (s_thrs s1 t) = th_sleep_pqueue (s_thrs s t)"
    "c_prom (s_ctxs s1 d) = c_prom (s_ctxs s d)"
proof -
  note D = thread_invD [OF inv]
  obtain cs tp where pb: "ready_push_back c (s_ctxs s, s_thrs s t) = (cs, tp)" by fastforce
  then have s1: "s1 = s\<lparr>s_ctxs := cs, s_thrs := (s_thrs s)(t := tp)\<rparr>" by (simp add: s1_def on_thread_def)
  note f = ready_push_back_fields [OF pb]
  obtain h l where tp: "tp = (s_thrs s t)\<lparr>th_ready_head := h, th_ready_tail := l\<rparr>" using f(7) by blast
  show "s_proms s1 = s_proms s" "th_sleep_pqueue (s_thrs s1 t) = th_sleep_pqueue (s_thrs s t)"
    "c_prom (s_ctxs s1 d) = c_prom (s_ctxs s d)" using f(1) by (simp_all add: s1 tp)
  have "ready_list (cs, tp) (rs @ [c])"
    using ready_push_back_list [OF D(1), of c] c pb by (simp add: owned_def)
  moreover have "blocked_list (cs, tp) bs"
    using D(2) f(5) blocked_list_cong [of cs "s_ctxs s" tp "s_thrs s t" bs] by (simp add: tp)
  moreover have "is_heap (sleep_priority_less cs) (th_sleep_pqueue (s_thrs s t))"
    using D(3) f(2) by (subst sleep_heap_cong) auto
  ultimately show "thread_inv t s1 (rs @ [c]) bs"
    using D(4-10) c f(1) by (auto simp: thread_inv_def s1 tp owned_def inj_on_def)
  have "s_thrs s1 t = (s_thrs s t)\<lparr>th_sleep_pqueue := th_sleep_pqueue (s_thrs s t), th_ready_head := h,
      th_ready_tail := l, th_blocked := th_blocked (s_thrs s t)\<rparr>" by (simp add: s1 tp)
  then have "\<exists>q h l b. s_thrs s1 t = (s_thrs s t)\<lparr>th_sleep_pqueue := q, th_ready_head := h,
        th_ready_tail := l, th_blocked := b\<rparr>" by blast
  moreover have "cs x = s_ctxs s x" if "x \<noteq> c" "x \<notin> owned t s rs bs" for x
  proof -
    have "th_ready_tail (s_thrs s t) \<noteq> Some x" using that D(1) by (auto simp: ready_list_def owned_def)
    with that(1) show ?thesis by (rule f(6))
  qed
  ultimately show "sched_frame t (insert c (owned t s rs bs)) s s1"
    using f(2-4) by (simp add: sched_frame_def s1)
qed

text \<open>
  The loop of \<open>check_for_timeouts\<close> always ends, and it makes ready exactly the sleepers whose
  time has come; those that wait for a promise find a timeout exception in it.
\<close>

definition expired :: "thid \<Rightarrow> time_point \<Rightarrow> 'v sys \<Rightarrow> cptr set" where
  "expired t now s = {c \<in> set (th_sleep_pqueue (s_thrs s t)). c_resume_time (s_ctxs s c) \<le> now}"

definition expire_result ::
  "thid \<Rightarrow> time_point \<Rightarrow> 'v sys \<Rightarrow> cptr list \<Rightarrow> cptr list \<Rightarrow> 'v sys \<Rightarrow> cptr list \<Rightarrow> cptr list \<Rightarrow> bool" where
  "expire_result t now s rs bs s' rs' bs' =
     (thread_inv t s' rs' bs' \<and> sched_frame t (owned t s rs bs) s s' \<and>
      set (th_sleep_pqueue (s_thrs s' t)) = set (th_sleep_pqueue (s_thrs s t)) - expired t now s \<and>
      set rs' = set rs \<union> expired t now s \<and> set bs' = set bs - expired t now s \<and>
      (\<forall>c. c \<notin> expired t now s \<longrightarrow> c_prom (s_ctxs s' c) = c_prom (s_ctxs s c)) \<and>
      (\<forall>p. m_error (s_proms s' p) =
         (if Some p \<in> (\<lambda>c. c_prom (s_ctxs s c)) ` expired t now s
          then Some (Future_Error Future_Wait_Timeout) else m_error (s_proms s p))))"

text \<open>One round: the front sleeper \<open>c\<close> is moved, then the loop goes on from \<open>s1\<close>.\<close>

lemma expire_result_step:
  assumes c: "c \<in> expired t now s"
    and q: "set (th_sleep_pqueue (s_thrs s1 t)) = set (th_sleep_pqueue (s_thrs s t)) - {c}"
    and fr: "sched_frame t (owned t s rs bs) s s1"
    and rs: "set rs1 = insert c (set rs)" and bs: "set bs1 = set bs - {c}"
    and pr: "\<And>d. d \<noteq> c \<Longrightarrow> c_prom (s_ctxs s1 d) = c_prom (s_ctxs s d)"
    and er: "\<And>p. m_error (s_proms s1 p) = (if c_prom (s_ctxs s c) = Some p
         then Some (Future_Error Future_Wait_Timeout) else m_error (s_proms s p))"
    and res: "expire_result t now s1 rs1 bs1 s' rs' bs'"
  shows "expire_result t now s rs bs s' rs' bs'"
proof -
  have cq: "c \<in> set (th_sleep_pqueue (s_thrs s t))" using c by (simp add: expired_def)
  have E: "expired t now s1 = expired t now s - {c}"
    using q fr by (auto simp: expired_def sched_frame_def)
  have "owned t s1 rs1 bs1 \<subseteq> owned t s rs bs" using q rs bs cq by (auto simp: owned_def)
  then have "sched_frame t (owned t s rs bs) s s'"
    using fr res sched_frame_trans sched_frame_mono unfolding expire_result_def by blast
  moreover have "(\<lambda>d. c_prom (s_ctxs s d)) ` expired t now s =
      insert (c_prom (s_ctxs s c)) ((\<lambda>d. c_prom (s_ctxs s1 d)) ` expired t now s1)"
    using c pr E by (auto simp: image_iff)
  moreover have "\<forall>d. d \<notin> expired t now s \<longrightarrow> c_prom (s_ctxs s' d) = c_prom (s_ctxs s d)"
  proof (intro allI impI)
    fix d assume d: "d \<notin> expired t now s"
    with c have "d \<noteq> c" by blast
    with d res E pr [of d] show "c_prom (s_ctxs s' d) = c_prom (s_ctxs s d)" by (simp add: expire_result_def)
  qed
  moreover have "set (th_sleep_pqueue (s_thrs s' t)) = set (th_sleep_pqueue (s_thrs s t)) - expired t now s"
    "set rs' = set rs \<union> expired t now s" "set bs' = set bs - expired t now s" "thread_inv t s' rs' bs'"
    using res E c q rs bs by (auto simp: expire_result_def)
  ultimately show ?thesis using res er E by (simp add: expire_result_def)
qed

lemma expire_result_refl:
  "thread_inv t s rs bs \<Longrightarrow> expired t now s = {} \<Longrightarrow> expire_result t now s rs bs s rs bs"
  by (simp add: expire_result_def)

lemma expired_none:
  assumes "thread_inv t s rs bs" and "th_sleep_pqueue (s_thrs s t) = c # q"
    and "now < c_resume_time (s_ctxs s c)"
  shows "expired t now s = {}"
  using sleepq_front [OF thread_invD(3) [OF assms(1)]] assms(2,3) by (force simp: expired_def)

lemma expire_loop_round:
  assumes "th_sleep_pqueue (s_thrs s t) = c # q" and "c_resume_time (s_ctxs s c) \<le> now"
  defines "s0 \<equiv> upd_thread t (\<lambda>tp. tp\<lparr>th_sleep_pqueue :=
      butlast (pop_heap (sleep_priority_less (s_ctxs s)) (c # q))\<rparr>) s"
  shows "expire_loop (Suc fuel) t now s = (case c_prom (s_ctxs s c) of
      Some p \<Rightarrow> (case set_exception t p (Future_Error Future_Wait_Timeout) s0 of
                  Inl f \<Rightarrow> Inl f | Inr s1 \<Rightarrow> expire_loop fuel t now s1)
    | None \<Rightarrow> expire_loop fuel t now (on_thread t (ready_push_back c) s0))"
proof -
  have "s_ctxs s0 = s_ctxs s" by (simp add: s0_def upd_thread_def)
  then show ?thesis using assms(1,2) unfolding s0_def by (subst expire_loop.simps) (simp add: Let_def)
qed

lemma expire_round:
  assumes inv: "thread_inv t s rs bs" and q: "th_sleep_pqueue (s_thrs s t) = c # q"
    and exp: "c_resume_time (s_ctxs s c) \<le> now"
  obtains s1 rs1 bs1 where "\<And>fuel. expire_loop (Suc fuel) t now s = expire_loop fuel t now s1"
    "thread_inv t s1 rs1 bs1" "set (th_sleep_pqueue (s_thrs s1 t)) = set q"
    "sched_frame t (owned t s rs bs) s s1" "set rs1 = insert c (set rs)" "set bs1 = set bs - {c}"
    "\<And>d. d \<noteq> c \<Longrightarrow> c_prom (s_ctxs s1 d) = c_prom (s_ctxs s d)"
    "\<And>p. m_error (s_proms s1 p) = (if c_prom (s_ctxs s c) = Some p
         then Some (Future_Error Future_Wait_Timeout) else m_error (s_proms s p))"
proof -
  define s0 where "s0 = upd_thread t (\<lambda>tp. tp\<lparr>th_sleep_pqueue :=
      butlast (pop_heap (sleep_priority_less (s_ctxs s)) (c # q))\<rparr>) s"
  note round = expire_loop_round [OF q exp, folded s0_def]
  note P = pop_sleeper_inv [OF inv q, folded s0_def]
  note D = thread_invD [OF inv]
  have own: "owned t s0 rs bs \<subseteq> owned t s rs bs" "c \<in> owned t s rs bs"
    using P(2) q by (auto simp: owned_def)
  have c: "c \<notin> set rs" "c < s_next_ctx s0" using D(6,7) q P(3) by (auto simp: sched_frame_def)
  show thesis
  proof (cases "c_prom (s_ctxs s c)")
    case None
    then have "c \<notin> set bs" using D(8) by fastforce
    with c P(2,6) have no: "c \<notin> owned t s0 rs bs" by (simp add: owned_def)
    note B = push_back_inv [OF P(1) no c(2)]
    have "sched_frame t (owned t s rs bs) s (on_thread t (ready_push_back c) s0)"
      using own by (intro sched_frame_trans [OF P(3) sched_frame_mono [OF B(2)]]) simp
    moreover have "expire_loop (Suc fuel) t now s =
        expire_loop fuel t now (on_thread t (ready_push_back c) s0)" for fuel
      using round None by simp
    ultimately show thesis
      using that [of "on_thread t (ready_push_back c) s0" "rs @ [c]" bs] B(1,3,4,5) P(2,4,5) None
        \<open>c \<notin> set bs\<close> by simp
  next
    case (Some p)
    then have "c \<in> set bs" using D(10) [of c] q by simp
    then obtain as bs' where bs: "bs = as @ c # bs'" by (auto simp: in_set_conv_decomp)
    have dist: "distinct bs" using D(2) by (rule blocked_list_distinct)
    obtain s1 where X: "set_exception t p (Future_Error Future_Wait_Timeout) s0 = Inr s1"
      "thread_inv t s1 (c # rs) (as @ bs')" "sched_frame t (owned t s0 rs bs) s0 s1"
      "set (th_sleep_pqueue (s_thrs s1 t)) = set (th_sleep_pqueue (s_thrs s0 t)) - {c}"
      "\<And>d. d \<noteq> c \<Longrightarrow> c_prom (s_ctxs s1 d) = c_prom (s_ctxs s0 d)"
      "\<And>r. m_error (s_proms s1 r) =
         (if r = p then Some (Future_Error Future_Wait_Timeout) else m_error (s_proms s0 r))"
      using set_exception_waiter [OF P(1) bs] Some P(5) by metis
    have "sched_frame t (owned t s rs bs) s s1"
      by (rule sched_frame_trans [OF P(3) sched_frame_mono [OF X(3) own(1)]])
    moreover have "expire_loop (Suc fuel) t now s = expire_loop fuel t now s1" for fuel
      using round Some X(1) by simp
    moreover have "set (as @ bs') = set bs - {c}" using bs dist by auto
    ultimately show thesis
      using that [of s1 "c # rs" "as @ bs'"] X(2,4-6) P(2,4,5,6) Some by simp
  qed
qed

lemma expire_loop_result:
  assumes "thread_inv t s rs bs" and "length (th_sleep_pqueue (s_thrs s t)) \<le> fuel"
  shows "\<exists>s' rs' bs'. expire_loop fuel t now s = Inr s' \<and> expire_result t now s rs bs s' rs' bs'"
  using assms
proof (induction fuel arbitrary: s rs bs)
  case 0
  then have "expired t now s = {}" "expire_loop 0 t now s = Inr s"
    by (auto simp: expired_def expire_loop.simps [of 0])
  with 0 expire_result_refl show ?case by blast
next
  case (Suc fuel)
  note inv = Suc.prems(1)
  show ?case
  proof (cases "th_sleep_pqueue (s_thrs s t)")
    case Nil
    then have "expired t now s = {}" "expire_loop (Suc fuel) t now s = Inr s"
      by (auto simp: expired_def expire_loop.simps [of "Suc fuel"])
    with inv expire_result_refl show ?thesis by blast
  next
    case (Cons c q)
    show ?thesis
    proof (cases "c_resume_time (s_ctxs s c) \<le> now")
      case False
      then have "expired t now s = {}" "expire_loop (Suc fuel) t now s = Inr s"
        using expired_none [OF inv Cons] Cons by (auto simp: expire_loop.simps [of "Suc fuel"])
      with inv expire_result_refl show ?thesis by blast
    next
      case True
      from expire_round [OF inv Cons this] obtain s1 rs1 bs1 where
        X: "\<And>fuel. expire_loop (Suc fuel) t now s = expire_loop fuel t now s1" "thread_inv t s1 rs1 bs1"
        "set (th_sleep_pqueue (s_thrs s1 t)) = set q" "sched_frame t (owned t s rs bs) s s1"
        "set rs1 = insert c (set rs)" "set bs1 = set bs - {c}"
        "\<And>d. d \<noteq> c \<Longrightarrow> c_prom (s_ctxs s1 d) = c_prom (s_ctxs s d)"
        "\<And>p. m_error (s_proms s1 p) = (if c_prom (s_ctxs s c) = Some p
           then Some (Future_Error Future_Wait_Timeout) else m_error (s_proms s p))" by blast
      have d: "distinct (c # q)" using thread_invD(4) [OF inv] Cons by simp
      have "length (th_sleep_pqueue (s_thrs s1 t)) \<le> fuel"
        using X(3) d Cons Suc.prems(2) thread_invD(4) [OF X(2)]
        by (metis Suc_le_mono distinct.simps(2) distinct_card length_Cons)
      from Suc.IH [OF X(2) this] obtain s' rs' bs' where
        "expire_loop fuel t now s1 = Inr s'" and R: "expire_result t now s1 rs1 bs1 s' rs' bs'" by blast
      moreover have "expire_result t now s rs bs s' rs' bs'"
        using X(3) d Cons True by (intro expire_result_step [OF _ _ X(4-8) R]) (auto simp: expired_def)
      ultimately show ?thesis using X(1) by auto
    qed
  qed
qed

section \<open>check_for_timeouts\<close>

lemma next_timeout_le_sleepers:
  assumes "thread_inv t s rs bs" and "c \<in> set (th_sleep_pqueue (s_thrs s t))"
  shows "next_timeout t s \<le> c_resume_time (s_ctxs s c)"
proof -
  have "next_timeout t s \<le> c_resume_time (s_ctxs s (hd (th_sleep_pqueue (s_thrs s t))))"
    using assms(2) by (auto simp: next_timeout_def Let_def)
  also have "\<dots> \<le> c_resume_time (s_ctxs s c)"
    using thread_invD(3) [OF assms(1)] assms(2) by (rule sleepq_front)
  finally show ?thesis .
qed

lemma check_for_timeouts_expires:
  assumes "thread_inv t s rs bs"
  shows "\<exists>r s' rs' bs'. check_for_timeouts t now s = Inr (r, s') \<and>
           expire_result t now s rs bs s' rs' bs'"
proof -
  have "expired t now s = {}" if "now < next_timeout t s \<or> th_sleep_pqueue (s_thrs s t) = []"
    using that next_timeout_le_sleepers [OF assms] by (fastforce simp: expired_def)
  with expire_result_refl [OF assms] expire_loop_result [OF assms order_refl, of now]
  show ?thesis by (fastforce simp: check_for_timeouts_def)
qed

end
