(* ===== verification/CMT_Fiber_Inv.thy ===== *)
theory CMT_Fiber_Inv
  imports CMT_Fiber CMT_Sched_Inv
begin

text \<open>
  Correctness of the fiber switches of \<open>CMT_Fiber\<close> with respect to the thread invariant of
  \<open>CMT_Sched_Inv\<close>: which context runs next, that no context is lost, and that blocking calls
  leave the caller where the corresponding wake-up finds it.
\<close>

section \<open>Switching\<close>

text \<open>The invariant reads the lists of a thread, not which context it runs.\<close>

lemma thread_inv_set_current [simp]: "thread_inv t (set_current u c s) rs bs = thread_inv t s rs bs"
  by (auto simp: thread_inv_def set_current_def upd_thread_def ready_list_def blocked_list_def)

lemma set_current_simps [simp]:
  "s_ctxs (set_current t c s) = s_ctxs s" "s_proms (set_current t c s) = s_proms s"
  "s_tasks (set_current t c s) = s_tasks s" "s_next_prom (set_current t c s) = s_next_prom s"
  "s_next_ctx (set_current t c s) = s_next_ctx s"
  "th_current (s_thrs (set_current t c s) t) = Some c"
  "th_sleep_pqueue (s_thrs (set_current t c s) u) = th_sleep_pqueue (s_thrs s u)"
  "th_done (s_thrs (set_current t c s) u) = th_done (s_thrs s u)"
  by (auto simp: set_current_def upd_thread_def)

lemma thread_inv_new_context:
  assumes "thread_inv t s rs bs" and "new_context sf s = (c, s')"
  shows "thread_inv t s' rs bs" "c = s_next_ctx s" "c \<notin> owned t s rs bs" "s_next_ctx s' = Suc c"
    "s_ctxs s' c = make_context sf" "s_thrs s' = s_thrs s"
    "s_proms s' = s_proms s \<and> s_next_prom s' = s_next_prom s"
    "\<And>d. d \<noteq> c \<Longrightarrow> s_ctxs s' d = s_ctxs s d"
proof -
  note D = thread_invD [OF assms(1)]
  have s': "c = s_next_ctx s" "s' = s\<lparr>s_ctxs := (s_ctxs s)(c := make_context sf), s_next_ctx := Suc c\<rparr>"
    using assms(2) by (auto simp: new_context_def)
  then show "c = s_next_ctx s" "s_next_ctx s' = Suc c" "s_ctxs s' c = make_context sf"
    "s_thrs s' = s_thrs s" "s_proms s' = s_proms s \<and> s_next_prom s' = s_next_prom s" "\<And>d. d \<noteq> c \<Longrightarrow> s_ctxs s' d = s_ctxs s d" by auto
  show no: "c \<notin> owned t s rs bs" using D(7) s'(1) by (force simp: owned_def)
  have "ready_list (s_ctxs s', s_thrs s t) rs" "blocked_list (s_ctxs s', s_thrs s t) bs"
    using D(1,2) no s' by (auto simp: ready_list_def blocked_list_def owned_def)
  moreover have "is_heap (sleep_priority_less (s_ctxs s')) (th_sleep_pqueue (s_thrs s t))"
    using D(3) no s' by (subst sleep_heap_cong [of _ _ "s_ctxs s"]) (auto simp: owned_def)
  moreover have "s_ctxs s' d = s_ctxs s d" if "d \<in> set bs \<union> set (th_sleep_pqueue (s_thrs s t))" for d
    using that no s' by (auto simp: owned_def)
  ultimately show "thread_inv t s' rs bs"
    using D(4-10) s' by (auto simp: thread_inv_def inj_on_def less_Suc_eq)
qed

lemma ready_pop_front_fields:
  assumes "ready_pop_front (cs, tp) = (Some n, cs', tp')"
  shows "cs' = cs(n := (cs n)\<lparr>c_next := None\<rparr>)"
    "tp' = tp\<lparr>th_ready_head := c_next (cs n),
              th_ready_tail := (if c_next (cs n) = None then None else th_ready_tail tp)\<rparr>"
  using assms by (auto simp: ready_pop_front_def Let_def split: option.splits if_splits)

lemma pop_front_inv:
  assumes inv: "thread_inv t s (n # rs) bs" and pop: "ready_pop_front (s_ctxs s, s_thrs s t) = (r, cs, tp)"
  defines "s1 \<equiv> s\<lparr>s_ctxs := cs, s_thrs := (s_thrs s)(t := tp)\<rparr>"
  shows "r = Some n" "thread_inv t s1 rs bs" "n \<notin> owned t s1 rs bs" "s_proms s1 = s_proms s"
    "th_sleep_pqueue (s_thrs s1 t) = th_sleep_pqueue (s_thrs s t)" "th_current tp = th_current (s_thrs s t)"
    "\<And>d. c_prom (cs d) = c_prom (s_ctxs s d) \<and> c_resume_time (cs d) = c_resume_time (s_ctxs s d) \<and>
         c_canceled (cs d) = c_canceled (s_ctxs s d)"
proof -
  note D = thread_invD [OF inv]
  from ready_pop_front_list [OF D(1) pop] show r: "r = Some n" by simp
  from ready_pop_front_list [OF D(1) pop] have rl: "ready_list (cs, tp) rs" by simp
  note f = ready_pop_front_fields [OF pop [unfolded r]]
  have "blocked_list (cs, tp) bs"
    using D(2) blocked_list_cong [of cs "s_ctxs s" tp "s_thrs s t" bs] by (simp add: f)
  moreover have "is_heap (sleep_priority_less cs) (th_sleep_pqueue (s_thrs s t))"
    using D(3) by (subst sleep_heap_cong [of _ _ "s_ctxs s"]) (auto simp: f)
  moreover have "th_sleep_pqueue tp = th_sleep_pqueue (s_thrs s t)" "\<And>d. c_prom (cs d) = c_prom (s_ctxs s d)"
    by (simp_all add: f)
  ultimately show "thread_inv t s1 rs bs"
    using rl D(4-10) by (simp add: thread_inv_def s1_def inj_on_def)
  show "s_proms s1 = s_proms s" "th_current tp = th_current (s_thrs s t)"
    "th_sleep_pqueue (s_thrs s1 t) = th_sleep_pqueue (s_thrs s t)" by (simp_all add: s1_def f)
  with D(5,6) ready_list_distinct [OF D(1)] show "n \<notin> owned t s1 rs bs" by (simp add: owned_def)
  show "\<And>d. c_prom (cs d) = c_prom (s_ctxs s d) \<and> c_resume_time (cs d) = c_resume_time (s_ctxs s d) \<and>
         c_canceled (cs d) = c_canceled (s_ctxs s d)" by (simp add: f)
qed

text \<open>
  \<open>start_next_task\<close> from a running context \<open>c\<close> that is not ready itself: expired sleepers
  become ready first, then the front of the ready queue runs, or a new context when nothing is
  ready; with \<open>reschedule\<close>, \<open>c\<close> goes to the back of the queue.
\<close>

definition switched :: "thid \<Rightarrow> bool \<Rightarrow> cptr \<Rightarrow> cptr list \<Rightarrow> cptr list \<Rightarrow> cptr \<Rightarrow> 'v sys \<Rightarrow> bool" where
  "switched t reschedule c rs bs fresh s' =
     (let n = (if rs = [] then fresh else hd rs); rs' = tl rs @ (if reschedule then [c] else [])
      in th_current (s_thrs s' t) = Some n \<and> thread_inv t s' rs' bs \<and> n \<notin> owned t s' rs' bs \<and>
         n < s_next_ctx s' \<and> (rs = [] \<longrightarrow> c_start_func (s_ctxs s' n)))"

lemma reschedule_inv:
  assumes "thread_inv t s rs bs" and "c < s_next_ctx s" and "reschedule \<longrightarrow> c \<notin> owned t s rs bs"
  defines "s1 \<equiv> (if reschedule then on_thread t (ready_push_back c) s else s)"
  shows "thread_inv t s1 (rs @ (if reschedule then [c] else [])) bs"
    "s_proms s1 = s_proms s \<and> s_next_prom s1 = s_next_prom s" "s_next_ctx s1 = s_next_ctx s"
    "th_sleep_pqueue (s_thrs s1 t) = th_sleep_pqueue (s_thrs s t)"
    "\<And>d. c_prom (s_ctxs s1 d) = c_prom (s_ctxs s d) \<and> c_canceled (s_ctxs s1 d) = c_canceled (s_ctxs s d) \<and>
         c_resume_time (s_ctxs s1 d) = c_resume_time (s_ctxs s d)"
  using push_back_inv [OF assms(1) _ assms(2)] assms(1,3)
  by (auto simp: s1_def sched_frame_def)

lemma switch_after_timeouts:
  assumes ct: "check_for_timeouts t now s = Inr (r, s0)" and cur1: "ensure_current t s0 = (c, s1)"
    and inv1: "thread_inv t s1 rs1 bs1" and cur: "c < s_next_ctx s1"
    and c: "rs1 \<noteq> [] \<longrightarrow> hd rs1 \<noteq> c" "reschedule \<longrightarrow> c \<notin> owned t s1 rs1 bs1"
  obtains s' where "start_next_task_begin t reschedule now s = Inr (c, s')"
    "switched t reschedule c rs1 bs1 (s_next_ctx s1) s'"
    "s_proms s' = s_proms s1 \<and> s_next_prom s' = s_next_prom s1"
    "th_sleep_pqueue (s_thrs s' t) = th_sleep_pqueue (s_thrs s1 t)"
    "\<And>d. d < s_next_ctx s1 \<Longrightarrow> c_prom (s_ctxs s' d) = c_prom (s_ctxs s1 d) \<and>
         c_canceled (s_ctxs s' d) = c_canceled (s_ctxs s1 d) \<and>
         c_resume_time (s_ctxs s' d) = c_resume_time (s_ctxs s1 d)"
proof -
  show thesis
  proof (cases rs1)
    case (Cons n rs2)
    obtain x cs tp where pop: "ready_pop_front (s_ctxs s1, s_thrs s1 t) = (x, cs, tp)"
      by (metis prod_cases3)
    let ?s2 = "s1\<lparr>s_ctxs := cs, s_thrs := (s_thrs s1)(t := tp)\<rparr>"
    note P = pop_front_inv [OF inv1 [unfolded Cons] pop]
    have nc: "c \<noteq> n" using c(1) Cons by auto
    have lt: "c < s_next_ctx ?s2" using cur by simp
    have no: "reschedule \<longrightarrow> c \<notin> owned t ?s2 rs2 bs1" using c Cons P(5) by (auto simp: owned_def)
    have "n < s_next_ctx s1" using thread_invD(7) [OF inv1] Cons by simp
    with reschedule_inv [OF P(2) lt no] nc P(3) show thesis
      using that [of "set_current t n (if reschedule then on_thread t (ready_push_back c) ?s2 else ?s2)"]
        ct cur1 pop P(1,5,7) Cons
      by (simp add: start_next_task_begin_def switched_def owned_def)
  next
    case Nil
    let ?s2 = "if reschedule then on_thread t (ready_push_back c) s1 else s1"
    have Q: "thread_inv t ?s2 (if reschedule then [c] else []) bs1"
      "s_proms ?s2 = s_proms s1 \<and> s_next_prom ?s2 = s_next_prom s1"
      "s_next_ctx ?s2 = s_next_ctx s1" "th_sleep_pqueue (s_thrs ?s2 t) = th_sleep_pqueue (s_thrs s1 t)"
      "\<And>d. c_prom (s_ctxs ?s2 d) = c_prom (s_ctxs s1 d) \<and> c_canceled (s_ctxs ?s2 d) = c_canceled (s_ctxs s1 d) \<and>
         c_resume_time (s_ctxs ?s2 d) = c_resume_time (s_ctxs s1 d)"
      using reschedule_inv [OF inv1 cur c(2)] Nil by auto
    obtain f s3 where nc: "new_context True ?s2 = (f, s3)" by fastforce
    note N = thread_inv_new_context [OF Q(1) nc]
    have pop: "ready_pop_front (s_ctxs s1, s_thrs s1 t) = (None, s_ctxs s1, s_thrs s1 t)"
      using thread_invD(1) [OF inv1] Nil by (intro ready_pop_front_empty) simp
    have "start_next_task_begin t reschedule now s = Inr (c, set_current t f s3)"
      using ct cur1 pop nc by (simp add: start_next_task_begin_def)
    moreover have "c_prom (s_ctxs s3 d) = c_prom (s_ctxs s1 d) \<and> c_canceled (s_ctxs s3 d) = c_canceled (s_ctxs s1 d) \<and>
         c_resume_time (s_ctxs s3 d) = c_resume_time (s_ctxs s1 d)"
      if "d < s_next_ctx s1" for d using N(2) N(8) [of d] Q(3,5) that by simp
    ultimately show thesis
      using that [of "set_current t f s3"] N(1-7) Q(2-5) Nil
      by (simp add: switched_def make_context_def owned_def)
  qed
qed

lemma start_next_task_switches:
  assumes inv: "thread_inv t s rs bs" and cur: "th_current (s_thrs s t) = Some c" "c < s_next_ctx s"
    and c: "c \<notin> set rs" "c \<notin> expired t now s" "reschedule \<longrightarrow> c \<notin> owned t s rs bs"
  obtains s1 rs1 bs1 s' where "expire_result t now s rs bs s1 rs1 bs1"
    "start_next_task_begin t reschedule now s = Inr (c, s')"
    "switched t reschedule c rs1 bs1 (s_next_ctx s) s'"
    "s_proms s' = s_proms s1 \<and> s_next_prom s' = s_next_prom s1"
    "th_sleep_pqueue (s_thrs s' t) = th_sleep_pqueue (s_thrs s1 t)"
    "\<And>d. d < s_next_ctx s \<Longrightarrow> c_prom (s_ctxs s' d) = c_prom (s_ctxs s1 d) \<and>
         c_canceled (s_ctxs s' d) = c_canceled (s_ctxs s1 d) \<and>
         c_resume_time (s_ctxs s' d) = c_resume_time (s_ctxs s1 d)"
proof -
  obtain r s1 rs1 bs1 where ct: "check_for_timeouts t now s = Inr (r, s1)"
    and R: "expire_result t now s rs bs s1 rs1 bs1" using check_for_timeouts_expires [OF inv] by blast
  then have inv1: "thread_inv t s1 rs1 bs1" and fr: "sched_frame t (owned t s rs bs) s s1"
    and "c \<notin> set rs1" using c(1,2) by (auto simp: expire_result_def)
  then have crs: "rs1 \<noteq> [] \<longrightarrow> hd rs1 \<noteq> c" by (cases rs1) auto
  have nx: "s_next_ctx s1 = s_next_ctx s" and cur1: "ensure_current t s1 = (c, s1)"
    using fr cur by (auto simp: sched_frame_def ensure_current_def)
  have own: "reschedule \<longrightarrow> c \<notin> owned t s1 rs1 bs1"
    using c(3) R by (auto simp: expire_result_def owned_def expired_def)
  have lt: "c < s_next_ctx s1" using cur nx by simp
  show thesis
    by (rule switch_after_timeouts [OF ct cur1 inv1 lt crs own, unfolded nx]) (rule that [OF R]; assumption)
qed

text \<open>When no sleeper is due, \<open>check_for_timeouts\<close> changes nothing.\<close>

lemma check_for_timeouts_idle:
  assumes "thread_inv t s rs bs" and "expired t now s = {}"
  shows "\<exists>r. check_for_timeouts t now s = Inr (r, s)"
proof -
  have "expire_loop fuel t now s = Inr s" for fuel
    using assms(2) by (subst expire_loop.simps) (auto simp: expired_def split: list.split)
  then show ?thesis by (simp add: check_for_timeouts_def)
qed

text \<open>A switch on a thread without sleepers leaves the other threads alone.\<close>

lemma switch_other_threads:
  assumes "th_sleep_pqueue (s_thrs s t) = []" and "start_next_task_begin t reschedule now s = Inr (c, s')" and "u \<noteq> t"
  shows "s_thrs s' u = s_thrs s u"
proof -
  have "\<exists>r. check_for_timeouts t now s = Inr (r, s)"
    using assms(1) by (simp add: check_for_timeouts_def expire_loop.simps)
  then show ?thesis using assms(2,3)
    by (auto simp: start_next_task_begin_def ensure_current_def new_context_def set_current_def upd_thread_def
        on_thread_def Let_def split: option.splits prod.splits if_splits)
qed

section \<open>Going to sleep and blocking\<close>

text \<open>
  A context that is in none of the lists enters the heap of sleepers, the blocked list, or both;
  \<open>x\<close> is the context object as the call leaves it, and \<open>asleep\<close> and \<open>blk\<close> say where it goes.
\<close>

definition park :: "thid \<Rightarrow> cptr \<Rightarrow> cmt_context \<Rightarrow> bool \<Rightarrow> bool \<Rightarrow> 'v sys \<Rightarrow> 'v sys" where
  "park t c x asleep blk s =
     (let cs = (s_ctxs s)(c := x); tp = s_thrs s t;
          q = (if asleep then push_heap (sleep_priority_less cs) (th_sleep_pqueue tp @ [c])
               else th_sleep_pqueue tp)
      in (if blk then on_thread t (add_to_blocked c) else id)
           (s\<lparr>s_ctxs := cs, s_thrs := (s_thrs s)(t := tp\<lparr>th_sleep_pqueue := q\<rparr>)\<rparr>))"

lemma park_fields:
  "s_proms (park t c x asleep blk s) = s_proms s" "s_next_ctx (park t c x asleep blk s) = s_next_ctx s"
  "th_current (s_thrs (park t c x asleep blk s) t) = th_current (s_thrs s t)"
  "d \<noteq> c \<Longrightarrow> s_ctxs (park t c x asleep blk s) d = s_ctxs s d"
  "c_prom (s_ctxs (park t c x asleep blk s) c) = c_prom x"
  "c_resume_time (s_ctxs (park t c x asleep blk s) c) = c_resume_time x"
  "set (th_sleep_pqueue (s_thrs (park t c x asleep blk s) t)) =
     set (th_sleep_pqueue (s_thrs s t)) \<union> (if asleep then {c} else {})"
  by (auto simp: park_def on_thread_def add_to_blocked_def Let_def sleepq.set_push)

lemma park_inv:
  assumes inv: "thread_inv t s rs bs" and c: "c \<notin> owned t s rs bs" "c < s_next_ctx s"
    and prom: "if blk then \<exists>p. c_prom x = Some p \<and> m_blocked_thread (s_proms s p) = Some t \<and>
                               (\<forall>d \<in> set bs. c_prom (s_ctxs s d) \<noteq> Some p)
               else c_prom x = None"
  shows "thread_inv t (park t c x asleep blk s) rs (if blk then c # bs else bs)"
proof -
  note D = thread_invD [OF inv]
  let ?cs = "(s_ctxs s)(c := x)" and ?q = "th_sleep_pqueue (s_thrs s t)"
  define q where "q = (if asleep then push_heap (sleep_priority_less ?cs) (?q @ [c]) else ?q)"
  define s1 where "s1 = s\<lparr>s_ctxs := ?cs, s_thrs := (s_thrs s)(t := (s_thrs s t)\<lparr>th_sleep_pqueue := q\<rparr>)\<rparr>"
  have no: "c \<notin> set rs" "c \<notin> set bs" "c \<notin> set ?q" using c(1) by (auto simp: owned_def)
  have "is_heap (sleep_priority_less ?cs) ?q"
    using D(3) no(3) by (subst sleep_heap_cong [of _ _ "s_ctxs s"]) auto
  then have hp: "is_heap (sleep_priority_less ?cs) q" by (simp add: q_def sleepq.push_heap)
  have dq: "distinct q" and sq: "set q = set ?q \<union> (if asleep then {c} else {})"
    using D(4) no(3) sleepq.push_mset [of ?cs ?q c] mset_eq_imp_distinct_iff [of "push_heap (sleep_priority_less ?cs) (?q @ [c])" "?q @ [c]"]
    by (auto simp: q_def sleepq.set_push)
  have rl: "ready_list (?cs, (s_thrs s t)\<lparr>th_sleep_pqueue := q\<rparr>) rs"
    using D(1) no by (simp add: ready_list_def)
  have bl: "blocked_list (?cs, (s_thrs s t)\<lparr>th_sleep_pqueue := q\<rparr>) bs"
    using D(2) no by (simp add: blocked_list_def)
  show ?thesis
  proof (cases blk)
    case False
    then have "park t c x asleep blk s = s1" by (simp add: park_def s1_def q_def Let_def)
    then show ?thesis using False rl bl hp dq sq D(5-10) no c prom
      by (auto simp: thread_inv_def s1_def inj_on_def)
  next
    case True
    let ?tp = "(s_thrs s t)\<lparr>th_sleep_pqueue := q\<rparr>"
    let ?cs' = "?cs(c := x\<lparr>c_next_blocked := th_blocked (s_thrs s t)\<rparr>)"
    have s': "park t c x asleep blk s =
        s\<lparr>s_ctxs := ?cs', s_thrs := (s_thrs s)(t := ?tp\<lparr>th_blocked := Some c\<rparr>)\<rparr>"
      using True by (simp add: park_def q_def Let_def on_thread_def add_to_blocked_def)
    have "blocked_list (?cs', ?tp\<lparr>th_blocked := Some c\<rparr>) (c # bs)"
      using add_to_blocked_list [OF bl no(2)] by (simp add: add_to_blocked_def)
    moreover have "ready_list (?cs', ?tp\<lparr>th_blocked := Some c\<rparr>) rs"
      using D(1) no by (simp add: ready_list_def)
    moreover have "is_heap (sleep_priority_less ?cs') q"
      using hp by (subst sleep_heap_cong [of _ _ ?cs]) auto
    ultimately show ?thesis using True dq sq D(5-10) no c prom
      unfolding s' by (auto simp: thread_inv_def inj_on_def)
  qed
qed

text \<open>
  A parked context stays parked across the switch as long as its time has not come: whoever runs
  next, the invariant holds with the context still where it was put.
\<close>

lemma park_switch:
  assumes inv: "thread_inv t s rs bs" and cur: "th_current (s_thrs s t) = Some c"
    and c: "c \<notin> owned t s rs bs" "c < s_next_ctx s"
    and prom: "if blk then \<exists>p. c_prom x = Some p \<and> m_blocked_thread (s_proms s p) = Some t \<and>
                               (\<forall>d \<in> set bs. c_prom (s_ctxs s d) \<noteq> Some p)
               else c_prom x = None"
    and time: "asleep \<Longrightarrow> now < c_resume_time x"
  obtains s' rs' bs' where
    "start_next_task_begin t False now (park t c x asleep blk s) = Inr (c, s')"
    "thread_inv t s' rs' bs'" "c \<in> set bs' \<longleftrightarrow> blk" "c \<notin> set rs'"
    "c \<in> set (th_sleep_pqueue (s_thrs s' t)) \<longleftrightarrow> asleep" "c_prom (s_ctxs s' c) = c_prom x"
    "th_current (s_thrs s' t) \<noteq> Some c" "\<exists>n. th_current (s_thrs s' t) = Some n"
    "c_resume_time (s_ctxs s' c) = c_resume_time x"
proof -
  let ?s = "park t c x asleep blk s" and ?bs = "if blk then c # bs else bs"
  have no: "c \<notin> set rs" "c \<notin> set bs" "c \<notin> set (th_sleep_pqueue (s_thrs s t))"
    using c(1) by (auto simp: owned_def)
  have exp: "c \<notin> expired t now ?s" using time no by (auto simp: expired_def park_fields)
  have cur': "th_current (s_thrs ?s t) = Some c" "c < s_next_ctx ?s" using cur c by (simp_all add: park_fields)
  obtain s1 rs1 bs1 s' where R: "expire_result t now ?s rs ?bs s1 rs1 bs1"
    and go: "start_next_task_begin t False now ?s = Inr (c, s')"
    and sw: "switched t False c rs1 bs1 (s_next_ctx ?s) s'"
    and q: "th_sleep_pqueue (s_thrs s' t) = th_sleep_pqueue (s_thrs s1 t)"
    and pr: "\<And>d. d < s_next_ctx ?s \<Longrightarrow> c_prom (s_ctxs s' d) = c_prom (s_ctxs s1 d) \<and>
         c_canceled (s_ctxs s' d) = c_canceled (s_ctxs s1 d) \<and>
         c_resume_time (s_ctxs s' d) = c_resume_time (s_ctxs s1 d)"
    by (rule start_next_task_switches [OF park_inv [OF inv c prom] cur' no(1) exp, of False])
      (simp, blast intro: that)
  have "c \<in> set bs1 \<longleftrightarrow> blk" "c \<notin> set rs1" "c \<in> set (th_sleep_pqueue (s_thrs s1 t)) \<longleftrightarrow> asleep"
    using R exp no by (auto simp: expire_result_def park_fields)
  moreover have "c_prom (s_ctxs s1 c) = c_prom x"
    using R exp by (simp add: expire_result_def park_fields)
  moreover have "thread_inv t s' (tl rs1) bs1" "th_current (s_thrs s' t) \<noteq> Some c"
    "\<exists>n. th_current (s_thrs s' t) = Some n"
    using sw calculation(2) cur'(2) by (auto simp: switched_def Let_def split: if_splits)
  moreover have "c_resume_time (s_ctxs s1 c) = c_resume_time x"
    using R by (simp add: expire_result_def sched_frame_def park_fields)
  moreover have "c \<notin> set (tl rs1)" using calculation(2) by (cases rs1) auto
  ultimately show thesis using that [OF go, of "tl rs1" bs1] q pr [OF cur'(2)] by simp
qed

lemma wait_parks:
  assumes "th_current (s_thrs s t) = Some c" and "\<not> promise_ready (s_proms s p)" and "now1 \<le> timeout"
  defines "x \<equiv> (s_ctxs s c)\<lparr>c_prom := Some p, c_resume_time :=
      (if timeout \<noteq> time_max then timeout else c_resume_time (s_ctxs s c))\<rparr>"
  shows "thread_wait_begin t p timeout now1 now2 s =
    (case start_next_task_begin t False now2 (park t c x (timeout \<noteq> time_max) True s) of
       Inl f \<Rightarrow> Inl f | Inr (prev, s) \<Rightarrow> Inr (Switched prev, s))"
proof -
  have "on_thread t (add_to_blocked c)
      (if timeout \<noteq> time_max
       then sleep_push t c (upd_ctx c (\<lambda>c. c\<lparr>c_resume_time := timeout\<rparr>) (upd_ctx c (add_blocking_promise p) s))
       else upd_ctx c (add_blocking_promise p) s) = park t c x (timeout \<noteq> time_max) True s"
    by (simp add: park_def x_def upd_ctx_def sleep_push_def upd_thread_def on_thread_def
        add_to_blocked_def add_blocking_promise_def Let_def)
  then show ?thesis using assms(1-3) by (simp add: thread_wait_begin_def ensure_current_def Let_def)
qed

lemma sleep_parks:
  fixes tm :: time_point
  assumes "th_current (s_thrs s t) = Some c" and "\<not> th_done (s_thrs s t)"
  defines "x \<equiv> (s_ctxs s c)\<lparr>c_resume_time := tm, c_prom := None\<rparr>"
  shows "sleep_until_begin t tm now s =
    (case start_next_task_begin t False now (park t c x True False s) of
       Inl f \<Rightarrow> Inl f | Inr (prev, s) \<Rightarrow> Inr (Switched prev, s))"
proof -
  have "sleep_push t c (upd_ctx c clear_blocking_promises (upd_ctx c (\<lambda>c. c\<lparr>c_resume_time := tm\<rparr>) s)) =
      park t c x True False s"
    by (simp add: park_def x_def upd_ctx_def sleep_push_def upd_thread_def clear_blocking_promises_def Let_def)
  then show ?thesis using assms(1,2) by (simp add: sleep_until_begin_def ensure_current_def Let_def)
qed

text \<open>The entry of \<open>promise<T>::wait\<close>: a result that is there already, or the blocking call.\<close>

lemma promise_wait_ready:
  assumes "promise_ready (s_proms s p)"
  shows "promise_wait_begin t p timeout now1 now2 s =
    Inr (case m_error (s_proms s p) of Some e \<Rightarrow> Inl (Threw e) | None \<Rightarrow> Inr (the (m_value (s_proms s p))), s)"
  using assms by (auto simp: promise_wait_begin_def wait_check_def upd_prom_def promise_ready_def split: option.split)

lemma promise_wait_unready:
  assumes "\<not> promise_ready (s_proms s p)"
  shows "promise_wait_begin t p timeout now1 now2 s =
    (case thread_wait_begin t p timeout now1 now2 (upd_prom p (enqueue_thread t) s) of
       Inl f \<Rightarrow> Inl f | Inr (c, s) \<Rightarrow> Inr (Inl c, s))"
  using assms by (simp add: promise_wait_begin_def wait_check_def upd_prom_def promise_ready_def Let_def)

lemma thread_wait_late:
  assumes "\<not> promise_ready (s_proms s p)" and "timeout < now1"
  shows "thread_wait_begin t p timeout now1 now2 s = Inr (Threw (Future_Error Future_Wait_Timeout), s)"
  using assms by (simp add: thread_wait_begin_def)

lemma enqueue_thread_prom [simp]:
  "promise_ready (s_proms (upd_prom p (enqueue_thread t) s) q) = promise_ready (s_proms s q)"
  "m_blocked_thread (s_proms (upd_prom p (enqueue_thread t) s) p) = Some t"
  by (simp_all add: upd_prom_def promise_ready_def enqueue_thread_def)

text \<open>Registering the calling thread in a promise nobody of this thread waits for.\<close>

lemma thread_inv_enqueue_thread:
  "thread_inv t s rs bs \<Longrightarrow> (\<forall>d \<in> set bs. c_prom (s_ctxs s d) \<noteq> Some p) \<Longrightarrow>
   thread_inv t (upd_prom p f s) rs bs"
  by (fastforce simp: thread_inv_def upd_prom_def)

section \<open>Waking with a value\<close>

lemma set_value_waiter:
  assumes inv: "thread_inv t s rs bs" and bs: "bs = as @ c # bs'" and c: "c_prom (s_ctxs s c) = Some p"
    and ok: "m_error (s_proms s p) = None"
  obtains s' where "set_value t p v s = Inr s'" "thread_inv t s' (c # rs) (as @ bs')"
    "s_proms s' = (s_proms s)(p := (s_proms s p)\<lparr>m_value := Some v\<rparr>)"
    "set (th_sleep_pqueue (s_thrs s' t)) = set (th_sleep_pqueue (s_thrs s t)) - {c}"
    "th_current (s_thrs s' t) = th_current (s_thrs s t)" "s_next_ctx s' = s_next_ctx s"
    "\<And>d. c_canceled (s_ctxs s' d) = c_canceled (s_ctxs s d) \<and>
         c_resume_time (s_ctxs s' d) = c_resume_time (s_ctxs s d)"
proof -
  let ?s = "upd_prom p (\<lambda>_. (s_proms s p)\<lparr>m_value := Some v\<rparr>) s"
  have bt: "m_blocked_thread (s_proms s p) = Some t" using thread_invD(8) [OF inv, of c] bs c by auto
  have inv': "thread_inv t ?s rs bs" using inv by (simp add: thread_inv_upd_prom)
  have rdy: "promise_ready (s_proms ?s p)" by (simp add: upd_prom_def promise_ops)
  have c': "c_prom (s_ctxs ?s c) = Some p" using c by (simp add: upd_prom_def)
  have "set_value t p v s = thread_notify t t p ?s"
    using bt ok by (simp add: set_value_def promise_notify_def upd_prom_def promise_ops)
  moreover obtain s' where "thread_notify t t p ?s = Inr s'" "thread_inv t s' (c # rs) (as @ bs')"
    "sched_frame t (owned t ?s rs bs) ?s s'" "s_proms s' = s_proms ?s"
    "set (th_sleep_pqueue (s_thrs s' t)) = set (th_sleep_pqueue (s_thrs ?s t)) - {c}"
    by (rule notify_waiter [OF inv' rdy bs c']) (rule that; assumption)
  ultimately show thesis by (intro that [of s']) (auto simp: upd_prom_def sched_frame_def)
qed

text \<open>What the waiter gets when its fiber is entered again.\<close>

lemma wait_end_result:
  assumes "\<not> c_canceled (s_ctxs s c)"
  shows "fst (promise_wait_end t c p s) = fst (wait_finish (s_proms s p))"
  using assms
  by (simp add: promise_wait_end_def thread_wait_end_def start_next_task_end_def upd_ctx_def
      remove_blocking_promise_def Let_def split: prod.splits)

lemma wait_end_canceled:
  assumes "c_canceled (s_ctxs s c)"
  shows "fst (promise_wait_end t c p s) = Inl (Future_Error Task_Canceled)"
  using assms by (simp add: promise_wait_end_def thread_wait_end_def start_next_task_end_def)

end
