(* ===== verification/CMT_Reach.thy ===== *)
theory CMT_Reach
  imports CMT_Fiber_Inv
begin

text \<open>
  What each scheduler operation of a thread does to the invariant of \<open>CMT_Sched_Inv\<close> extended by
  the running context: the invariant is kept, no context of the thread is lost, the contexts it
  gains are new, and the data of the other threads stays as it is.  \<open>CMT_Runs\<close> puts these together
  for whole histories of the process.
\<close>

section \<open>The scheduler invariant with the running context\<close>

text \<open>The contexts of a thread: the ones in its lists and the one that runs.\<close>

definition contexts :: "thid \<Rightarrow> 'v sys \<Rightarrow> cptr list \<Rightarrow> cptr list \<Rightarrow> cptr set" where
  "contexts t s rs bs = owned t s rs bs \<union> set_option (th_current (s_thrs s t))"

definition sched_ok :: "thid \<Rightarrow> 'v sys \<Rightarrow> cptr list \<Rightarrow> cptr list \<Rightarrow> bool" where
  "sched_ok t s rs bs =
     (thread_inv t s rs bs \<and>
      (\<forall>c. th_current (s_thrs s t) = Some c \<longrightarrow> c \<notin> owned t s rs bs \<and> c < s_next_ctx s) \<and>
      (\<forall>c \<in> set bs. \<forall>p. c_prom (s_ctxs s c) = Some p \<longrightarrow> p < s_next_prom s))"

lemma sched_ok_inv: "sched_ok t s rs bs \<Longrightarrow> thread_inv t s rs bs"
  by (simp add: sched_ok_def)

lemma contexts_allocated: "sched_ok t s rs bs \<Longrightarrow> c \<in> contexts t s rs bs \<Longrightarrow> c < s_next_ctx s"
  using thread_invD(7) [OF sched_ok_inv, of t s rs bs c] by (auto simp: contexts_def owned_def sched_ok_def)

section \<open>What a thread does to the rest of the process\<close>

text \<open>The fields of a thread and of a context that the invariant reads.\<close>

definition same_sched :: "thread_private \<Rightarrow> thread_private \<Rightarrow> bool" where
  "same_sched tp tp' =
     (th_current tp' = th_current tp \<and> th_ready_head tp' = th_ready_head tp \<and>
      th_ready_tail tp' = th_ready_tail tp \<and> th_blocked tp' = th_blocked tp \<and>
      th_sleep_pqueue tp' = th_sleep_pqueue tp)"

definition same_links :: "cmt_context \<Rightarrow> cmt_context \<Rightarrow> bool" where
  "same_links c c' =
     (c_next c' = c_next c \<and> c_next_blocked c' = c_next_blocked c \<and> c_prom c' = c_prom c \<and>
      c_resume_time c' = c_resume_time c)"

lemma same_refl [simp]: "same_sched tp tp" "same_links c c"
  by (simp_all add: same_sched_def same_links_def)

lemma same_trans:
  "same_sched tp tp1 \<Longrightarrow> same_sched tp1 tp2 \<Longrightarrow> same_sched tp tp2"
  "same_links c c1 \<Longrightarrow> same_links c1 c2 \<Longrightarrow> same_links c c2"
  by (simp_all add: same_sched_def same_links_def)

text \<open>
  A step of thread \<open>t\<close> that writes links of contexts of \<open>C\<close> and of new contexts only, leaves the
  scheduling data of the other threads alone, and changes the waiter of promises of \<open>P\<close> and of new
  promises only.
\<close>

definition away :: "thid \<Rightarrow> cptr set \<Rightarrow> pptr set \<Rightarrow> 'v sys \<Rightarrow> 'v sys \<Rightarrow> bool" where
  "away t C P s s' =
     (s_next_ctx s \<le> s_next_ctx s' \<and> s_next_prom s \<le> s_next_prom s' \<and>
      (\<forall>u. u \<noteq> t \<longrightarrow> same_sched (s_thrs s u) (s_thrs s' u)) \<and>
      (\<forall>c < s_next_ctx s. c \<notin> C \<longrightarrow> same_links (s_ctxs s c) (s_ctxs s' c)) \<and>
      (\<forall>p < s_next_prom s. p \<notin> P \<longrightarrow> m_blocked_thread (s_proms s' p) = m_blocked_thread (s_proms s p)))"

lemma away_refl [simp]: "away t C P s s"
  by (simp add: away_def)

lemma away_trans:
  assumes "away t C P s s1" and "away t C' P s1 s2" and "C' \<subseteq> C \<union> {s_next_ctx s..}"
  shows "away t C P s s2"
proof -
  note A = assms(1) [unfolded away_def] and B = assms(2) [unfolded away_def]
  have "same_sched (s_thrs s u) (s_thrs s2 u)" if "u \<noteq> t" for u
    using A B that same_trans(1) by blast
  moreover have "same_links (s_ctxs s c) (s_ctxs s2 c)" if "c < s_next_ctx s" "c \<notin> C" for c
  proof -
    have "c \<notin> C'" "c < s_next_ctx s1" using assms(3) that A by auto
    with A B that same_trans(2) show ?thesis by blast
  qed
  moreover have "m_blocked_thread (s_proms s2 p) = m_blocked_thread (s_proms s p)"
    if "p < s_next_prom s" "p \<notin> P" for p
  proof -
    have "p < s_next_prom s1" using that(1) A by auto
    with A B that show ?thesis by simp
  qed
  ultimately show ?thesis using A B unfolding away_def by auto
qed

lemma away_mono: "away t C P s s' \<Longrightarrow> C \<subseteq> D \<Longrightarrow> P \<subseteq> Q \<Longrightarrow> away t D Q s s'"
  unfolding away_def by blast

lemma away_sched_frame: "sched_frame t A s s' \<Longrightarrow> away t A {} s s'"
  by (auto simp: away_def sched_frame_def)

text \<open>A thread keeps its invariant and its lists when nothing that the invariant reads changes.\<close>

lemma sched_ok_cong:
  assumes ok: "sched_ok t s rs bs" and th: "same_sched (s_thrs s t) (s_thrs s' t)"
    and cs: "\<And>c. c \<in> owned t s rs bs \<Longrightarrow> same_links (s_ctxs s c) (s_ctxs s' c)"
    and n: "s_next_ctx s \<le> s_next_ctx s'" "s_next_prom s \<le> s_next_prom s'"
    and pr: "\<And>c p. c \<in> set bs \<Longrightarrow> c_prom (s_ctxs s c) = Some p \<Longrightarrow>
        m_blocked_thread (s_proms s' p) = m_blocked_thread (s_proms s p)"
  shows "sched_ok t s' rs bs" "contexts t s' rs bs = contexts t s rs bs"
proof -
  let ?q = "th_sleep_pqueue (s_thrs s t)"
  note D = thread_invD [OF sched_ok_inv [OF ok]]
  have q: "th_sleep_pqueue (s_thrs s' t) = ?q" "th_current (s_thrs s' t) = th_current (s_thrs s t)"
    using th by (simp_all add: same_sched_def)
  have own: "owned t s' rs bs = owned t s rs bs" by (simp add: owned_def q)
  then show "contexts t s' rs bs = contexts t s rs bs" by (simp add: contexts_def q)
  have rl: "ready_list (s_ctxs s', s_thrs s' t) rs" "blocked_list (s_ctxs s', s_thrs s' t) bs"
    using D(1,2) th cs chain_cong [of rs "\<lambda>c. c_next (s_ctxs s' c)" "\<lambda>c. c_next (s_ctxs s c)"]
      chain_cong [of bs "\<lambda>c. c_next_blocked (s_ctxs s' c)" "\<lambda>c. c_next_blocked (s_ctxs s c)"]
    by (simp_all add: ready_list_def blocked_list_def same_sched_def same_links_def owned_def)
  moreover have "is_heap (sleep_priority_less (s_ctxs s')) ?q"
    using D(3) cs by (subst sleep_heap_cong [of _ _ "s_ctxs s"]) (auto simp: same_links_def owned_def)
  moreover have c: "c_prom (s_ctxs s' c) = c_prom (s_ctxs s c)" if "c \<in> set bs \<union> set ?q" for c
    using cs [of c] that by (auto simp: same_links_def owned_def)
  moreover have "\<exists>p. c_prom (s_ctxs s c) = Some p \<and> m_blocked_thread (s_proms s' p) = Some t" if "c \<in> set bs" for c
    using D(8) [OF that] pr [OF that] by auto
  moreover have "c < s_next_ctx s'" if "c \<in> set rs \<union> set bs \<union> set ?q" for c
    using D(7) [OF that] n(1) by simp
  ultimately have "thread_inv t s' rs bs" using D(4-6,9,10)
    by (auto simp: thread_inv_def inj_on_def q)
  then show "sched_ok t s' rs bs" using ok n c q(2) own by (auto simp: sched_ok_def)
qed

text \<open>
  What every operation of thread \<open>t\<close> is shown to do: the invariant holds with the lists \<open>rs'\<close> and
  \<open>bs'\<close>, no context of the thread is lost, the contexts gained are new, and the other threads see
  nothing of it.
\<close>

definition moved :: "thid \<Rightarrow> pptr set \<Rightarrow> 'v sys \<Rightarrow> cptr list \<Rightarrow> cptr list \<Rightarrow> 'v sys \<Rightarrow> cptr list \<Rightarrow> cptr list \<Rightarrow> bool" where
  "moved t P s rs bs s' rs' bs' =
     (sched_ok t s' rs' bs' \<and> contexts t s rs bs \<subseteq> contexts t s' rs' bs' \<and>
      contexts t s' rs' bs' \<subseteq> contexts t s rs bs \<union> {s_next_ctx s..} \<and> away t (contexts t s rs bs) P s s')"

definition moves :: "thid \<Rightarrow> pptr set \<Rightarrow> 'v sys \<Rightarrow> cptr list \<Rightarrow> cptr list \<Rightarrow> 'v sys \<Rightarrow> bool" where
  "moves t P s rs bs s' = (\<exists>rs' bs'. moved t P s rs bs s' rs' bs')"

lemma movesI: "moved t P s rs bs s' rs' bs' \<Longrightarrow> moves t P s rs bs s'"
  by (auto simp: moves_def)

lemma moved_ok: "moved t P s rs bs s' rs' bs' \<Longrightarrow> sched_ok t s' rs' bs'"
  by (simp add: moved_def)

lemma moved_refl: "sched_ok t s rs bs \<Longrightarrow> moved t P s rs bs s rs bs"
  by (simp add: moved_def)

lemma moved_trans:
  assumes "moved t P s rs bs s1 rs1 bs1" and "moved t P s1 rs1 bs1 s2 rs2 bs2"
  shows "moved t P s rs bs s2 rs2 bs2"
proof -
  have "{s_next_ctx s1..} \<subseteq> {s_next_ctx s..}" using assms(1) by (simp add: moved_def away_def)
  moreover have "away t (contexts t s rs bs) P s s2"
    using assms by (simp add: moved_def) (metis away_trans)
  moreover have "contexts t s2 rs2 bs2 \<subseteq> contexts t s1 rs1 bs1 \<union> {s_next_ctx s1..}"
    "contexts t s1 rs1 bs1 \<subseteq> contexts t s rs bs \<union> {s_next_ctx s..}" using assms by (simp_all add: moved_def)
  ultimately show ?thesis using assms by (auto simp: moved_def)
qed

lemma moved_mono: "moved t P s rs bs s' rs' bs' \<Longrightarrow> P \<subseteq> Q \<Longrightarrow> moved t Q s rs bs s' rs' bs'"
  by (auto simp: moved_def intro: away_mono)

text \<open>A step that changes nothing the invariant reads, except the waiter of promises of \<open>P\<close>.\<close>

lemma moved_frame:
  assumes ok: "sched_ok t s rs bs" and "\<And>u. same_sched (s_thrs s u) (s_thrs s' u)"
    and "\<And>c. same_links (s_ctxs s c) (s_ctxs s' c)" "s_next_ctx s' = s_next_ctx s" "s_next_prom s \<le> s_next_prom s'"
    and pr: "\<And>p. p < s_next_prom s \<Longrightarrow> p \<notin> P \<Longrightarrow> m_blocked_thread (s_proms s' p) = m_blocked_thread (s_proms s p)"
    and free: "\<And>c p. c \<in> set bs \<Longrightarrow> p \<in> P \<Longrightarrow> c_prom (s_ctxs s c) \<noteq> Some p"
  shows "moved t P s rs bs s' rs bs"
proof -
  have "m_blocked_thread (s_proms s' p) = m_blocked_thread (s_proms s p)"
    if "c \<in> set bs" "c_prom (s_ctxs s c) = Some p" for c p
    using that ok free by (intro pr) (auto simp: sched_ok_def)
  then have "sched_ok t s' rs bs" "contexts t s' rs bs = contexts t s rs bs"
    using assms(3-5) by (intro sched_ok_cong [OF ok assms(2)]; simp)+
  then show ?thesis using assms(2-5) pr by (auto simp: moved_def away_def)
qed

section \<open>What each operation does\<close>

lemma expire_moved:
  assumes ok: "sched_ok t s rs bs" and R: "expire_result t now s rs bs s1 rs1 bs1"
  shows "moved t P s rs bs s1 rs1 bs1" "contexts t s1 rs1 bs1 = contexts t s rs bs"
proof -
  have fr: "sched_frame t (owned t s rs bs) s s1" using R by (simp add: expire_result_def)
  then have "th_current (s_thrs s1 t) = th_current (s_thrs s t)" "s_next_ctx s1 = s_next_ctx s"
    "s_next_prom s1 = s_next_prom s" by (auto simp: sched_frame_def)
  moreover have "owned t s1 rs1 bs1 = owned t s rs bs"
    using R by (auto simp: expire_result_def owned_def expired_def)
  ultimately have "sched_ok t s1 rs1 bs1" and c: "contexts t s1 rs1 bs1 = contexts t s rs bs"
    using ok R by (auto simp: sched_ok_def contexts_def expire_result_def)
  moreover have "away t (contexts t s rs bs) P s s1"
    using away_sched_frame [OF fr] by (rule away_mono) (auto simp: contexts_def)
  ultimately show "moved t P s rs bs s1 rs1 bs1" "contexts t s1 rs1 bs1 = contexts t s rs bs"
    by (simp_all add: moved_def)
qed

lemma ensure_current_moved:
  assumes ok: "sched_ok t s rs bs" and e: "ensure_current t s = (c, s1)"
  shows "moved t P s rs bs s1 rs bs" "th_current (s_thrs s1 t) = Some c"
    "s_proms s1 = s_proms s" "th_done (s_thrs s1 t) = th_done (s_thrs s t)"
    "\<forall>d \<in> set bs. c_prom (s_ctxs s1 d) = c_prom (s_ctxs s d)" "s_next_prom s1 = s_next_prom s"
proof -
  have inv: "thread_inv t s rs bs" using ok by (rule sched_ok_inv)
  have "moved t P s rs bs s1 rs bs \<and> th_current (s_thrs s1 t) = Some c \<and>
      s_proms s1 = s_proms s \<and> th_done (s_thrs s1 t) = th_done (s_thrs s t) \<and>
      (\<forall>d \<in> set bs. c_prom (s_ctxs s1 d) = c_prom (s_ctxs s d)) \<and> s_next_prom s1 = s_next_prom s"
  proof (cases "th_current (s_thrs s t)")
    case (Some d)
    with e ok show ?thesis by (simp add: ensure_current_def moved_refl)
  next
    case None
    obtain s2 where nc: "new_context False s = (c, s2)" and s1: "s1 = set_current t c s2"
      using None e by (auto simp: ensure_current_def split: prod.splits)
    note N = thread_inv_new_context [OF inv nc]
    have same: "\<forall>d. d < s_next_ctx s \<longrightarrow> s_ctxs s2 d = s_ctxs s d" using N(2,8) by auto
    have "\<forall>d \<in> set bs. s_ctxs s2 d = s_ctxs s d" using same thread_invD(7) [OF inv] by blast
    moreover have "\<forall>u. u \<noteq> t \<longrightarrow> s_thrs s1 u = s_thrs s u"
      using N(6) by (simp add: s1 set_current_def upd_thread_def)
    ultimately show ?thesis using None N(1-7) ok same
      by (auto simp: s1 moved_def away_def sched_ok_def contexts_def owned_def)
  qed
  then show "moved t P s rs bs s1 rs bs" "th_current (s_thrs s1 t) = Some c"
    "s_proms s1 = s_proms s" "th_done (s_thrs s1 t) = th_done (s_thrs s t)"
    "\<forall>d \<in> set bs. c_prom (s_ctxs s1 d) = c_prom (s_ctxs s d)" "s_next_prom s1 = s_next_prom s" by blast+
qed

text \<open>A second look at \<open>current\<close> finds what the first one left.\<close>

lemma ensure_current_idem: "ensure_current t s = (c, s1) \<Longrightarrow> ensure_current t s1 = (c, s1)"
  by (auto simp: ensure_current_def set_current_def upd_thread_def split: option.splits prod.splits)

text \<open>
  The switch itself, after the timeout check has left the state \<open>s0\<close>: it asserts when the front of
  the ready queue is the running context, and otherwise writes the links of the ready queue and of
  the running context only.
\<close>

lemma switch_not_self:
  assumes ct: "check_for_timeouts t now s = Inr (r, s0)" and e: "ensure_current t s0 = (c, s1)"
    and inv: "thread_inv t s1 rs bs" and go: "start_next_task_begin t reschedule now s = Inr (x, s')"
  shows "rs \<noteq> [] \<longrightarrow> hd rs \<noteq> c"
proof (cases rs)
  case (Cons n rs')
  obtain y cs tp where pop: "ready_pop_front (s_ctxs s1, s_thrs s1 t) = (y, cs, tp)" by (metis prod_cases3)
  have "y = Some n" using pop_front_inv(1) [OF inv [unfolded Cons] pop] .
  then show ?thesis using go ct e pop Cons by (auto simp: start_next_task_begin_def split: if_splits)
qed simp

lemma away_set_current: "away t C P s (set_current t c s') = away t C P s s'"
  by (simp add: away_def set_current_def upd_thread_def)

lemma switch_away:
  assumes ct: "check_for_timeouts t now s = Inr (r, s0)" and e: "ensure_current t s0 = (c, s1)"
    and inv: "thread_inv t s1 rs bs" and go: "start_next_task_begin t reschedule now s = Inr (x, s')"
  shows "away t (insert c (set rs)) {} s1 s'"
proof -
  have rl: "ready_list (s_ctxs s1, s_thrs s1 t) rs" using thread_invD(1) [OF inv] .
  have push: "away t (insert c A) {} s2 (if reschedule then on_thread t (ready_push_back c) s2 else s2)"
    if "\<And>l. th_ready_tail (s_thrs s2 t) = Some l \<Longrightarrow> l \<in> A" for s2 :: "'a sys" and A
  proof -
    obtain cs tp where pb: "ready_push_back c (s_ctxs s2, s_thrs s2 t) = (cs, tp)" by fastforce
    have "cs d = s_ctxs s2 d" if "d \<notin> insert c A" for d
      using ready_push_back_fields(6) [OF pb, of d] that \<open>\<And>l. _ \<Longrightarrow> l \<in> A\<close> by auto
    then show ?thesis using pb by (auto simp: away_def on_thread_def)
  qed
  obtain y cs tp where pop: "ready_pop_front (s_ctxs s1, s_thrs s1 t) = (y, cs, tp)" by (metis prod_cases3)
  let ?s2 = "s1\<lparr>s_ctxs := cs, s_thrs := (s_thrs s1)(t := tp)\<rparr>"
  show ?thesis
  proof (cases y)
    case (Some n)
    note F = ready_pop_front_fields [OF pop [unfolded Some]]
    have n: "n \<in> set rs" using pop Some rl
      by (cases rs) (auto simp: ready_pop_front_def ready_list_def Let_def)
    have "away t (insert c (set rs)) {} s1 ?s2" using n F(1) by (auto simp: away_def)
    moreover have "away t (insert c (set rs)) {} ?s2 (if reschedule then on_thread t (ready_push_back c) ?s2 else ?s2)"
      using rl F(2) by (intro push) (auto simp: ready_list_def split: if_splits)
    ultimately have "away t (insert c (set rs)) {} s1 (if reschedule then on_thread t (ready_push_back c) ?s2 else ?s2)"
      by (rule away_trans) auto
    moreover have "s' = set_current t n (if reschedule then on_thread t (ready_push_back c) ?s2 else ?s2)"
      using go ct e pop Some by (auto simp: start_next_task_begin_def Let_def split: if_splits)
    ultimately show ?thesis by (simp only: away_set_current)
  next
    case None
    let ?s3 = "if reschedule then on_thread t (ready_push_back c) s1 else s1"
    obtain f s4 where nc: "new_context True ?s3 = (f, s4)" by fastforce
    have "s' = set_current t f s4" using go ct e pop None nc by (simp add: start_next_task_begin_def)
    moreover have "away t (insert c (set rs)) {} s1 ?s3"
      using rl by (intro push) (auto simp: ready_list_def split: if_splits)
    moreover have "away t (insert c (set rs)) {} ?s3 (set_current t f s4)"
      using nc by (auto simp: away_def new_context_def set_current_def upd_thread_def)
    ultimately show ?thesis by (metis away_trans sup_ge1)
  qed
qed

lemma switch_moved:
  assumes ct: "check_for_timeouts t now s = Inr (r, s0)" and e: "ensure_current t s0 = (c, s1)"
    and inv: "thread_inv t s1 rs bs" and c: "c < s_next_ctx s1" "reschedule \<longrightarrow> c \<notin> owned t s1 rs bs"
    and bound: "\<forall>d \<in> set bs. \<forall>p. c_prom (s_ctxs s1 d) = Some p \<longrightarrow> p < s_next_prom s1"
    and go: "start_next_task_begin t reschedule now s = Inr (x, s')"
  defines "rs' \<equiv> tl rs @ (if reschedule then [c] else [])"
  shows "sched_ok t s' rs' bs" "owned t s1 rs bs \<union> (if reschedule then {c} else {}) \<subseteq> contexts t s' rs' bs"
    "contexts t s' rs' bs \<subseteq> insert c (owned t s1 rs bs) \<union> {s_next_ctx s1..}"
    "away t (insert c (owned t s1 rs bs)) {} s1 s'"
proof -
  obtain s2 where "start_next_task_begin t reschedule now s = Inr (c, s2)"
    and sw: "switched t reschedule c rs bs (s_next_ctx s1) s2"
    and P: "s_proms s2 = s_proms s1 \<and> s_next_prom s2 = s_next_prom s1"
      "th_sleep_pqueue (s_thrs s2 t) = th_sleep_pqueue (s_thrs s1 t)"
      "\<And>x. x < s_next_ctx s1 \<Longrightarrow> c_prom (s_ctxs s2 x) = c_prom (s_ctxs s1 x)"
    using switch_after_timeouts [OF ct e inv c(1) switch_not_self [OF ct e inv go] c(2)] by metis
  with go have s': "s' = s2" by simp
  have "\<forall>x \<in> set bs. x < s_next_ctx s1" using thread_invD(7) [OF inv] by blast
  then show "sched_ok t s' rs' bs" unfolding s' rs'_def
    using sw P(1,3) bound by (simp add: sched_ok_def switched_def Let_def)
  show "owned t s1 rs bs \<union> (if reschedule then {c} else {}) \<subseteq> contexts t s' rs' bs"
    "contexts t s' rs' bs \<subseteq> insert c (owned t s1 rs bs) \<union> {s_next_ctx s1..}"
    unfolding s' rs'_def using sw P(2) by (cases rs; auto simp: contexts_def owned_def switched_def Let_def)+
  show "away t (insert c (owned t s1 rs bs)) {} s1 s'"
    using switch_away [OF ct e inv go] by (rule away_mono) (auto simp: owned_def)
qed

lemma yield_moves:
  assumes ok: "sched_ok t s rs bs" and go: "start_next_task_begin t True now s = Inr (c, s')"
  shows "moves t P s rs bs s'"
proof -
  obtain r s0 rs1 bs1 where ct: "check_for_timeouts t now s = Inr (r, s0)"
    and R: "expire_result t now s rs bs s0 rs1 bs1"
    using check_for_timeouts_expires [OF sched_ok_inv [OF ok]] by blast
  obtain d s1 where e: "ensure_current t s0 = (d, s1)" by fastforce
  note M = expire_moved(1) [OF ok R, of P]
  note E = ensure_current_moved(1) [OF moved_ok [OF M] e, of P] ensure_current_moved(2) [OF moved_ok [OF M] e]
  have ok1: "sched_ok t s1 rs1 bs1" using E(1) by (rule moved_ok)
  then have d: "d < s_next_ctx s1" "d \<notin> owned t s1 rs1 bs1" using E(2) by (auto simp: sched_ok_def)
  have C: "contexts t s1 rs1 bs1 = insert d (owned t s1 rs1 bs1)" using E(2) by (simp add: contexts_def)
  have bound: "\<forall>x \<in> set bs1. \<forall>p. c_prom (s_ctxs s1 x) = Some p \<longrightarrow> p < s_next_prom s1"
    using ok1 by (simp add: sched_ok_def)
  note S = switch_moved [OF ct e sched_ok_inv [OF ok1] d(1) _ bound go, simplified, OF d(2)]
  have "moved t P s1 rs1 bs1 s' (tl rs1 @ [d]) bs1"
    unfolding moved_def C using S away_mono [OF S(4) subset_refl, of P] by blast
  with M E(1) show ?thesis by (blast intro: movesI moved_trans)
qed

text \<open>Parking the running context and switching away.\<close>

lemma park_away: "away t {c} {} s (park t c x asleep blk s)"
  by (auto simp: away_def park_def on_thread_def add_to_blocked_def Let_def)

lemma park_moves:
  assumes ok: "sched_ok t s rs bs" and cur: "th_current (s_thrs s t) = Some c"
    and prom: "if blk then \<exists>p. c_prom x = Some p \<and> m_blocked_thread (s_proms s p) = Some t \<and>
                     p < s_next_prom s \<and> (\<forall>d \<in> set bs. c_prom (s_ctxs s d) \<noteq> Some p)
               else c_prom x = None" "asleep \<or> blk"
    and go: "start_next_task_begin t False now (park t c x asleep blk s) = Inr (e, s')"
  shows "moves t P s rs bs s'"
proof -
  let ?s = "park t c x asleep blk s" and ?bs = "if blk then c # bs else bs"
  have inv: "thread_inv t s rs bs" and c: "c \<notin> owned t s rs bs" "c < s_next_ctx s"
    using ok cur by (auto simp: sched_ok_def)
  have no: "c \<notin> set rs" "c \<notin> set bs" "c \<notin> set (th_sleep_pqueue (s_thrs s t))"
    using c(1) by (auto simp: owned_def)
  have prom': "if blk then \<exists>p. c_prom x = Some p \<and> m_blocked_thread (s_proms s p) = Some t \<and>
      (\<forall>d \<in> set bs. c_prom (s_ctxs s d) \<noteq> Some p) else c_prom x = None"
    using prom(1) by (cases blk) auto
  have np: "s_next_prom ?s = s_next_prom s" by (simp add: park_def on_thread_def add_to_blocked_def Let_def)
  have bound: "\<forall>d \<in> set ?bs. \<forall>p. c_prom (s_ctxs ?s d) = Some p \<longrightarrow> p < s_next_prom ?s"
    using ok prom(1) no(2) np by (auto simp: sched_ok_def park_fields split: if_splits) (metis park_fields(4))+
  have own: "owned t ?s rs ?bs = contexts t s rs bs"
    using prom(2) cur by (auto simp: owned_def contexts_def park_fields)
  obtain r s1 rs1 bs1 where ct: "check_for_timeouts t now ?s = Inr (r, s1)"
    and R: "expire_result t now ?s rs ?bs s1 rs1 bs1"
    using check_for_timeouts_expires [OF park_inv [OF inv c prom']] by blast
  have fr: "sched_frame t (contexts t s rs bs) ?s s1" and inv1: "thread_inv t s1 rs1 bs1"
    using R own by (simp_all add: expire_result_def)
  have nx: "s_next_ctx s1 = s_next_ctx s" "s_next_prom s1 = s_next_prom s" "th_current (s_thrs s1 t) = Some c"
    using fr np cur by (auto simp: sched_frame_def park_fields)
  have own1: "owned t s1 rs1 bs1 = contexts t s rs bs"
    using R unfolding own [symmetric] by (auto simp: expire_result_def owned_def expired_def)
  have bound1: "\<forall>d \<in> set bs1. \<forall>p. c_prom (s_ctxs s1 d) = Some p \<longrightarrow> p < s_next_prom s1"
    using R bound np nx(2) by (auto simp: expire_result_def)
  have e1: "ensure_current t s1 = (c, s1)" using nx(3) by (simp add: ensure_current_def)
  have cC: "c \<in> contexts t s rs bs" using cur by (simp add: contexts_def)
  have c1: "c < s_next_ctx s1" "False \<longrightarrow> c \<notin> owned t s1 rs1 bs1" using c(2) nx(1) by simp_all
  note S = switch_moved [OF ct e1 inv1 c1 bound1 go, unfolded own1]
  let ?C = "contexts t s rs bs"
  have "away t ?C P s ?s" using park_away by (rule away_mono) (use cC in simp_all)
  moreover have "away t ?C P ?s s1" using away_sched_frame [OF fr] by (rule away_mono) simp_all
  moreover have "away t ?C P s1 s'" using S(4) by (rule away_mono) (use cC in auto)
  ultimately have "away t ?C P s s'" using away_trans [of t ?C P _ _ ?C] by blast
  moreover have "insert c ?C = ?C" using cC by blast
  ultimately show ?thesis using S(1-3) nx(1) by (intro movesI [of t P s rs bs s' "tl rs1" bs1]) (simp add: moved_def)
qed

lemma wait_moves:
  assumes ok: "sched_ok t s rs bs" and p: "p < s_next_prom s" and free: "\<forall>d \<in> set bs. c_prom (s_ctxs s d) \<noteq> Some p"
    and go: "promise_wait_begin t p timeout now1 now2 s = Inr (r, s')"
  shows "moves t {p} s rs bs s'"
proof -
  let ?s = "upd_prom p (enqueue_thread t) s"
  have M: "moved t {p} s rs bs ?s rs bs"
    using free by (intro moved_frame [OF ok]) (simp_all add: upd_prom_def)
  consider (ready) "promise_ready (s_proms s p)" | (late) "\<not> promise_ready (s_proms s p)" "timeout < now1"
    | (blocks) "\<not> promise_ready (s_proms s p)" "now1 \<le> timeout" by linarith
  then show ?thesis
  proof cases
    case ready
    with go moved_refl [OF ok] show ?thesis by (auto simp: promise_wait_ready intro: movesI)
  next
    case late
    with go M show ?thesis by (auto simp: promise_wait_unready thread_wait_late intro: movesI)
  next
    case blocks
    obtain c s1 where e: "ensure_current t ?s = (c, s1)" by fastforce
    note E1 = ensure_current_moved(1) [OF moved_ok [OF M] e, of "{p}"] and E = ensure_current_moved(2-) [OF moved_ok [OF M] e]
    have unr: "\<not> promise_ready (s_proms s1 p)" using blocks(1) by (simp add: E(2))
    have "thread_wait_begin t p timeout now1 now2 ?s = thread_wait_begin t p timeout now1 now2 s1"
      using blocks unr e ensure_current_idem [OF e] by (simp add: thread_wait_begin_def)
    with go blocks(1) wait_parks [OF E(1) unr blocks(2), of now2]
    obtain prev where "start_next_task_begin t False now2
      (park t c ((s_ctxs s1 c)\<lparr>c_prom := Some p, c_resume_time :=
        (if timeout \<noteq> time_max then timeout else c_resume_time (s_ctxs s1 c))\<rparr>) (timeout \<noteq> time_max) True s1) =
      Inr (prev, s')" by (auto simp: promise_wait_unready split: sum.splits prod.splits)
    from park_moves [OF moved_ok [OF E1] E(1) _ _ this] have "moves t {p} s1 rs bs s'"
      using p free E(2,4,5) by (simp add: upd_prom_def enqueue_thread_def)
    with moved_trans [OF M E1] show ?thesis by (auto simp: moves_def intro: moved_trans)
  qed
qed

lemma wait_ready_moves:
  assumes "sched_ok t s rs bs" and "promise_ready (s_proms s p)"
    and "promise_wait_begin t p timeout now1 now2 s = Inr (r, s')"
  shows "moves t P s rs bs s'"
  using assms moved_refl [OF assms(1)] by (auto simp: promise_wait_ready intro: movesI)

lemma sleep_moves:
  assumes ok: "sched_ok t s rs bs" and go: "sleep_until_begin t tm now s = Inr (r, s')"
  shows "moves t P s rs bs s'"
proof (cases "th_done (s_thrs s t)")
  case True
  with go moved_refl [OF ok] show ?thesis by (auto simp: sleep_until_begin_def intro: movesI)
next
  case False
  obtain c s1 where e: "ensure_current t s = (c, s1)" by fastforce
  note E1 = ensure_current_moved(1) [OF ok e, of P] and E = ensure_current_moved(2-) [OF ok e]
  have "sleep_until_begin t tm now s = sleep_until_begin t tm now s1"
    using False E(3) e ensure_current_idem [OF e] by (simp add: sleep_until_begin_def)
  with go sleep_parks [OF E(1), of tm now] E(3) False
  obtain prev where "start_next_task_begin t False now
    (park t c ((s_ctxs s1 c)\<lparr>c_resume_time := tm, c_prom := None\<rparr>) True False s1) = Inr (prev, s')"
    by (auto split: sum.splits prod.splits)
  from park_moves [OF moved_ok [OF E1] E(1) _ _ this] have "moves t P s1 rs bs s'" by simp
  with E1 show ?thesis by (auto simp: moves_def intro: moved_trans)
qed

text \<open>
  Resuming: the fiber that was switched to clears its own fields, which no list reads, and may
  take the exception out of the promise.
\<close>

lemma resume_moves:
  assumes ok: "sched_ok t s rs bs" and cur: "th_current (s_thrs s t) = Some c"
    and s': "s_ctxs s' = (s_ctxs s)(c := x)" "s_next_ctx s' = s_next_ctx s" "s_next_prom s' = s_next_prom s"
      "s_thrs s' = s_thrs s" "\<And>p. m_blocked_thread (s_proms s' p) = m_blocked_thread (s_proms s p)"
  shows "moves t P s rs bs s'"
proof -
  have c: "c \<notin> owned t s rs bs" using ok cur by (auto simp: sched_ok_def)
  have "sched_ok t s' rs bs" "contexts t s' rs bs = contexts t s rs bs"
    by (rule sched_ok_cong [OF ok]; use c s' in auto)+
  then show ?thesis using s' cur
    by (intro movesI [of t P s rs bs s' rs bs]) (auto simp: moved_def away_def contexts_def)
qed

lemma async_void_frame:
  fixes w :: thid and f :: task_functor and pr :: priority and s :: "'v sys"
  defines "s' \<equiv> async_void w f pr s"
  shows "s_ctxs s' = s_ctxs s" "s_next_ctx s' = s_next_ctx s" "s_next_prom s' = s_next_prom s"
    "s_proms s' = s_proms s" "\<exists>q. s_thrs s' t = (s_thrs s t)\<lparr>th_task_in_queue := q\<rparr>"
proof -
  have "s_thrs s t = (s_thrs s t)\<lparr>th_task_in_queue := th_task_in_queue (s_thrs s t)\<rparr>" by simp
  then have "\<exists>q. s_thrs s t = (s_thrs s t)\<lparr>th_task_in_queue := q\<rparr>" by blast
  then show "\<exists>q. s_thrs s' t = (s_thrs s t)\<lparr>th_task_in_queue := q\<rparr>"
    by (auto simp: s'_def async_void_def new_task_def make_task_def async_task_def upd_thread_def Let_def)
qed (simp_all add: s'_def async_void_def new_task_def make_task_def async_task_def upd_thread_def Let_def)


text \<open>Waking the waiter of a promise, here or by posting to the thread it waits on.\<close>

lemma async_void_moved:
  assumes "sched_ok t s rs bs"
  shows "moved t P s rs bs (async_void w f pr s) rs bs"
proof -
  have "same_sched (s_thrs s u) (s_thrs (async_void w f pr s) u)" for u
    using async_void_frame(5) [of w f pr s u] by (auto simp: same_sched_def)
  moreover have "moved t {} s rs bs (async_void w f pr s) rs bs"
    by (rule moved_frame [OF assms calculation]) (simp_all add: async_void_frame)
  ultimately show ?thesis by (auto intro: moved_mono)
qed

lemma thread_notify_moves:
  assumes ok: "sched_ok t s rs bs" and go: "thread_notify t w p s = Inr s'"
  shows "moves t P s rs bs s'"
proof -
  have inv: "thread_inv t s rs bs" using ok by (rule sched_ok_inv)
  have rdy: "promise_ready (s_proms s p)" using go by (auto simp: thread_notify_def split: if_splits)
  consider (post) "s' = async_void w (Notify_Fun w p) default_priority s"
    | (none) "w = t" "\<forall>c \<in> set bs. c_prom (s_ctxs s c) \<noteq> Some p"
    | (here) c as bs' where "w = t" "c_prom (s_ctxs s c) = Some p" "bs = as @ c # bs'"
  proof (cases "w = t")
    case True
    then show thesis using none here split_list by metis
  next
    case False
    with go rdy post show thesis by (simp add: thread_notify_def)
  qed
  then show ?thesis
  proof cases
    case post
    then show ?thesis using movesI [OF async_void_moved [OF ok]] by simp
  next
    case none
    with notify_no_waiter [OF inv rdy] go moved_refl [OF ok] show ?thesis by (auto intro: movesI)
  next
    case here
    obtain s2 where "thread_notify t t p s = Inr s2" and inv2: "thread_inv t s2 (c # rs) (as @ bs')"
      and fr: "sched_frame t (owned t s rs bs) s s2"
      and q: "set (th_sleep_pqueue (s_thrs s2 t)) = set (th_sleep_pqueue (s_thrs s t)) - {c}"
      and pr: "\<And>d. d \<noteq> c \<Longrightarrow> c_prom (s_ctxs s2 d) = c_prom (s_ctxs s d)"
      by (rule notify_waiter [OF inv rdy here(3,2)]) (rule that; assumption)
    with here go have s': "s' = s2" by simp
    have cbs: "c \<notin> set (as @ bs')" using blocked_list_distinct [OF thread_invD(2) [OF inv]] here(3) by simp
    have own: "owned t s2 (c # rs) (as @ bs') = owned t s rs bs" using q here(3) by (auto simp: owned_def)
    have th: "th_current (s_thrs s2 t) = th_current (s_thrs s t)" "s_next_ctx s2 = s_next_ctx s"
      "s_next_prom s2 = s_next_prom s" using fr by (auto simp: sched_frame_def)
    have "\<forall>d \<in> set (as @ bs'). c_prom (s_ctxs s2 d) = c_prom (s_ctxs s d)" using pr cbs by metis
    then have "sched_ok t s2 (c # rs) (as @ bs')"
      using ok inv2 own th here(3) by (simp add: sched_ok_def)
    moreover have "away t (contexts t s rs bs) P s s2"
      using away_sched_frame [OF fr] by (rule away_mono) (auto simp: contexts_def)
    ultimately show ?thesis unfolding s' using own th
      by (intro movesI [of t P s rs bs s2 "c # rs" "as @ bs'"]) (simp add: moved_def contexts_def)
  qed
qed

lemma promise_notify_moves:
  assumes "sched_ok t s rs bs" and "promise_notify t p s = Inr s'"
  shows "moves t P s rs bs s'"
  using assms(2) thread_notify_moves [OF assms(1), of _ p s' P] movesI [OF moved_refl [OF assms(1)]]
  by (auto simp: promise_notify_def split: if_splits option.splits)

lemma upd_prom_moved:
  assumes "sched_ok t s rs bs" and "m_blocked_thread (f (s_proms s p)) = m_blocked_thread (s_proms s p)"
  shows "moved t P s rs bs (upd_prom p f s) rs bs"
proof -
  have "moved t {} s rs bs (upd_prom p f s) rs bs"
    by (rule moved_frame [OF assms(1)]) (use assms(2) in \<open>simp_all add: upd_prom_def\<close>)
  then show ?thesis by (rule moved_mono) simp
qed

lemma stores_keep_waiter:
  "m_blocked_thread (fst (store_value v pr)) = m_blocked_thread pr"
  "m_blocked_thread (fst (store_exception e pr)) = m_blocked_thread pr"
  "m_blocked_thread (fst (store_timeout pr)) = m_blocked_thread pr"
  by (simp_all add: store_value_def store_exception_def store_timeout_def)

lemma deliver_moves:
  assumes ok: "sched_ok t s rs bs" and pr: "m_blocked_thread pr = m_blocked_thread (s_proms s p)"
    and go: "(if ntf then promise_notify t p (upd_prom p (\<lambda>_. pr) s) else Inr (upd_prom p (\<lambda>_. pr) s)) = Inr s'"
  shows "moves t P s rs bs s'"
proof -
  let ?s = "upd_prom p (\<lambda>_. pr) s"
  have M: "moved t P s rs bs ?s rs bs" using upd_prom_moved [OF ok, of "\<lambda>_. pr" p P] pr by simp
  show ?thesis
  proof (cases ntf)
    case True
    with promise_notify_moves [OF moved_ok [OF M], of p s' P] go have "moves t P ?s rs bs s'" by simp
    with M show ?thesis by (auto simp: moves_def intro: moved_trans)
  next
    case False
    with M go show ?thesis by (auto intro: movesI)
  qed
qed

lemma set_value_moves:
  assumes ok: "sched_ok t s rs bs" and "set_value t p v s = Inr s'"
  shows "moves t P s rs bs s'"
  using assms(2) deliver_moves [OF ok stores_keep_waiter(1), of "snd (store_value v (s_proms s p))" p v s' P]
  by (simp add: set_value_def Let_def case_prod_beta)

lemma set_exception_moves:
  assumes ok: "sched_ok t s rs bs" and "set_exception t p e s = Inr s'"
  shows "moves t P s rs bs s'"
  using assms(2) deliver_moves [OF ok stores_keep_waiter(2), of "snd (store_exception e (s_proms s p))" p e s' P]
  by (simp add: set_exception_def Let_def case_prod_beta)

lemma set_timeout_moves:
  assumes ok: "sched_ok t s rs bs" and "set_timeout t p s = Inr s'"
  shows "moves t P s rs bs s'"
  using assms(2) deliver_moves [OF ok stores_keep_waiter(3), of "snd (store_timeout (s_proms s p))" p s' P]
  by (simp add: set_timeout_def Let_def case_prod_beta)

section \<open>Process start\<close>

text \<open>
  The initial state of the process: no context, task or promise exists, every thread object is
  as its constructor leaves it.
\<close>

definition init_sys :: "'v sys" where
  "init_sys =
     \<lparr>s_ctxs = (\<lambda>_. make_context False), s_tasks = (\<lambda>_. fst (make_task (Vtask (User_Fun 0)) default_priority 0 [] 0)),
      s_proms = (\<lambda>_. make_promise), s_thrs = (\<lambda>_. make_thread []),
      s_next_ctx = 0, s_next_task = 0, s_next_prom = 0, s_task_count = 0\<rparr>"

lemma result_frame:
  assumes "async_result u f pr n s = (p, s') \<or> schedule_result u f w pr n s = (p, s')"
  shows "s_ctxs s' = s_ctxs s" "s_next_ctx s' = s_next_ctx s" "s_next_prom s' = Suc (s_next_prom s)"
    "\<And>q. q < s_next_prom s \<Longrightarrow> m_blocked_thread (s_proms s' q) = m_blocked_thread (s_proms s q)"
    "\<exists>q. s_thrs s' t = (s_thrs s t)\<lparr>th_task_in_queue := q\<rparr>"
proof -
  have "s_thrs s t = (s_thrs s t)\<lparr>th_task_in_queue := th_task_in_queue (s_thrs s t)\<rparr>" by simp
  then have "\<exists>q. s_thrs s t = (s_thrs s t)\<lparr>th_task_in_queue := q\<rparr>" by blast
  then show "\<exists>q. s_thrs s' t = (s_thrs s t)\<lparr>th_task_in_queue := q\<rparr>" using assms
    by (auto simp: async_result_def schedule_result_def new_promise_def new_task_def make_task_def
        async_task_def upd_thread_def upd_prom_def Let_def)
qed (use assms in \<open>auto simp: async_result_def schedule_result_def new_promise_def new_task_def
    make_task_def async_task_def upd_thread_def upd_prom_def set_task_def Let_def\<close>)

lemma resume_end_frames:
  assumes "th_current (s_thrs s t) = Some c"
  shows "promise_wait_end t c p s = (r, s') \<Longrightarrow> \<exists>x. s_ctxs s' = (s_ctxs s)(c := x)"
    "promise_wait_end t c p s = (r, s') \<Longrightarrow> s_thrs s' = s_thrs s \<and> s_next_ctx s' = s_next_ctx s \<and>
       s_next_prom s' = s_next_prom s \<and> m_blocked_thread (s_proms s' q) = m_blocked_thread (s_proms s q)"
    "sleep_until_end t c s = (y, s') \<Longrightarrow> \<exists>x. s_ctxs s' = (s_ctxs s)(c := x)"
    "sleep_until_end t c s = (y, s') \<Longrightarrow> s_thrs s' = s_thrs s \<and> s_next_ctx s' = s_next_ctx s \<and>
       s_next_prom s' = s_next_prom s \<and> s_proms s' = s_proms s"
proof -
  have "(s_thrs s t)\<lparr>th_current := Some c\<rparr> = s_thrs s t" using assms by (metis thread_private.surjective
        thread_private.update_convs(8))
  then have same: "set_current t c s = s" by (simp add: set_current_def upd_thread_def)
  have id: "\<exists>x. s_ctxs s = (s_ctxs s)(c := x)" by (metis fun_upd_triv)
  show "promise_wait_end t c p s = (r, s') \<Longrightarrow> \<exists>x. s_ctxs s' = (s_ctxs s)(c := x)"
    using id by (auto simp: promise_wait_end_def thread_wait_end_def start_next_task_end_def same upd_ctx_def
        upd_prom_def Let_def split: if_splits prod.splits)
  show "promise_wait_end t c p s = (r, s') \<Longrightarrow> s_thrs s' = s_thrs s \<and> s_next_ctx s' = s_next_ctx s \<and>
       s_next_prom s' = s_next_prom s \<and> m_blocked_thread (s_proms s' q) = m_blocked_thread (s_proms s q)"
    by (auto simp: promise_wait_end_def thread_wait_end_def start_next_task_end_def same upd_ctx_def
        upd_prom_def wait_finish_def Let_def split: if_splits prod.splits option.splits)
  show "sleep_until_end t c s = (y, s') \<Longrightarrow> \<exists>x. s_ctxs s' = (s_ctxs s)(c := x)"
    using id by (auto simp: sleep_until_end_def start_next_task_end_def same upd_ctx_def Let_def split: if_splits)
  show "sleep_until_end t c s = (y, s') \<Longrightarrow> s_thrs s' = s_thrs s \<and> s_next_ctx s' = s_next_ctx s \<and>
       s_next_prom s' = s_next_prom s \<and> s_proms s' = s_proms s"
    by (auto simp: sleep_until_end_def start_next_task_end_def same upd_ctx_def Let_def split: if_splits)
qed

lemma init_ok: "sched_ok t init_sys [] []"
  by (simp add: sched_ok_def thread_inv_def init_sys_def make_thread_def ready_list_def blocked_list_def
      is_heap_def)

end
