(* ===== verification/CMT_Queues.thy ===== *)
theory CMT_Queues
  imports CMT_Sched
begin

text \<open>
  The task queues of a thread: what \<open>enqueue\<close> and \<open>dequeue\<close> of \<open>src/thread.cpp\<close> do with
  the tasks of the intake list and of the two heaps, in terms of multisets of tasks, and which task
  \<open>dequeue\<close> returns.
\<close>

section \<open>The tasks of a thread\<close>

definition runnable :: "thread_private \<Rightarrow> tptr multiset" where
  "runnable tp = mset (th_task_pqueue tp)"

definition scheduled :: "thread_private \<Rightarrow> tptr multiset" where
  "scheduled tp = mset (th_task_sch_queue tp)"

definition heaps_ok :: "tstore \<Rightarrow> thread_private \<Rightarrow> bool" where
  "heaps_ok ts tp = (is_heap (task_priority_less ts) (th_task_pqueue tp) \<and>
     is_heap (task_when_less ts) (th_task_sch_queue tp))"

text \<open>The intake list, newest task first.\<close>

definition intake :: "tstore \<Rightarrow> thread_private \<Rightarrow> tptr list \<Rightarrow> bool" where
  "intake ts tp ks = chain (\<lambda>k. tk_next (ts k)) (th_task_in_queue tp) ks"

section \<open>Sorting the intake list into the heaps\<close>

lemma enqueue_sorts:
  "chain (\<lambda>k. tk_next (ts k)) p ks \<Longrightarrow> length ks \<le> fuel \<Longrightarrow> heaps_ok ts tp \<Longrightarrow>
   \<exists>tp'. enqueue fuel now ts p tp = Inr tp' \<and> heaps_ok ts tp' \<and>
     runnable tp' = runnable tp + {#k \<in># mset ks. tk_when (ts k) \<le> now#} \<and>
     scheduled tp' = scheduled tp + {#k \<in># mset ks. now < tk_when (ts k)#} \<and>
     (\<exists>q r. tp' = tp\<lparr>th_task_pqueue := q, th_task_sch_queue := r\<rparr>)"
proof (induction ks arbitrary: p fuel tp)
  case Nil
  have "tp = tp\<lparr>th_task_pqueue := th_task_pqueue tp, th_task_sch_queue := th_task_sch_queue tp\<rparr>" by simp
  then have "\<exists>q r. tp = tp\<lparr>th_task_pqueue := q, th_task_sch_queue := r\<rparr>" by blast
  with Nil show ?case by simp
next
  case (Cons k ks)
  obtain f where f: "fuel = Suc f" using Cons.prems(2) by (cases fuel) auto
  define tp1 where "tp1 = (if tk_when (ts k) > now
      then tp\<lparr>th_task_sch_queue := push_heap (task_when_less ts) (th_task_sch_queue tp @ [k])\<rparr>
      else tp\<lparr>th_task_pqueue := push_heap (task_priority_less ts) (th_task_pqueue tp @ [k])\<rparr>)"
  have ok1: "heaps_ok ts tp1"
    using Cons.prems(3) prioq.push_heap schq.push_heap by (auto simp: heaps_ok_def tp1_def)
  have "chain (\<lambda>k. tk_next (ts k)) (tk_next (ts k)) ks" "length ks \<le> f" using Cons.prems(1,2) f by auto
  from Cons.IH [OF this ok1] obtain tp' q r where e: "enqueue f now ts (tk_next (ts k)) tp1 = Inr tp'"
    and R: "heaps_ok ts tp'" "runnable tp' = runnable tp1 + {#k \<in># mset ks. tk_when (ts k) \<le> now#}"
      "scheduled tp' = scheduled tp1 + {#k \<in># mset ks. now < tk_when (ts k)#}"
    and qr: "tp' = tp1\<lparr>th_task_pqueue := q, th_task_sch_queue := r\<rparr>" by blast
  have "enqueue fuel now ts p tp = Inr tp'" using e Cons.prems(1) f by (simp add: tp1_def)
  moreover have "runnable tp1 = runnable tp + (if tk_when (ts k) \<le> now then {#k#} else {#})"
    "scheduled tp1 = scheduled tp + (if now < tk_when (ts k) then {#k#} else {#})"
    by (auto simp: runnable_def scheduled_def tp1_def prioq.push_mset schq.push_mset)
  moreover have "tp' = tp\<lparr>th_task_pqueue := q, th_task_sch_queue := r\<rparr>" using qr by (simp add: tp1_def)
  then have "\<exists>q r. tp' = tp\<lparr>th_task_pqueue := q, th_task_sch_queue := r\<rparr>" by blast
  ultimately show ?case using R by (cases "tk_when (ts k) \<le> now") (simp_all add: not_le)
qed

text \<open>The state of the queues once the intake list has been taken over.\<close>

lemma dequeue_takes_over:
  assumes "intake ts tp ks" and "length ks \<le> fuel" and "heaps_ok ts tp"
  shows "\<exists>tp'. (case th_task_in_queue tp of None \<Rightarrow> Inr (tp\<lparr>th_task_in_queue := None\<rparr>)
      | Some k \<Rightarrow> enqueue fuel now ts (Some k) (tp\<lparr>th_task_in_queue := None\<rparr>)) = Inr tp' \<and> heaps_ok ts tp' \<and>
     runnable tp' = runnable tp + {#k \<in># mset ks. tk_when (ts k) \<le> now#} \<and>
     scheduled tp' = scheduled tp + {#k \<in># mset ks. now < tk_when (ts k)#} \<and>
     (\<exists>q r. tp' = tp\<lparr>th_task_in_queue := None, th_task_pqueue := q, th_task_sch_queue := r\<rparr>)"
proof -
  let ?tp = "tp\<lparr>th_task_in_queue := None\<rparr>"
  have ok: "heaps_ok ts ?tp" and same: "runnable ?tp = runnable tp" "scheduled ?tp = scheduled tp"
    using assms(3) by (simp_all add: heaps_ok_def runnable_def scheduled_def)
  from enqueue_sorts [OF assms(1) [unfolded intake_def] assms(2) ok, of now] same show ?thesis
    by (cases "th_task_in_queue tp") (simp_all add: intake_def)
qed

section \<open>Which task is taken\<close>

text \<open>
  \<open>picks ts now2 R S r\<close>: from runnable tasks \<open>R\<close> and scheduled tasks \<open>S\<close>, \<open>r\<close> is the
  choice.  A scheduled task is taken only when all scheduled tasks are due, and then one with the
  latest time; otherwise a runnable task that no other precedes by priority and posting order.
\<close>

definition runs_first :: "tstore \<Rightarrow> tptr \<Rightarrow> tptr set \<Rightarrow> bool" where
  "runs_first ts k R = (k \<in> R \<and> (\<forall>j \<in> R. tk_prio (ts j) < tk_prio (ts k) \<or>
     tk_prio (ts j) = tk_prio (ts k) \<and> tk_posted_num (ts k) \<le> tk_posted_num (ts j)))"

definition picks :: "tstore \<Rightarrow> time_point \<Rightarrow> tptr set \<Rightarrow> tptr set \<Rightarrow> tptr option \<Rightarrow> bool" where
  "picks ts now2 R S r =
     (if S \<noteq> {} \<and> (\<forall>j \<in> S. tk_when (ts j) \<le> now2)
      then \<exists>k \<in> S. r = Some k \<and> (\<forall>j \<in> S. tk_when (ts j) \<le> tk_when (ts k))
      else if R \<noteq> {} then \<exists>k. r = Some k \<and> runs_first ts k R
      else r = None)"

lemma prioq_runs_first:
  "is_heap (task_priority_less ts) q \<Longrightarrow> q \<noteq> [] \<Longrightarrow> runs_first ts (hd q) (set q)"
  using prioq_front [of ts q] by (auto simp: runs_first_def)

lemma front_due:
  "is_heap (task_when_less ts) q \<Longrightarrow> q \<noteq> [] \<Longrightarrow>
   tk_when (ts (hd q)) \<le> now \<longleftrightarrow> (\<forall>j \<in> set q. tk_when (ts j) \<le> now)"
  using schq_front [of ts q] by (metis hd_in_set order_trans)

lemma dequeue_spec:
  fixes now1 :: time_point
  assumes "intake ts tp ks" and "length ks \<le> fuel" and "heaps_ok ts tp"
  defines "R \<equiv> runnable tp + {#k \<in># mset ks. tk_when (ts k) \<le> now1#}"
    and "S \<equiv> scheduled tp + {#k \<in># mset ks. now1 < tk_when (ts k)#}"
  obtains r tp' where "dequeue fuel now1 now2 ts tp = Inr (r, tp')" "heaps_ok ts tp'"
    "picks ts now2 (set_mset R) (set_mset S) r"
    "runnable tp' + scheduled tp' + (case r of None \<Rightarrow> {#} | Some k \<Rightarrow> {#k#}) = R + S"
    "th_task_in_queue tp' = None" "\<exists>q r. tp' = tp\<lparr>th_task_in_queue := None, th_task_pqueue := q, th_task_sch_queue := r\<rparr>"
proof -
  obtain tp1 q1 r1 where e: "(case th_task_in_queue tp of None \<Rightarrow> Inr (tp\<lparr>th_task_in_queue := None\<rparr>)
      | Some k \<Rightarrow> enqueue fuel now1 ts (Some k) (tp\<lparr>th_task_in_queue := None\<rparr>)) = Inr tp1"
    and ok: "heaps_ok ts tp1" and R: "runnable tp1 = R" and S: "scheduled tp1 = S"
    and tp1: "tp1 = tp\<lparr>th_task_in_queue := None, th_task_pqueue := q1, th_task_sch_queue := r1\<rparr>"
    using dequeue_takes_over [OF assms(1-3), of now1] unfolding R_def S_def by blast
  have q1: "is_heap (task_priority_less ts) q1" "mset q1 = R" "set_mset R = set q1"
    and r1: "is_heap (task_when_less ts) r1" "mset r1 = S" "set_mset S = set r1"
    using ok R S by (auto simp: heaps_ok_def runnable_def scheduled_def tp1)
  let ?sch = "r1 \<noteq> [] \<and> tk_when (ts (hd r1)) \<le> now2"
  consider (sch) "r1 \<noteq> []" "tk_when (ts (hd r1)) \<le> now2" | (run) "\<not> ?sch" "q1 \<noteq> []" | (none) "\<not> ?sch" "q1 = []"
    by blast
  then show thesis
  proof cases
    case sch
    let ?r = "butlast (pop_heap (task_when_less ts) r1)"
    have "dequeue fuel now1 now2 ts tp = Inr (Some (hd r1), tp1\<lparr>th_task_sch_queue := ?r\<rparr>)"
      using e sch by (auto simp: dequeue_def tp1 Let_def)
    moreover have "mset ?r + {#hd r1#} = S" using schq.pop_add [OF sch(1)] r1(2) by simp
    moreover have "picks ts now2 (set_mset R) (set_mset S) (Some (hd r1))"
      using sch r1 front_due [OF r1(1), of now2] schq_front [OF r1(1)] by (auto simp: picks_def)
    ultimately show thesis using ok schq.pop_heap [OF r1(1)] q1(2) tp1
      by (intro that) (auto simp: heaps_ok_def runnable_def scheduled_def ac_simps)
  next
    case run
    let ?q = "butlast (pop_heap (task_priority_less ts) q1)"
    have "dequeue fuel now1 now2 ts tp = Inr (Some (hd q1), tp1\<lparr>th_task_pqueue := ?q\<rparr>)"
      using e run by (auto simp: dequeue_def tp1 Let_def)
    moreover have "mset ?q + {#hd q1#} = R" using prioq.pop_add [OF run(2)] q1(2) by simp
    moreover have "picks ts now2 (set_mset R) (set_mset S) (Some (hd q1))"
      using run q1 r1 front_due [OF r1(1), of now2] prioq_runs_first [OF q1(1)] by (auto simp: picks_def)
    moreover have "tp1\<lparr>th_task_pqueue := ?q\<rparr> =
        tp\<lparr>th_task_in_queue := None, th_task_pqueue := ?q, th_task_sch_queue := r1\<rparr>" by (cases tp) (simp add: tp1)
    then have "\<exists>q r. tp1\<lparr>th_task_pqueue := ?q\<rparr> =
        tp\<lparr>th_task_in_queue := None, th_task_pqueue := q, th_task_sch_queue := r\<rparr>" by blast
    ultimately show thesis using ok prioq.pop_heap [OF q1(1)] r1(2) tp1
      by (intro that) (simp_all add: heaps_ok_def runnable_def scheduled_def, simp)
  next
    case none
    have "dequeue fuel now1 now2 ts tp = Inr (None, tp1)" using e none by (auto simp: dequeue_def tp1 Let_def)
    moreover have "picks ts now2 (set_mset R) (set_mset S) None"
      using none q1 r1 front_due [OF r1(1), of now2] by (auto simp: picks_def)
    ultimately show thesis using ok R S tp1 by (intro that) auto
  qed
qed

section \<open>Properties\<close>

text \<open>
  Three tasks: 0 and 1 posted in this order with the default priority, 2 with priority 5; all may
  run at once, and the intake list holds them newest first.
\<close>

definition demo_store :: tstore where
  "demo_store = (\<lambda>k.
     if k = 0 then (fst (make_task (Vtask (User_Fun 0)) default_priority 0 [] 0))
     else if k = 1 then (fst (make_task (Vtask (User_Fun 1)) default_priority 0 [] 1))\<lparr>tk_next := Some 0\<rparr>
     else (fst (make_task (Vtask (User_Fun 2)) (Priority 5) 0 [] 2))\<lparr>tk_next := Some 1\<rparr>)"

definition demo_queue :: thread_private where
  "demo_queue = (make_thread [])\<lparr>th_task_in_queue := Some 2\<rparr>"

lemma demo_queue_ok: "intake demo_store demo_queue [2, 1, 0]" "heaps_ok demo_store demo_queue"
  "runnable demo_queue = {#}" "scheduled demo_queue = {#}"
  by (simp_all add: intake_def heaps_ok_def runnable_def scheduled_def demo_queue_def demo_store_def
      make_thread_def make_task_def is_heap_def)

text \<open>
  \<open>dequeue\<close> ends without fault on every intake list, keeps both heaps heaps, empties the
  intake list, and neither loses nor duplicates a task: what it returns together with what stays
  in the two heaps is exactly what was in the heaps and in the intake list.
\<close>

lemma dequeue_conserves_tasks:
  assumes "intake ts tp ks" and "length ks \<le> fuel" and "heaps_ok ts tp"
  shows "\<exists>r tp'. dequeue fuel now1 now2 ts tp = Inr (r, tp') \<and> heaps_ok ts tp' \<and>
    th_task_in_queue tp' = None \<and>
    runnable tp' + scheduled tp' + (case r of None \<Rightarrow> {#} | Some k \<Rightarrow> {#k#}) =
      runnable tp + scheduled tp + mset ks"
proof -
  let ?A = "{#k \<in># mset ks. tk_when (ts k) \<le> now1#}" and ?B = "{#k \<in># mset ks. now1 < tk_when (ts k)#}"
  obtain r tp' where D: "dequeue fuel now1 now2 ts tp = Inr (r, tp')" "heaps_ok ts tp'"
    "th_task_in_queue tp' = None"
    "runnable tp' + scheduled tp' + (case r of None \<Rightarrow> {#} | Some k \<Rightarrow> {#k#}) =
       (runnable tp + ?A) + (scheduled tp + ?B)"
    by (rule dequeue_spec [OF assms, of now1 now2]) (rule that; assumption)
  have "(runnable tp + ?A) + (scheduled tp + ?B) = runnable tp + scheduled tp + (?A + ?B)"
    by (simp only: ac_simps)
  also have "?A + ?B = mset ks"
    using multiset_partition [of "mset ks" "\<lambda>k. tk_when (ts k) \<le> now1"] by (simp add: not_le)
  finally show ?thesis using D by simp
qed

lemma dequeue_conserves_tasks_example:
  "\<exists>r tp'. dequeue 3 7 7 demo_store demo_queue = Inr (r, tp') \<and> heaps_ok demo_store tp' \<and>
    th_task_in_queue tp' = None \<and>
    runnable tp' + scheduled tp' + (case r of None \<Rightarrow> {#} | Some k \<Rightarrow> {#k#}) = mset [2, 1, 0]"
  using dequeue_conserves_tasks [OF demo_queue_ok(1) _ demo_queue_ok(2), of 3 7 7] demo_queue_ok(3,4) by simp

text \<open>
  C8.  When no scheduled task is waiting, \<open>dequeue\<close> returns a task of the highest priority among
  all runnable ones, old and newly arrived, and among those of that priority the one posted first;
  it returns none only if there is none.
\<close>

theorem dequeue_priority_fifo:
  assumes "intake ts tp ks" and "length ks \<le> fuel" and "heaps_ok ts tp"
    and "scheduled tp = {#}" and "\<forall>k \<in> set ks. tk_when (ts k) \<le> now1"
  shows "\<exists>r tp'. dequeue fuel now1 now2 ts tp = Inr (r, tp') \<and>
    (case r of None \<Rightarrow> runnable tp = {#} \<and> ks = []
     | Some k \<Rightarrow> runs_first ts k (set_mset (runnable tp) \<union> set ks))"
proof -
  have "filter_mset (\<lambda>k. now1 < tk_when (ts k)) (mset ks) = {#}"
    using assms(5) by (auto simp: filter_mset_eq_conv)
  moreover have "filter_mset (\<lambda>k. tk_when (ts k) \<le> now1) (mset ks) = mset ks"
    using assms(5) by (auto simp: filter_mset_eq_conv)
  moreover obtain r tp' where "dequeue fuel now1 now2 ts tp = Inr (r, tp')"
    "picks ts now2 (set_mset (runnable tp + {#k \<in># mset ks. tk_when (ts k) \<le> now1#}))
       (set_mset (scheduled tp + {#k \<in># mset ks. now1 < tk_when (ts k)#})) r"
    by (rule dequeue_spec [OF assms(1-3), of now1 now2]) (rule that; assumption)
  ultimately show ?thesis using assms(4) by (auto simp: picks_def split: if_splits)
qed

theorem dequeue_priority_fifo_witness:
  "\<exists>r tp'. dequeue 3 7 7 demo_store demo_queue = Inr (r, tp') \<and>
    (case r of None \<Rightarrow> False | Some k \<Rightarrow> runs_first demo_store k {0, 1, 2}) \<and> r = Some 2"
proof -
  have "\<forall>k \<in> set [2, 1, 0]. tk_when (demo_store k) \<le> 7" by (simp add: demo_store_def make_task_def)
  from dequeue_priority_fifo [OF demo_queue_ok(1) _ demo_queue_ok(2,4) this, of 3 7] demo_queue_ok(3)
  obtain r tp' where d: "dequeue 3 7 7 demo_store demo_queue = Inr (r, tp')"
    "case r of None \<Rightarrow> False | Some k \<Rightarrow> runs_first demo_store k ({} \<union> set [2, 1, 0])"
    by (auto split: option.splits)
  moreover have "{} \<union> set [2, 1, 0] = {0, 1, 2::nat}" by auto
  moreover have "r = Some 2"
    using d(2) by (auto simp: runs_first_def demo_store_def make_task_def default_priority_def
        less_priority_def split: option.splits if_splits)
  ultimately show ?thesis by auto
qed

text \<open>
  C33.  The heap of scheduled tasks is ordered the wrong way round: as long as one scheduled task is
  still to come, no scheduled task is run, however overdue it is; with nothing else to do,
  \<open>dequeue\<close> then returns no task at all.
\<close>

theorem dequeue_overdue_task_withheld:
  assumes "heaps_ok ts tp" and "th_task_in_queue tp = None" and "th_task_pqueue tp = []"
    and "k1 \<in> set (th_task_sch_queue tp)" and "tk_when (ts k1) \<le> now"
    and "k2 \<in> set (th_task_sch_queue tp)" and "now < tk_when (ts k2)"
  shows "dequeue fuel now now ts tp = Inr (None, tp)"
proof -
  have "tp\<lparr>th_task_in_queue := None\<rparr> = tp" using assms(2) by (cases tp) simp
  moreover have "\<not> tk_when (ts (hd (th_task_sch_queue tp))) \<le> now"
    using schq_front [of ts "th_task_sch_queue tp" k2] assms(1,6,7) by (auto simp: heaps_ok_def)
  ultimately show ?thesis using assms(2,3) by (simp add: dequeue_def)
qed

definition late_store :: tstore where
  "late_store = (\<lambda>k. fst (make_task (Vtask (User_Fun 0)) default_priority (if k = 0 then 10 else 1000) [] 0))"

theorem dequeue_overdue_task_withheld_witness:
  "dequeue 0 500 500 late_store ((make_thread [])\<lparr>th_task_sch_queue := [1, 0]\<rparr>) =
     Inr (None, (make_thread [])\<lparr>th_task_sch_queue := [1, 0]\<rparr>)"
  by (rule dequeue_overdue_task_withheld [of _ _ 0 _ 1])
    (simp_all add: late_store_def make_task_def make_thread_def heaps_ok_def is_heap_def task_when_less_def
      parent_def less_Suc_eq numeral_2_eq_2)

end
