(* ===== verification/CMT_Process.thy ===== *)
theory CMT_Process
  imports CMT_Reach CMT_Queues
begin

text \<open>
  The task loop of a thread, \<open>thread_private::process_tasks\<close> of \<open>src/thread.cpp\<close>: running one
  task, the inner loop that runs tasks until none is left, and one round of the outer loop up to
  the point where the fiber exits, goes round again, switches to another fiber or blocks on the
  condition variable.  User functors are opaque: \<open>res n\<close> is how the call of functor \<open>n\<close>
  ends; \<open>v0\<close> is the value \<open>void_t()\<close>.
\<close>

section \<open>Running one task\<close>

definition call_functor ::
  "thid \<Rightarrow> (nat \<Rightarrow> exn + 'v) \<Rightarrow> 'v \<Rightarrow> task_functor \<Rightarrow> 'v sys \<Rightarrow> fault + ((exn + 'v) \<times> 'v sys)" where
  "call_functor me res v0 f s =
     (case f of
        User_Fun n \<Rightarrow> Inr (res n, s)
      | Notify_Fun t p \<Rightarrow> (case thread_notify me t p s of Inl e \<Rightarrow> Inl e | Inr s \<Rightarrow> Inr (Inr v0, s))
      | Quit_Fun t \<Rightarrow> (case thread_quit me t s of Inl e \<Rightarrow> Inl e | Inr (_, s) \<Rightarrow> Inr (Inr v0, s)))"

text \<open>The virtual \<open>run()\<close>: the functor is not called for a cancelled task.\<close>

definition task_run :: "thid \<Rightarrow> (nat \<Rightarrow> exn + 'v) \<Rightarrow> 'v \<Rightarrow> tptr \<Rightarrow> 'v sys \<Rightarrow> fault + 'v sys" where
  "task_run me res v0 k s =
     (let canceled = tk_canceled (s_tasks s k) in
      case tk_kind (s_tasks s k) of
        Vtask f \<Rightarrow>
          (if canceled then Inr s
           else case call_functor me res v0 f s of
                  Inl e \<Rightarrow> Inl e
                | Inr (r, s) \<Rightarrow> (case vtask_run canceled r of Inl e \<Rightarrow> Inl e | Inr _ \<Rightarrow> Inr s))
      | Rtask f p \<Rightarrow>
          (case (if canceled then Inr (Inr v0, s) else call_functor me res v0 f s) of
             Inl e \<Rightarrow> Inl e
           | Inr (r, s) \<Rightarrow> (case rtask_run canceled r of
                              Inr v \<Rightarrow> set_value me p v s
                            | Inl e \<Rightarrow> set_exception me p e s)))"

text \<open>\<open>release()\<close> of a task that only the queue holds: the destructor of \<open>rtask\<close>.\<close>

definition task_destroy :: "tptr \<Rightarrow> 'v sys \<Rightarrow> 'v sys" where
  "task_destroy k s =
     (case tk_kind (s_tasks s k) of Rtask _ p \<Rightarrow> upd_prom p (set_task None) s | Vtask _ \<Rightarrow> s)"

definition upd_task :: "tptr \<Rightarrow> (task \<Rightarrow> task) \<Rightarrow> 'v sys \<Rightarrow> 'v sys" where
  "upd_task k f s = s\<lparr>s_tasks := (s_tasks s)(k := f (s_tasks s k))\<rparr>"

text \<open>The body of the inner loop up to \<open>release()\<close>.\<close>

definition run_one :: "thid \<Rightarrow> (nat \<Rightarrow> exn + 'v) \<Rightarrow> 'v \<Rightarrow> tptr \<Rightarrow> 'v sys \<Rightarrow> fault + 'v sys" where
  "run_one me res v0 k s =
     (let s = upd_task k (set_active_context (th_current (s_thrs s me))) s in
      case task_run me res v0 k s of
        Inl e \<Rightarrow> Inl e
      | Inr s \<Rightarrow> Inr (task_destroy k (upd_task k (set_active_context None) s)))"

section \<open>The loops\<close>

definition dequeue_sys :: "thid \<Rightarrow> time_point \<Rightarrow> time_point \<Rightarrow> 'v sys \<Rightarrow> fault + (tptr option \<times> 'v sys)" where
  "dequeue_sys me now1 now2 s =
     (case dequeue (s_next_task s) now1 now2 (s_tasks s) (s_thrs s me) of
        Inl e \<Rightarrow> Inl e
      | Inr (k, tp) \<Rightarrow> Inr (k, upd_thread me (\<lambda>_. tp) s))"

text \<open>
  \<open>while( next ) { ... }\<close>; the result is the last \<open>timeout_time\<close>, \<open>next\<close> being null.  The list
  holds the clock readings of the turns, three for each: one of \<open>check_for_timeouts\<close> and two of
  \<open>dequeue\<close>.  It is the fuel of the loop as well.
\<close>

type_synonym readings = "(time_point \<times> time_point \<times> time_point) list"

fun pt_inner :: "readings \<Rightarrow> thid \<Rightarrow> (nat \<Rightarrow> exn + 'v) \<Rightarrow> 'v \<Rightarrow> time_point \<Rightarrow> tptr option
    \<Rightarrow> 'v sys \<Rightarrow> fault + (time_point \<times> 'v sys)" where
  "pt_inner nows me res v0 tmo None s = Inr (tmo, s)"
| "pt_inner [] me res v0 tmo (Some k) s = Inl Out_Of_Fuel"
| "pt_inner ((now0, now1, now2) # nows) me res v0 tmo (Some k) s =
     (case run_one me res v0 k s of
        Inl e \<Rightarrow> Inl e
      | Inr s \<Rightarrow>
          (case check_for_timeouts me now0 s of
             Inl e \<Rightarrow> Inl e
           | Inr (tmo, s) \<Rightarrow>
               (case dequeue_sys me now1 now2 s of
                  Inl e \<Rightarrow> Inl e
                | Inr (nxt, s) \<Rightarrow> pt_inner nows me res v0 tmo nxt s)))"

text \<open>Where a round of the outer loop ends.\<close>

datatype pt_outcome = PT_Exit | PT_Continue | PT_Switch time_point | PT_Block time_point

text \<open>One round of \<open>while( !done )\<close>, entered with \<open>next\<close>, up to the first of its four ends.\<close>

definition pt_round :: "readings \<Rightarrow> thid \<Rightarrow> time_point \<Rightarrow> (nat \<Rightarrow> exn + 'v) \<Rightarrow> 'v \<Rightarrow> tptr option \<Rightarrow> 'v sys
    \<Rightarrow> fault + (pt_outcome \<times> 'v sys)" where
  "pt_round nows me now res v0 nxt s =
     (if th_done (s_thrs s me) then Inr (PT_Exit, s)
      else case check_for_timeouts me now s of
             Inl e \<Rightarrow> Inl e
           | Inr (tmo, s) \<Rightarrow>
               (case pt_inner nows me res v0 tmo nxt s of
                  Inl e \<Rightarrow> Inl e
                | Inr (tmo, s) \<Rightarrow>
                    Inr (if th_blocked (s_thrs s me) = None \<and> th_done (s_thrs s me) then PT_Exit
                         else if tmo = time_min then PT_Continue
                         else if th_ready_head (s_thrs s me) \<noteq> None then PT_Switch tmo
                         else PT_Block tmo, s)))"

text \<open>
  The rest of a round.  After a switch the fiber dequeues when it is entered again; before waiting
  on the condition variable it dequeues once more under the lock.  \<open>Inl tmo\<close> says that it sleeps
  on the condition variable until \<open>tmo\<close> (\<open>time_max\<close>: until notified), \<open>Inr k\<close> that it goes
  round with the task \<open>k\<close>.
\<close>

definition pt_resume :: "thid \<Rightarrow> cptr \<Rightarrow> time_point \<Rightarrow> time_point \<Rightarrow> 'v sys
    \<Rightarrow> fault + ((exn + tptr option) \<times> 'v sys)" where
  "pt_resume me self now1 now2 s =
     (case start_next_task_end me self s of
        (Some e, s) \<Rightarrow> Inr (Inl e, s)
      | (None, s) \<Rightarrow> (case dequeue_sys me now1 now2 s of Inl e \<Rightarrow> Inl e | Inr (k, s) \<Rightarrow> Inr (Inr k, s)))"

definition pt_wait :: "thid \<Rightarrow> time_point \<Rightarrow> time_point \<Rightarrow> time_point \<Rightarrow> 'v sys \<Rightarrow> fault + ((time_point + tptr) \<times> 'v sys)" where
  "pt_wait me tmo now1 now2 s =
     (case dequeue_sys me now1 now2 s of
        Inl e \<Rightarrow> Inl e
      | Inr (Some k, s) \<Rightarrow> Inr (Inr k, s)
      | Inr (None, s) \<Rightarrow> Inr (Inl tmo, s))"

text \<open>
  Rounds of the outer loop as long as they end in \<open>continue\<close>, which leaves \<open>next\<close> null; one
  clock reading per round.  \<open>None\<close>: the readings are used up and the loop still goes round.
\<close>

fun pt_spin :: "thid \<Rightarrow> time_point list \<Rightarrow> (nat \<Rightarrow> exn + 'v) \<Rightarrow> 'v \<Rightarrow> 'v sys
    \<Rightarrow> (fault + (pt_outcome \<times> 'v sys)) option" where
  "pt_spin me [] res v0 s = None"
| "pt_spin me (now # nows) res v0 s =
     (case pt_round [] me now res v0 None s of
        Inr (PT_Continue, s) \<Rightarrow> pt_spin me nows res v0 s
      | r \<Rightarrow> Some r)"

text \<open>The conversion of the timeout for the condition variable: seconds and microseconds since the epoch.\<close>

definition cdiv :: "int \<Rightarrow> int \<Rightarrow> int" where
  "cdiv a b = sgn a * sgn b * (\<bar>a\<bar> div \<bar>b\<bar>)"

definition to_system_time :: "time_point \<Rightarrow> int \<times> int" where
  "to_system_time t =
     (let d = cdiv t 1000 in (cdiv d 1000000, d - cdiv d 1000000 * 1000000))"

section \<open>The busy loop on a due scheduled task\<close>

lemma round_on_due_task:
  assumes inv: "thread_inv t s rs bs" and "\<not> th_done (s_thrs s t)"
    and q: "th_task_sch_queue (s_thrs s t) = k # ks" and due: "tk_when (s_tasks s k) \<le> now"
  shows "\<exists>s' rs' bs'. pt_round [] t now res v0 None s = Inr (PT_Continue, s') \<and> thread_inv t s' rs' bs' \<and>
    \<not> th_done (s_thrs s' t) \<and> th_task_sch_queue (s_thrs s' t) = k # ks \<and> s_tasks s' = s_tasks s"
proof -
  obtain s1 rs1 bs1 where e: "expire_loop (length (th_sleep_pqueue (s_thrs s t))) t now s = Inr s1"
    and R: "expire_result t now s rs bs s1 rs1 bs1" using expire_loop_result [OF inv order_refl] by blast
  have "next_timeout t s \<le> tk_when (s_tasks s k)" using q by (simp add: next_timeout_def Let_def)
  then have ct: "check_for_timeouts t now s = Inr (time_min, s1)" using q due e by (simp add: check_for_timeouts_def)
  have fr: "sched_frame t (owned t s rs bs) s s1" using R by (simp add: expire_result_def)
  then have "th_done (s_thrs s1 t) = th_done (s_thrs s t)" "s_tasks s1 = s_tasks s"
    "th_task_sch_queue (s_thrs s1 t) = th_task_sch_queue (s_thrs s t)" by (auto simp: sched_frame_def)
  with ct assms(2) q R show ?thesis by (auto simp: pt_round_def expire_result_def)
qed

text \<open>
  C29.  Once a scheduled task is due and the loop is entered without a task in hand, as it is after
  the wait on the condition variable that this very task timed, \<open>process_tasks\<close> goes round for
  ever: every round ends in \<open>continue\<close>, none dequeues, and the task is never run.
\<close>

theorem process_tasks_spins_on_due_task:
  assumes "thread_inv t s rs bs" and "\<not> th_done (s_thrs s t)"
    and "th_task_sch_queue (s_thrs s t) = k # ks" and "\<forall>now \<in> set nows. tk_when (s_tasks s k) \<le> now"
  shows "pt_spin t nows res v0 s = None"
  using assms
proof (induction nows arbitrary: s rs bs)
  case (Cons now nows)
  then obtain s' rs' bs' where "pt_round [] t now res v0 None s = Inr (PT_Continue, s')"
    and "thread_inv t s' rs' bs'" "\<not> th_done (s_thrs s' t)"
      "th_task_sch_queue (s_thrs s' t) = k # ks" "s_tasks s' = s_tasks s"
    using round_on_due_task [OF Cons.prems(1-3), of now res v0] by auto
  with Cons.IH [of s' rs' bs'] Cons.prems(4) show ?case by simp
qed simp

definition one_scheduled :: "nat sys" where
  "one_scheduled = (let s = schedule_void 0 (User_Fun 0) 100 default_priority [] init_sys
     in case dequeue_sys 0 50 50 s of Inr (_, s') \<Rightarrow> s' | Inl _ \<Rightarrow> s)"


lemma one_scheduled_ok: "thread_inv 0 one_scheduled [] []" "\<not> th_done (s_thrs one_scheduled 0)"
  "th_task_sch_queue (s_thrs one_scheduled 0) = [0]" "tk_when (s_tasks one_scheduled 0) = 100"
  by (simp_all add: one_scheduled_def schedule_void_def new_task_def make_task_def async_task_def upd_thread_def
      dequeue_sys_def dequeue_def init_sys_def make_thread_def push_heap_def sift_up.simps
      thread_inv_def ready_list_def blocked_list_def is_heap_def)

theorem process_tasks_spins_on_due_task_witness:
  "pt_spin 0 [100, 101, 150] (\<lambda>_. Inr 0) 0 one_scheduled = None"
  by (rule process_tasks_spins_on_due_task [OF one_scheduled_ok(1-3)]) (simp add: one_scheduled_ok)

section \<open>Delivering a result never fails\<close>

text \<open>
  What stays of the task side of a thread when a task runs and its result is delivered: the tasks up
  to their \<open>active_context\<close>, the queues, the flag \<open>done\<close>.
\<close>

definition task_frame :: "thid \<Rightarrow> 'v sys \<Rightarrow> 'v sys \<Rightarrow> bool" where
  "task_frame t s s' =
     ((\<forall>k < s_next_task s. (s_tasks s' k)\<lparr>tk_active_context := None\<rparr> =
                            (s_tasks s k)\<lparr>tk_active_context := None\<rparr>) \<and>
      s_next_task s \<le> s_next_task s' \<and>
      th_task_in_queue (s_thrs s' t) = th_task_in_queue (s_thrs s t) \<and>
      th_task_pqueue (s_thrs s' t) = th_task_pqueue (s_thrs s t) \<and>
      th_task_sch_queue (s_thrs s' t) = th_task_sch_queue (s_thrs s t) \<and>
      th_done (s_thrs s' t) = th_done (s_thrs s t) \<and>
      set (th_sleep_pqueue (s_thrs s' t)) \<subseteq> set (th_sleep_pqueue (s_thrs s t)))"

lemma task_frame_sched: "sched_frame t A s s' \<Longrightarrow>
    set (th_sleep_pqueue (s_thrs s' t)) \<subseteq> set (th_sleep_pqueue (s_thrs s t)) \<Longrightarrow> task_frame t s s'"
  by (auto simp: task_frame_def sched_frame_def)

lemma task_frame_async: "w \<noteq> t \<Longrightarrow> task_frame t s (async_void w f pr s)"
  by (auto simp: task_frame_def async_void_def new_task_def make_task_def async_task_def upd_thread_def Let_def)

lemma notify_total:
  assumes inv: "thread_inv t s rs bs" and rdy: "promise_ready (s_proms s p)"
  obtains s' rs' bs' where "promise_notify t p s = Inr s'" "thread_inv t s' rs' bs'"
    "s_proms s' = s_proms s" "task_frame t s s'"
proof (cases "m_blocked_thread (s_proms s p)")
  case None
  with inv rdy that [of s] show thesis by (simp add: promise_notify_def task_frame_def)
next
  case (Some w)
  show thesis
  proof (cases "w = t")
    case False
    let ?s = "async_void w (Notify_Fun w p) default_priority s"
    note F = async_void_frame [of w "Notify_Fun w p" default_priority s]
    obtain q where "s_thrs ?s t = (s_thrs s t)\<lparr>th_task_in_queue := q\<rparr>" using F(5) by blast
    then have "thread_inv t ?s rs bs" using inv F(1-4)
      by (simp add: thread_inv_def ready_list_def blocked_list_def)
    with Some False rdy F(4) task_frame_async [OF False, of s "Notify_Fun w p" default_priority] that [of ?s rs bs] show thesis
      by (simp add: promise_notify_def thread_notify_def)
  next
    case True
    show thesis
    proof (cases "\<exists>c \<in> set bs. c_prom (s_ctxs s c) = Some p")
      case False
      with notify_no_waiter [OF inv rdy] Some True inv rdy that [of s] show thesis
        by (simp add: promise_notify_def task_frame_def)
    next
      case wt: True
      then obtain c as bs' where c: "c_prom (s_ctxs s c) = Some p" and bs: "bs = as @ c # bs'"
        by (auto simp: in_set_conv_decomp)
      obtain s' where N: "thread_notify t t p s = Inr s'" "thread_inv t s' (c # rs) (as @ bs')"
        "sched_frame t (owned t s rs bs) s s'" "s_proms s' = s_proms s"
        "set (th_sleep_pqueue (s_thrs s' t)) = set (th_sleep_pqueue (s_thrs s t)) - {c}"
        by (rule notify_waiter [OF inv rdy bs c]) (rule that; assumption)
      have "task_frame t s s'" using N(5) by (intro task_frame_sched [OF N(3)]) auto
      with N(1,2,4) Some True rdy that [of s'] show thesis by (simp add: promise_notify_def)
    qed
  qed
qed

lemma task_frame_upd_prom: "task_frame t (upd_prom p f s) s' = task_frame t s s'"
  by (simp add: task_frame_def upd_prom_def)

text \<open>A value or an exception, as \<open>run()\<close> delivers it, ends up in the promise.\<close>

definition delivered :: "exn + 'v \<Rightarrow> 'v promise \<Rightarrow> bool" where
  "delivered r p = (case r of Inr v \<Rightarrow> m_value p = Some v | Inl e \<Rightarrow> m_error p = Some e)"

lemma deliver_total:
  assumes inv: "thread_inv t s rs bs" and err: "m_error (s_proms s p) = None"
  obtains s' rs' bs' where "(case r of Inr v \<Rightarrow> set_value t p v s | Inl e \<Rightarrow> set_exception t p e s) = Inr s'"
    "thread_inv t s' rs' bs'" "delivered r (s_proms s' p)" "\<And>q. q \<noteq> p \<Longrightarrow> s_proms s' q = s_proms s q"
    "task_frame t s s'"
proof -
  let ?f = "\<lambda>_. (case r of Inr v \<Rightarrow> (s_proms s p)\<lparr>m_value := Some v\<rparr> | Inl e \<Rightarrow> (s_proms s p)\<lparr>m_error := Some e\<rparr>)"
  have inv1: "thread_inv t (upd_prom p ?f s) rs bs" using inv by (subst thread_inv_upd_prom) (auto split: sum.split)
  have rdy: "promise_ready (s_proms (upd_prom p ?f s) p)" by (simp add: upd_prom_def promise_ready_def split: sum.split)
  have eq: "(case r of Inr v \<Rightarrow> set_value t p v s | Inl e \<Rightarrow> set_exception t p e s) = promise_notify t p (upd_prom p ?f s)"
    using err by (auto simp: set_value_def set_exception_def store_value_def store_exception_def split: sum.split)
  show thesis
  proof (rule notify_total [OF inv1 rdy])
    fix s' rs' bs'
    assume N: "promise_notify t p (upd_prom p ?f s) = Inr s'" "thread_inv t s' rs' bs'"
      "s_proms s' = s_proms (upd_prom p ?f s)" "task_frame t (upd_prom p ?f s) s'"
    then have pr: "s_proms s' p = ?f ()" "\<And>q. q \<noteq> p \<Longrightarrow> s_proms s' q = s_proms s q"
      by (simp_all add: upd_prom_def)
    have "delivered r (s_proms s' p)" unfolding pr delivered_def by (simp split: sum.split)
    with N(1,2,4) pr(2) eq that show thesis by (simp add: task_frame_upd_prom)
  qed
qed

lemma task_frame_trans: "task_frame t s1 s2 \<Longrightarrow> task_frame t s2 s3 \<Longrightarrow> task_frame t s1 s3"
  by (auto simp: task_frame_def)

lemma task_frame_fields:
  assumes "task_frame t s s'" and "k < s_next_task s"
  shows "tk_prio (s_tasks s' k) = tk_prio (s_tasks s k)" "tk_kind (s_tasks s' k) = tk_kind (s_tasks s k)"
    "tk_posted_num (s_tasks s' k) = tk_posted_num (s_tasks s k)"
    "tk_canceled (s_tasks s' k) = tk_canceled (s_tasks s k)"
proof -
  have eq: "(s_tasks s' k)\<lparr>tk_active_context := None\<rparr> = (s_tasks s k)\<lparr>tk_active_context := None\<rparr>"
    using assms by (simp add: task_frame_def)
  show "tk_prio (s_tasks s' k) = tk_prio (s_tasks s k)" "tk_kind (s_tasks s' k) = tk_kind (s_tasks s k)"
    "tk_posted_num (s_tasks s' k) = tk_posted_num (s_tasks s k)"
    "tk_canceled (s_tasks s' k) = tk_canceled (s_tasks s k)"
    using arg_cong [OF eq, of tk_prio] arg_cong [OF eq, of tk_kind] arg_cong [OF eq, of tk_posted_num]
      arg_cong [OF eq, of tk_canceled] by simp_all
qed

section \<open>Running one task\<close>

text \<open>
  A task that the loop can run without user code reaching into the scheduler: its functor is user
  code, and a \<open>vtask\<close> throws nothing outside the two exception hierarchies.
\<close>

definition plain_task :: "(nat \<Rightarrow> exn + 'v) \<Rightarrow> task \<Rightarrow> bool" where
  "plain_task res tk =
     (case tk_kind tk of
        Rtask (User_Fun f) p \<Rightarrow> True
      | Vtask (User_Fun f) \<Rightarrow> (case res f of Inl (Other_Error _) \<Rightarrow> tk_canceled tk | _ \<Rightarrow> True)
      | _ \<Rightarrow> False)"

definition promise_of :: "task \<Rightarrow> pptr option" where
  "promise_of tk = (case tk_kind tk of Rtask _ p \<Rightarrow> Some p | Vtask _ \<Rightarrow> None)"

text \<open>What the run of a task leaves in its promise.\<close>

definition result_in :: "(nat \<Rightarrow> exn + 'v) \<Rightarrow> task \<Rightarrow> (pptr \<Rightarrow> 'v promise) \<Rightarrow> bool" where
  "result_in res tk ps =
     (case tk_kind tk of
        Rtask (User_Fun f) p \<Rightarrow>
          delivered (if tk_canceled tk then Inl (Future_Error Task_Canceled) else res f) (ps p)
      | _ \<Rightarrow> True)"

lemma thread_inv_upd_task [simp]: "thread_inv t (upd_task k f s) rs bs = thread_inv t s rs bs"
  by (simp add: upd_task_def thread_inv_def)

lemma task_frame_active:
  "task_frame t s (upd_task k (set_active_context c) s)"
  "task_frame t s (task_destroy k s)"
  by (simp_all add: task_frame_def upd_task_def set_active_context_def task_destroy_def upd_prom_def
      split: task_kind.split)

lemma run_one_total:
  assumes inv: "thread_inv t s rs bs" and k: "k < s_next_task s" and plain: "plain_task res (s_tasks s k)"
    and err: "\<And>p. promise_of (s_tasks s k) = Some p \<Longrightarrow> m_error (s_proms s p) = None"
  obtains s' rs' bs' where "run_one t res v0 k s = Inr s'" "thread_inv t s' rs' bs'"
    "task_frame t s s'" "result_in res (s_tasks s k) (s_proms s')"
    "\<And>q. promise_of (s_tasks s k) \<noteq> Some q \<Longrightarrow> s_proms s' q = s_proms s q"
proof -
  let ?s = "upd_task k (set_active_context (th_current (s_thrs s t))) s"
  have s1: "s_proms ?s = s_proms s" "tk_kind (s_tasks ?s k) = tk_kind (s_tasks s k)"
    "tk_canceled (s_tasks ?s k) = tk_canceled (s_tasks s k)" "thread_inv t ?s rs bs"
    using inv by (simp_all add: upd_task_def set_active_context_def thread_inv_def)
  let ?fin = "\<lambda>s2. task_destroy k (upd_task k (set_active_context None) s2)"
  have fr: "task_frame t s (?fin s2)" if "task_frame t ?s s2" for s2
    using task_frame_trans [OF task_frame_active(1) task_frame_trans [OF that
        task_frame_trans [OF task_frame_active(1) task_frame_active(2)]]] .
  show thesis
  proof (cases "tk_kind (s_tasks s k)")
    case (Vtask g)
    then have "task_run t res v0 k ?s = Inr ?s" using plain s1
      by (auto simp: task_run_def plain_task_def call_functor_def vtask_run_def Let_def
          split: task_functor.splits sum.splits exn.splits if_splits)
    then have "run_one t res v0 k s = Inr (?fin ?s)" by (simp add: run_one_def)
    moreover have "?fin ?s = upd_task k (set_active_context None) ?s"
      using Vtask by (simp add: task_destroy_def upd_task_def set_active_context_def)
    ultimately show thesis using that [of "?fin ?s" rs bs] s1(1,4) fr [of ?s] Vtask
      by (simp add: result_in_def task_frame_def) (simp add: upd_task_def)
  next
    case (Rtask g p)
    then obtain f where g: "g = User_Fun f" using plain by (cases g) (auto simp: plain_task_def)
    let ?r = "if tk_canceled (s_tasks s k) then Inl (Future_Error Task_Canceled) else res f"
    have e: "m_error (s_proms ?s p) = None" using err [of p] Rtask s1 by (simp add: promise_of_def)
    have run: "task_run t res v0 k ?s = (case ?r of Inr v \<Rightarrow> set_value t p v ?s | Inl e \<Rightarrow> set_exception t p e ?s)"
      using Rtask g s1 by (auto simp: task_run_def call_functor_def rtask_run_def Let_def split: sum.split)
    obtain s2 rs2 bs2 where D: "(case ?r of Inr v \<Rightarrow> set_value t p v ?s | Inl e \<Rightarrow> set_exception t p e ?s) = Inr s2"
      "thread_inv t s2 rs2 bs2"
      "delivered ?r (s_proms s2 p)" "\<And>q. q \<noteq> p \<Longrightarrow> s_proms s2 q = s_proms ?s q" "task_frame t ?s s2"
      by (rule deliver_total [OF s1(4) e, of ?r]) (rule that; assumption)
    have "tk_kind (s_tasks s2 k) = Rtask g p"
      using task_frame_fields(2) [OF D(5), of k] k Rtask s1(2) by (simp add: upd_task_def)
    then have en: "?fin s2 = upd_prom p (set_task None) (upd_task k (set_active_context None) s2)"
      by (simp add: task_destroy_def upd_task_def set_active_context_def)
    have "run_one t res v0 k s = Inr (?fin s2)" using D(1) run by (simp add: run_one_def)
    moreover have "thread_inv t (?fin s2) rs2 bs2" unfolding en
      using D(2) by (subst thread_inv_upd_prom) (simp_all add: set_task_def)
    moreover have "s_proms (?fin s2) = (s_proms s2)(p := set_task None (s_proms s2 p))"
      unfolding en by (simp add: upd_prom_def upd_task_def)
    ultimately show thesis using that [of "?fin s2" rs2 bs2] fr [OF D(5)] D(3,4) s1(1) Rtask g
      by (auto simp: result_in_def promise_of_def delivered_def set_task_def split: sum.splits)
  qed
qed

section \<open>Running all tasks\<close>

lemma thread_inv_queues:
  "thread_inv t s rs bs \<Longrightarrow> thread_inv t (upd_thread t (\<lambda>_. (s_thrs s t)\<lparr>th_task_pqueue := q\<rparr>) s) rs bs"
  by (simp add: upd_thread_def thread_inv_def ready_list_def blocked_list_def)

lemma heaps_ok_frame:
  assumes "task_frame t s s'" and "heaps_ok (s_tasks s) (s_thrs s t)" and "th_task_sch_queue (s_thrs s t) = []"
    and "\<forall>k \<in> set (th_task_pqueue (s_thrs s t)). k < s_next_task s"
  shows "heaps_ok (s_tasks s') (s_thrs s' t)"
proof -
  let ?q = "th_task_pqueue (s_thrs s t)"
  have "is_heap (task_priority_less (s_tasks s')) ?q = is_heap (task_priority_less (s_tasks s)) ?q"
    using assms(4) task_frame_fields [OF assms(1)] by (intro is_heap_cong) (simp add: task_priority_less_def)
  then show ?thesis using assms by (simp add: heaps_ok_def task_frame_def is_heap_def)
qed

text \<open>
  Tasks that the loop can run: allocated and plain, each with a promise of its own that holds no
  exception.
\<close>

definition own_tasks :: "(nat \<Rightarrow> exn + 'v) \<Rightarrow> tptr list \<Rightarrow> 'v sys \<Rightarrow> bool" where
  "own_tasks res ks s =
     (distinct ks \<and>
      (\<forall>k \<in> set ks. k < s_next_task s \<and> plain_task res (s_tasks s k) \<and>
         (\<forall>p. promise_of (s_tasks s k) = Some p \<longrightarrow> m_error (s_proms s p) = None \<and>
            (\<forall>j \<in> set ks. promise_of (s_tasks s j) = Some p \<longrightarrow> j = k))))"

text \<open>The tasks \<open>ks\<close> are all the work of the thread: no sleeper, no scheduled task, an empty intake list.\<close>

definition work :: "thid \<Rightarrow> (nat \<Rightarrow> exn + 'v) \<Rightarrow> tptr list \<Rightarrow> 'v sys \<Rightarrow> bool" where
  "work t res ks s =
     (th_task_in_queue (s_thrs s t) = None \<and> th_task_sch_queue (s_thrs s t) = [] \<and>
      th_sleep_pqueue (s_thrs s t) = [] \<and> own_tasks res ks s)"

text \<open>
  Tasks as they are posted: \<open>ks\<close> in the intake list, all of them due, in front of the runnable ones
  of the heap; no sleeper and no scheduled task.
\<close>

definition posted :: "thid \<Rightarrow> (nat \<Rightarrow> exn + 'v) \<Rightarrow> time_point \<Rightarrow> tptr list \<Rightarrow> 'v sys \<Rightarrow> bool" where
  "posted t res now ks s =
     (intake (s_tasks s) (s_thrs s t) ks \<and> (\<forall>k \<in> set ks. tk_when (s_tasks s k) \<le> now) \<and>
      th_task_sch_queue (s_thrs s t) = [] \<and> th_sleep_pqueue (s_thrs s t) = [] \<and>
      own_tasks res (ks @ th_task_pqueue (s_thrs s t)) s)"

lemma workD:
  assumes "work t res ks s"
  shows "th_task_in_queue (s_thrs s t) = None" "th_task_sch_queue (s_thrs s t) = []"
    "th_sleep_pqueue (s_thrs s t) = []" "distinct ks"
    "k \<in> set ks \<Longrightarrow> k < s_next_task s" "k \<in> set ks \<Longrightarrow> plain_task res (s_tasks s k)"
    "k \<in> set ks \<Longrightarrow> promise_of (s_tasks s k) = Some p \<Longrightarrow> m_error (s_proms s p) = None"
    "k \<in> set ks \<Longrightarrow> j \<in> set ks \<Longrightarrow> promise_of (s_tasks s k) = Some p \<Longrightarrow>
       promise_of (s_tasks s j) = Some p \<Longrightarrow> j = k"
  using assms unfolding work_def own_tasks_def by blast+

lemma workI:
  assumes "th_task_in_queue (s_thrs s t) = None" "th_task_sch_queue (s_thrs s t) = []"
    "th_sleep_pqueue (s_thrs s t) = []" "distinct ks"
    "\<And>k. k \<in> set ks \<Longrightarrow> k < s_next_task s" "\<And>k. k \<in> set ks \<Longrightarrow> plain_task res (s_tasks s k)"
    "\<And>k p. k \<in> set ks \<Longrightarrow> promise_of (s_tasks s k) = Some p \<Longrightarrow> m_error (s_proms s p) = None"
    "\<And>k j p. k \<in> set ks \<Longrightarrow> j \<in> set ks \<Longrightarrow> promise_of (s_tasks s k) = Some p \<Longrightarrow>
       promise_of (s_tasks s j) = Some p \<Longrightarrow> j = k"
  shows "work t res ks s"
  using assms unfolding work_def own_tasks_def by blast

lemma result_in_cong:
  "tk_kind tk' = tk_kind tk \<Longrightarrow> tk_canceled tk' = tk_canceled tk \<Longrightarrow>
   (\<And>p. promise_of tk = Some p \<Longrightarrow> ps' p = ps p) \<Longrightarrow> result_in res tk' ps' = result_in res tk ps"
  by (auto simp: result_in_def promise_of_def split: task_kind.splits task_functor.splits)

lemma work_after_run:
  assumes w: "work t res (k # ks) s" and fr: "task_frame t s s1"
    and pr: "\<And>q. promise_of (s_tasks s k) \<noteq> Some q \<Longrightarrow> s_proms s1 q = s_proms s q"
  shows "work t res ks s1"
proof -
  have same: "promise_of (s_tasks s1 j) = promise_of (s_tasks s j)"
    "plain_task res (s_tasks s1 j) = plain_task res (s_tasks s j)" "j < s_next_task s1" if "j \<in> set (k # ks)" for j
  proof -
    have j: "j < s_next_task s" using workD(5) [OF w that] .
    note F = task_frame_fields [OF fr j]
    show "promise_of (s_tasks s1 j) = promise_of (s_tasks s j)" by (simp add: promise_of_def F)
    show "plain_task res (s_tasks s1 j) = plain_task res (s_tasks s j)" unfolding plain_task_def F ..
    show "j < s_next_task s1" using fr j by (simp add: task_frame_def)
  qed
  note W = workD [OF w]
  show ?thesis
  proof (rule workI)
    show "th_task_in_queue (s_thrs s1 t) = None" "th_task_sch_queue (s_thrs s1 t) = []"
      "th_sleep_pqueue (s_thrs s1 t) = []" using fr W(1-3) by (simp_all add: task_frame_def)
    show "distinct ks" using W(4) by simp
    fix j assume j: "j \<in> set ks"
    then have jk: "j \<in> set (k # ks)" "j \<noteq> k" using W(4) by auto
    show "j < s_next_task s1" "plain_task res (s_tasks s1 j)" using same jk W(6) by simp_all
    {
      fix p assume p: "promise_of (s_tasks s1 j) = Some p"
      then have p': "promise_of (s_tasks s j) = Some p" using same(1) jk(1) by simp
      then have "promise_of (s_tasks s k) \<noteq> Some p" using W(8) [of k j p] jk by auto
      then show "m_error (s_proms s1 p) = None" using pr W(7) [OF jk(1) p'] by simp
      fix i assume "i \<in> set ks" "promise_of (s_tasks s1 i) = Some p"
      then show "i = j" using W(8) [of j i p] jk p' same(1) [of i] by simp
    }
  qed
qed

text \<open>The end of one turn of the inner loop: nothing to time out, and the next task if there is one.\<close>

lemma turn_end:
  assumes w: "work t res (th_task_pqueue (s_thrs s t)) s" and ok: "heaps_ok (s_tasks s) (s_thrs s t)"
    and inv: "thread_inv t s rs bs"
  shows "check_for_timeouts t now0 s = Inr (time_max, s)"
    "th_task_pqueue (s_thrs s t) = [] \<Longrightarrow> dequeue_sys t now1 now2 s = Inr (None, s)"
    "th_task_pqueue (s_thrs s t) \<noteq> [] \<Longrightarrow> \<exists>k s'. dequeue_sys t now1 now2 s = Inr (Some k, s') \<and>
       thread_inv t s' rs bs \<and> heaps_ok (s_tasks s') (s_thrs s' t) \<and> s_proms s' = s_proms s \<and> s_tasks s' = s_tasks s \<and>
       work t res (k # th_task_pqueue (s_thrs s' t)) s' \<and>
       mset (k # th_task_pqueue (s_thrs s' t)) = mset (th_task_pqueue (s_thrs s t))"
proof -
  let ?tp = "s_thrs s t" and ?q = "th_task_pqueue (s_thrs s t)"
  have q: "th_task_in_queue ?tp = None" "th_task_sch_queue ?tp = []" "th_sleep_pqueue ?tp = []"
    using workD [OF w] by simp_all
  have tp: "?tp\<lparr>th_task_in_queue := None\<rparr> = ?tp" using q(1) by (cases ?tp) simp
  have tp2: "?tp\<lparr>th_task_in_queue := None, th_task_pqueue := x\<rparr> = ?tp\<lparr>th_task_pqueue := x\<rparr>" for x
    using q(1) by (cases ?tp) simp
  show "check_for_timeouts t now0 s = Inr (time_max, s)" using q by (simp add: check_for_timeouts_def)
  show "?q = [] \<Longrightarrow> dequeue_sys t now1 now2 s = Inr (None, s)"
    using q by (simp add: dequeue_sys_def dequeue_def upd_thread_def tp)
  assume ne: "?q \<noteq> []"
  let ?r = "butlast (pop_heap (task_priority_less (s_tasks s)) ?q)"
  let ?s = "upd_thread t (\<lambda>_. ?tp\<lparr>th_task_pqueue := ?r\<rparr>) s"
  have m: "mset (hd ?q # ?r) = mset ?q" using prioq.pop_add [OF ne, of "s_tasks s"] by simp
  have "dequeue_sys t now1 now2 s = Inr (Some (hd ?q), ?s)"
    using q ne by (simp add: dequeue_sys_def dequeue_def upd_thread_def tp2)
  moreover have "heaps_ok (s_tasks ?s) (s_thrs ?s t)"
    using ok prioq.pop_heap by (simp add: heaps_ok_def upd_thread_def)
  moreover have "work t res (hd ?q # ?r) ?s"
    using workD [OF w] mset_eq_setD [OF m] mset_eq_imp_distinct_iff [OF m]
    by (intro workI) (simp_all only: upd_thread_def, simp_all)
  ultimately show "\<exists>k s'. dequeue_sys t now1 now2 s = Inr (Some k, s') \<and>
       thread_inv t s' rs bs \<and> heaps_ok (s_tasks s') (s_thrs s' t) \<and> s_proms s' = s_proms s \<and> s_tasks s' = s_tasks s \<and>
       work t res (k # th_task_pqueue (s_thrs s' t)) s' \<and>
       mset (k # th_task_pqueue (s_thrs s' t)) = mset ?q"
    using thread_inv_queues [OF inv, of ?r] m
    by (intro exI [of _ "hd ?q"] exI [of _ ?s]) (simp add: upd_thread_def)
qed

text \<open>The loop by induction on the turns; promises of no task of the queue are not touched.\<close>

lemma inner_loop_results:
  assumes "thread_inv t s rs bs" and "heaps_ok (s_tasks s) (s_thrs s t)"
    and "work t res (k # th_task_pqueue (s_thrs s t)) s"
    and "length (th_task_pqueue (s_thrs s t)) < length nows"
  shows "\<exists>s'. pt_inner nows t res v0 tmo (Some k) s = Inr (time_max, s') \<and>
      th_task_pqueue (s_thrs s' t) = [] \<and> th_task_in_queue (s_thrs s' t) = None \<and>
      (\<forall>p. (\<forall>j \<in> set (k # th_task_pqueue (s_thrs s t)). promise_of (s_tasks s j) \<noteq> Some p) \<longrightarrow> s_proms s' p = s_proms s p) \<and>
      (\<forall>j \<in> set (k # th_task_pqueue (s_thrs s t)). result_in res (s_tasks s j) (s_proms s'))"
  using assms
proof (induction nows arbitrary: k s rs bs tmo)
  case (Cons now nows)
  obtain now0 now1 now2 where now: "now = (now0, now1, now2)" by (cases now)
  let ?q = "th_task_pqueue (s_thrs s t)"
  have k: "k < s_next_task s" "plain_task res (s_tasks s k)"
    "\<And>p. promise_of (s_tasks s k) = Some p \<Longrightarrow> m_error (s_proms s p) = None"
    by (rule workD(5-7) [OF Cons.prems(3) list.set_intros(1)]; assumption?)+
  obtain s1 rs1 bs1 where run: "run_one t res v0 k s = Inr s1" and inv1: "thread_inv t s1 rs1 bs1"
    and fr: "task_frame t s s1" and res: "result_in res (s_tasks s k) (s_proms s1)"
    and pr: "\<And>q. promise_of (s_tasks s k) \<noteq> Some q \<Longrightarrow> s_proms s1 q = s_proms s q"
    by (rule run_one_total [OF Cons.prems(1) k, of v0]) (assumption, (rule that; assumption))
  have q1: "th_task_pqueue (s_thrs s1 t) = ?q" using fr by (simp add: task_frame_def)
  have w1: "work t res (th_task_pqueue (s_thrs s1 t)) s1" unfolding q1
    using Cons.prems(3) fr pr by (rule work_after_run)
  have ok1: "heaps_ok (s_tasks s1) (s_thrs s1 t)"
    using Cons.prems(2) workD [OF Cons.prems(3)] by (intro heaps_ok_frame [OF fr]) simp_all
  note E = turn_end(1) [OF w1 ok1 inv1, of now0] turn_end(2,3) [OF w1 ok1 inv1, of now1 now2, unfolded q1]
  have lt: "\<forall>j \<in> set (k # ?q). j < s_next_task s" using workD(5) [OF Cons.prems(3)] by blast
  show ?case
  proof (cases "?q = []")
    case True
    with run E(1,2) res pr q1 now workD(1) [OF w1] show ?thesis by auto
  next
    case False
    from E(3) [OF this] obtain k2 s2 where d: "dequeue_sys t now1 now2 s1 = Inr (Some k2, s2)"
      and inv2: "thread_inv t s2 rs1 bs1" and ok2: "heaps_ok (s_tasks s2) (s_thrs s2 t)"
      and same: "s_proms s2 = s_proms s1" "s_tasks s2 = s_tasks s1"
      and w2: "work t res (k2 # th_task_pqueue (s_thrs s2 t)) s2"
      and m: "mset (k2 # th_task_pqueue (s_thrs s2 t)) = mset ?q" by blast
    note st = mset_eq_setD [OF m]
    have "length (th_task_pqueue (s_thrs s2 t)) < length nows"
      using Cons.prems(4) arg_cong [OF m, of size] by simp
    from Cons.IH [OF inv2 ok2 w2 this, of time_max, unfolded st] obtain s' where
      "pt_inner nows t res v0 time_max (Some k2) s2 = Inr (time_max, s')"
      and R: "th_task_pqueue (s_thrs s' t) = [] \<and> th_task_in_queue (s_thrs s' t) = None"
        "\<forall>p. (\<forall>j \<in> set ?q. promise_of (s_tasks s2 j) \<noteq> Some p) \<longrightarrow> s_proms s' p = s_proms s2 p"
        "\<forall>j \<in> set ?q. result_in res (s_tasks s2 j) (s_proms s')" by blast
    then have go: "pt_inner (now # nows) t res v0 tmo (Some k) s = Inr (time_max, s')"
      using run E(1) d now by simp
    have tk: "tk_kind (s_tasks s2 j) = tk_kind (s_tasks s j)" "tk_canceled (s_tasks s2 j) = tk_canceled (s_tasks s j)"
      "promise_of (s_tasks s2 j) = promise_of (s_tasks s j)" if "j \<in> set (k # ?q)" for j
      using task_frame_fields [OF fr lt [rule_format, OF that]] same by (simp_all add: promise_of_def)
    have "result_in res (s_tasks s j) (s_proms s')" if "j \<in> set ?q" for j
      using bspec [OF R(3) that] tk [of j] that
      by (subst (asm) result_in_cong [of _ "s_tasks s j" _ "s_proms s'"]) simp_all
    moreover have "promise_of (s_tasks s j) \<noteq> Some p" if "promise_of (s_tasks s k) = Some p" "j \<in> set ?q" for j p
      using workD(4) [OF Cons.prems(3)] workD(8) [OF Cons.prems(3), of k j p] that by auto
    then have "result_in res (s_tasks s k) (s_proms s')"
      using res R(2) tk same by (subst result_in_cong [of _ "s_tasks s k" _ "s_proms s1"]) auto
    moreover have "s_proms s' p = s_proms s p" if "\<forall>j \<in> set (k # ?q). promise_of (s_tasks s j) \<noteq> Some p" for p
      using R(2) that tk same pr by simp
    ultimately show ?thesis using go R(1) by auto
  qed
qed simp

text \<open>The first \<open>dequeue\<close> takes the intake list over and leaves the loop with one task in hand.\<close>

lemma posted_dequeue:
  assumes inv: "thread_inv t s rs bs" and ok: "heaps_ok (s_tasks s) (s_thrs s t)" and w: "posted t res now1 ks s"
    and ne: "ks @ th_task_pqueue (s_thrs s t) \<noteq> []"
  obtains k s1 where "dequeue_sys t now1 now2 s = Inr (Some k, s1)" "thread_inv t s1 rs bs"
    "heaps_ok (s_tasks s1) (s_thrs s1 t)" "work t res (k # th_task_pqueue (s_thrs s1 t)) s1" "s_tasks s1 = s_tasks s"
    "mset (k # th_task_pqueue (s_thrs s1 t)) = mset (ks @ th_task_pqueue (s_thrs s t))"
proof -
  let ?ts = "s_tasks s" and ?tp = "s_thrs s t" and ?all = "ks @ th_task_pqueue (s_thrs s t)"
  note W = w [unfolded posted_def own_tasks_def]
  have ik: "intake ?ts ?tp ks" using W by blast
  have "set ks \<subseteq> {..<s_next_task s}" "distinct ks" using W by auto
  then have len: "length ks \<le> s_next_task s" using card_mono [of "{..<s_next_task s}" "set ks"] by (simp add: distinct_card)
  have A: "{#k \<in># mset ks. tk_when (?ts k) \<le> now1#} = mset ks" "{#k \<in># mset ks. now1 < tk_when (?ts k)#} = {#}"
    using W by (auto simp: filter_mset_eq_conv)
  obtain tp q x where e: "(case th_task_in_queue ?tp of None \<Rightarrow> Inr (?tp\<lparr>th_task_in_queue := None\<rparr>)
      | Some k \<Rightarrow> enqueue (s_next_task s) now1 ?ts (Some k) (?tp\<lparr>th_task_in_queue := None\<rparr>)) = Inr tp"
    and ok1: "heaps_ok ?ts tp" and R: "runnable tp = runnable ?tp + mset ks" and S: "scheduled tp = scheduled ?tp + {#}"
    and tp: "tp = ?tp\<lparr>th_task_in_queue := None, th_task_pqueue := q, th_task_sch_queue := x\<rparr>"
    using dequeue_takes_over [OF ik len ok, of now1, unfolded A] by blast
  have x: "x = []" and q: "mset q = mset ?all" using R S W by (simp_all add: tp runnable_def scheduled_def ac_simps)
  have tpN: "tp\<lparr>th_task_in_queue := None\<rparr> = tp" by (simp add: tp)
  let ?s = "upd_thread t (\<lambda>_. tp) s"
  have f: "s_thrs ?s t = tp" "s_tasks ?s = ?ts" "s_proms ?s = s_proms s" "s_next_task ?s = s_next_task s"
    by (simp_all add: upd_thread_def)
  have inv1: "thread_inv t ?s rs bs"
    using inv by (simp add: upd_thread_def tp thread_inv_def ready_list_def blocked_list_def)
  have "own_tasks res ?all s" using w by (simp add: posted_def)
  then have ot: "own_tasks res q ?s"
    unfolding own_tasks_def f mset_eq_setD [OF q] mset_eq_imp_distinct_iff [OF q] .
  have tf: "th_task_in_queue tp = None" "th_task_sch_queue tp = []" "th_sleep_pqueue tp = []" "th_task_pqueue tp = q"
    using W by (simp_all add: tp x)
  have w1: "work t res (th_task_pqueue (s_thrs ?s t)) ?s" using ot by (simp add: work_def f tf)
  have same: "dequeue_sys t now1 now2 s = dequeue_sys t now1 now2 ?s"
  proof -
    have "dequeue (s_next_task s) now1 now2 ?ts ?tp = dequeue (s_next_task s) now1 now2 ?ts tp"
      unfolding dequeue_def Let_def e by (simp add: tp)
    moreover have "upd_thread t (\<lambda>_. y) ?s = upd_thread t (\<lambda>_. y) s" for y by (simp add: upd_thread_def)
    ultimately show ?thesis by (simp add: dequeue_sys_def f split: sum.split prod.split)
  qed
  have "th_task_pqueue (s_thrs ?s t) \<noteq> []" using ne q by (auto simp: f tf)
  with turn_end(3) [OF w1 _ inv1, of now1 now2] ok1 f obtain k s1 where
    "dequeue_sys t now1 now2 ?s = Inr (Some k, s1)" "thread_inv t s1 rs bs" "heaps_ok (s_tasks s1) (s_thrs s1 t)"
    "s_tasks s1 = s_tasks ?s" "work t res (k # th_task_pqueue (s_thrs s1 t)) s1"
    "mset (k # th_task_pqueue (s_thrs s1 t)) = mset (th_task_pqueue (s_thrs ?s t))" by auto
  then show thesis using that [of k s1] same q by (simp add: f tf)
qed

text \<open>
  C9.  Tasks that are posted are run: when the fiber of the task loop dequeues and enters the inner
  loop, every task of the intake list and of the heap of runnable tasks is run and the loop ends.  No
  turn beyond one per task is needed, nothing faults, both queues are empty afterwards, and the
  promise of every task holds what its functor returned or threw, or the cancellation exception when
  the task had been cancelled.  Nothing is scheduled for later and no fiber sleeps (for scheduled
  tasks see \<open>process_tasks_spins_on_due_task\<close> and \<open>dequeue_overdue_task_withheld\<close>), and the
  functors are opaque: they return or throw, and neither post nor block.
\<close>

theorem inner_loop_runs_all_tasks:
  assumes "thread_inv t s rs bs" and "heaps_ok (s_tasks s) (s_thrs s t)" and "posted t res now1 ks s"
    and "ks @ th_task_pqueue (s_thrs s t) \<noteq> []" and "length (ks @ th_task_pqueue (s_thrs s t)) \<le> length nows"
  shows "\<exists>k s1 s'. dequeue_sys t now1 now2 s = Inr (Some k, s1) \<and>
    pt_inner nows t res v0 tmo (Some k) s1 = Inr (time_max, s') \<and>
    th_task_pqueue (s_thrs s' t) = [] \<and> th_task_in_queue (s_thrs s' t) = None \<and>
    (\<forall>j \<in> set (ks @ th_task_pqueue (s_thrs s t)). result_in res (s_tasks s j) (s_proms s'))"
proof -
  obtain k s1 where D: "dequeue_sys t now1 now2 s = Inr (Some k, s1)" "thread_inv t s1 rs bs"
    "heaps_ok (s_tasks s1) (s_thrs s1 t)" "work t res (k # th_task_pqueue (s_thrs s1 t)) s1" "s_tasks s1 = s_tasks s"
    "mset (k # th_task_pqueue (s_thrs s1 t)) = mset (ks @ th_task_pqueue (s_thrs s t))"
    by (rule posted_dequeue [OF assms(1-4), of now2]) (rule that; assumption)
  have "length (th_task_pqueue (s_thrs s1 t)) < length nows"
    using assms(5) arg_cong [OF D(6), of size] by simp
  from inner_loop_results [OF D(2-4) this, of v0 tmo, unfolded mset_eq_setD [OF D(6)] D(5)] show ?thesis
    using D(1) by blast
qed

text \<open>Two tasks in the intake list: one that returns 7 into promise 0, one that throws into promise 1.\<close>

definition two_tasks :: "nat sys" where
  "two_tasks = snd (async_result 0 (User_Fun 1) default_priority []
     (snd (async_result 0 (User_Fun 0) default_priority [] init_sys)))"

definition two_results :: "nat \<Rightarrow> exn + nat" where
  "two_results n = (if n = 0 then Inr 7 else Inl (Std_Error ''bad''))"

theorem inner_loop_runs_all_tasks_witness:
  "\<exists>k s1 s'. dequeue_sys 0 50 50 two_tasks = Inr (Some k, s1) \<and>
    pt_inner [(50, 50, 51), (51, 52, 53)] 0 two_results 0 0 (Some k) s1 = Inr (time_max, s') \<and>
    m_value (s_proms s' 0) = Some 7 \<and> m_error (s_proms s' 1) = Some (Std_Error ''bad'')"
proof -
  note d = two_tasks_def async_result_def new_promise_def new_task_def make_task_def async_task_def
    upd_thread_def upd_prom_def set_task_def init_sys_def make_thread_def make_promise_def time_min_def
  have "thread_inv 0 two_tasks [] []" "heaps_ok (s_tasks two_tasks) (s_thrs two_tasks 0)"
    by (simp_all add: d Let_def thread_inv_def ready_list_def blocked_list_def is_heap_def heaps_ok_def)
  moreover have q: "th_task_pqueue (s_thrs two_tasks 0) = []" by (simp add: d Let_def)
  moreover have k: "tk_kind (s_tasks two_tasks 0) = Rtask (User_Fun 0) 0" "\<not> tk_canceled (s_tasks two_tasks 0)"
    "tk_kind (s_tasks two_tasks 1) = Rtask (User_Fun 1) 1" "\<not> tk_canceled (s_tasks two_tasks 1)"
    by (simp_all add: d Let_def)
  moreover have "s_next_task two_tasks = 2" "m_error (s_proms two_tasks 0) = None" "m_error (s_proms two_tasks 1) = None"
    "intake (s_tasks two_tasks) (s_thrs two_tasks 0) [1, 0]" "th_task_sch_queue (s_thrs two_tasks 0) = []"
    "th_sleep_pqueue (s_thrs two_tasks 0) = []" "tk_when (s_tasks two_tasks 0) \<le> 50" "tk_when (s_tasks two_tasks 1) \<le> 50"
    by (simp_all add: d Let_def intake_def)
  ultimately have "posted 0 two_results 50 [1, 0] two_tasks"
    by (auto simp: posted_def own_tasks_def plain_task_def promise_of_def)
  with \<open>thread_inv 0 two_tasks [] []\<close> \<open>heaps_ok (s_tasks two_tasks) (s_thrs two_tasks 0)\<close> q
    inner_loop_runs_all_tasks [of 0 two_tasks "[]" "[]" two_results 50 "[1, 0]" "[(50, 50, 51), (51, 52, 53)]" 50 0 0]
  show ?thesis using k by (auto simp: result_in_def delivered_def two_results_def)
qed

end
