(* ===== verification/CMT_Runs.thy ===== *)
theory CMT_Runs
  imports CMT_Process
begin

text \<open>
  Histories of the process: any number of threads, each calling the operations of \<open>CMT_Sched\<close>,
  \<open>CMT_Fiber\<close> and \<open>CMT_Process\<close> in any order.  \<open>fiber_exec\<close> carries no guard of its own; what the
  scheduler relies on its callers for is the separate predicate \<open>orderly\<close>, and under it the
  invariant of \<open>CMT_Reach\<close> holds for all threads at once.
\<close>

section \<open>Events\<close>

text \<open>
  One call of a thread into the library.  A blocking call is two events, up to the switch and after
  it; a task is run between \<open>Ev_Task_Begin\<close> and \<open>Ev_Task_End\<close>, with the calls of its functor and
  the delivery of its result as events in between.  Clock readings are arguments.
\<close>

datatype 'v fiber_event =
    Ev_New_Promise
  | Ev_Wait pptr time_point time_point time_point
  | Ev_Wait_End pptr
  | Ev_Sleep time_point time_point
  | Ev_Sleep_End
  | Ev_Yield time_point
  | Ev_Yield_End
  | Ev_Timeouts time_point
  | Ev_Set_Value pptr 'v
  | Ev_Set_Exception pptr exn
  | Ev_Set_Timeout pptr
  | Ev_Notify thid pptr
  | Ev_Cancel pptr
  | Ev_Async thid task_functor priority
  | Ev_Async_Result thid task_functor priority string
  | Ev_Schedule thid task_functor time_point priority string
  | Ev_Schedule_Void thid task_functor time_point priority string
  | Ev_Dequeue time_point time_point
  | Ev_Task_Begin tptr
  | Ev_Task_End tptr
  | Ev_Quit thid

text \<open>
  What the call of thread \<open>t\<close> does.  The second half of a blocking call runs in the context that was
  switched to; a thread without a context is in no blocking call.
\<close>

fun fiber_exec :: "thid \<Rightarrow> 'v fiber_event \<Rightarrow> 'v sys \<Rightarrow> fault + 'v sys" where
  "fiber_exec t Ev_New_Promise s = Inr (snd (new_promise s))"
| "fiber_exec t (Ev_Wait p timeout now1 now2) s = map_sum id snd (promise_wait_begin t p timeout now1 now2 s)"
| "fiber_exec t (Ev_Wait_End p) s =
     Inr (case th_current (s_thrs s t) of None \<Rightarrow> s | Some c \<Rightarrow> snd (promise_wait_end t c p s))"
| "fiber_exec t (Ev_Sleep tm now) s = map_sum id snd (sleep_until_begin t tm now s)"
| "fiber_exec t Ev_Sleep_End s =
     Inr (case th_current (s_thrs s t) of None \<Rightarrow> s | Some c \<Rightarrow> snd (sleep_until_end t c s))"
| "fiber_exec t (Ev_Yield now) s = map_sum id snd (yield_begin t now s)"
| "fiber_exec t Ev_Yield_End s =
     Inr (case th_current (s_thrs s t) of None \<Rightarrow> s | Some c \<Rightarrow> snd (start_next_task_end t c s))"
| "fiber_exec t (Ev_Timeouts now) s = map_sum id snd (check_for_timeouts t now s)"
| "fiber_exec t (Ev_Set_Value p v) s = set_value t p v s"
| "fiber_exec t (Ev_Set_Exception p e) s = set_exception t p e s"
| "fiber_exec t (Ev_Set_Timeout p) s = set_timeout t p s"
| "fiber_exec t (Ev_Notify w p) s = thread_notify t w p s"
| "fiber_exec t (Ev_Cancel p) s = Inr (promise_cancel p s)"
| "fiber_exec t (Ev_Async w f pr) s = Inr (async_void w f pr s)"
| "fiber_exec t (Ev_Async_Result w f pr n) s = Inr (snd (async_result w f pr n s))"
| "fiber_exec t (Ev_Schedule w f tm pr n) s = Inr (snd (schedule_result w f tm pr n s))"
| "fiber_exec t (Ev_Schedule_Void w f tm pr n) s = Inr (schedule_void w f tm pr n s)"
| "fiber_exec t (Ev_Dequeue now1 now2) s = map_sum id snd (dequeue_sys t now1 now2 s)"
| "fiber_exec t (Ev_Task_Begin k) s = Inr (upd_task k (set_active_context (th_current (s_thrs s t))) s)"
| "fiber_exec t (Ev_Task_End k) s = Inr (task_destroy k (upd_task k (set_active_context None) s))"
| "fiber_exec t (Ev_Quit w) s = map_sum id snd (thread_quit t w s)"

fun fiber_run :: "(thid \<times> 'v fiber_event) list \<Rightarrow> 'v sys \<Rightarrow> fault + 'v sys" where
  "fiber_run [] s = Inr s"
| "fiber_run ((t, e) # es) s =
     (case fiber_exec t e s of Inl f \<Rightarrow> Inl f | Inr s' \<Rightarrow> fiber_run es s')"

section \<open>What the scheduler relies on\<close>

text \<open>Some fiber of some thread is blocked on the promise.\<close>

definition awaited :: "pptr \<Rightarrow> 'v sys \<Rightarrow> bool" where
  "awaited p s = (\<exists>t bs. blocked_list (s_ctxs s, s_thrs s t) bs \<and> (\<exists>c \<in> set bs. c_prom (s_ctxs s c) = Some p))"

text \<open>
  A promise holds the thread of one waiter, so a fiber must not block on a promise that another
  fiber is blocked on already; and a thread must not quit itself, which takes its lists apart.
  Nothing in the code enforces either.
\<close>

definition proper :: "thid \<Rightarrow> 'v fiber_event \<Rightarrow> 'v sys \<Rightarrow> bool" where
  "proper t e s =
     (case e of
        Ev_Wait p timeout now1 now2 \<Rightarrow> promise_ready (s_proms s p) \<or> (p < s_next_prom s \<and> \<not> awaited p s)
      | Ev_Quit w \<Rightarrow> w \<noteq> t
      | _ \<Rightarrow> True)"

fun orderly :: "(thid \<times> 'v fiber_event) list \<Rightarrow> 'v sys \<Rightarrow> bool" where
  "orderly [] s = True"
| "orderly ((t, e) # es) s =
     (proper t e s \<and> (case fiber_exec t e s of Inl f \<Rightarrow> True | Inr s' \<Rightarrow> orderly es s'))"

section \<open>One event\<close>

lemma enqueue_same_sched: "enqueue fuel now ts k tp = Inr tp' \<Longrightarrow> same_sched tp tp'"
  by (induction fuel now ts k tp rule: enqueue.induct) (fastforce simp: same_sched_def Let_def split: if_splits)+

lemma dequeue_same_sched: "dequeue fuel now1 now2 ts tp = Inr (k, tp') \<Longrightarrow> same_sched tp tp'"
  by (auto simp: dequeue_def same_sched_def Let_def split: option.splits sum.splits if_splits dest!: enqueue_same_sched)

text \<open>An event that changes nothing the invariant reads.\<close>

lemma frame_moves:
  assumes ok: "sched_ok t s rs bs" and "\<And>u. same_sched (s_thrs s u) (s_thrs s' u)"
    and "\<And>c. same_links (s_ctxs s c) (s_ctxs s' c)" "s_next_ctx s' = s_next_ctx s" "s_next_prom s \<le> s_next_prom s'"
    and "\<And>p. p < s_next_prom s \<Longrightarrow> m_blocked_thread (s_proms s' p) = m_blocked_thread (s_proms s p)"
  shows "moves t P s rs bs s'"
proof -
  have "moved t {} s rs bs s' rs bs" by (rule moved_frame [OF ok assms(2-6)]) simp_all
  then show ?thesis by (rule movesI [OF moved_mono]) simp
qed

lemma dequeue_sys_moves:
  assumes "sched_ok t s rs bs" and "dequeue_sys t now1 now2 s = Inr (k, s')"
  shows "moves t P s rs bs s'"
proof -
  obtain tp where tp: "dequeue (s_next_task s) now1 now2 (s_tasks s) (s_thrs s t) = Inr (k, tp)"
    and s': "s' = upd_thread t (\<lambda>_. tp) s" using assms(2) by (auto simp: dequeue_sys_def split: sum.splits)
  show ?thesis using dequeue_same_sched [OF tp]
    by (intro frame_moves [OF assms(1)]) (simp_all add: s' upd_thread_def)
qed

lemma post_moves:
  assumes ok: "sched_ok t s rs bs"
  shows "moves t P s rs bs (snd (async_result w f pr n s))" "moves t P s rs bs (snd (schedule_result w f tm pr n s))"
    "moves t P s rs bs (schedule_void w f tm pr n s)" "moves t P s rs bs (snd (new_promise s))"
    "moves t P s rs bs (promise_cancel p s)"
  by (rule frame_moves [OF ok]; auto simp: async_result_def schedule_result_def schedule_void_def new_promise_def
      new_task_def make_task_def async_task_def upd_thread_def upd_prom_def set_task_def same_sched_def
      promise_cancel_def task_cancel_def same_links_def Let_def split: option.splits task_kind.splits)+

lemma task_moves:
  assumes ok: "sched_ok t s rs bs"
  shows "moves t P s rs bs (upd_task k (set_active_context c) s)"
    "moves t P s rs bs (task_destroy k (upd_task k (set_active_context c) s))"
  by (rule frame_moves [OF ok]; auto simp: upd_task_def task_destroy_def upd_prom_def set_task_def
      split: task_kind.splits)+

lemma resume_end_moves:
  assumes ok: "sched_ok t s rs bs" and cur: "th_current (s_thrs s t) = Some c"
  shows "moves t P s rs bs (snd (promise_wait_end t c p s))" "moves t P s rs bs (snd (sleep_until_end t c s))"
    "moves t P s rs bs (snd (start_next_task_end t c s))"
proof -
  note F = resume_end_frames [OF cur]
  obtain r s' where w: "promise_wait_end t c p s = (r, s')" by fastforce
  obtain x where "s_ctxs s' = (s_ctxs s)(c := x)" using F(1) [OF w] by blast
  with F(2) [OF w] show "moves t P s rs bs (snd (promise_wait_end t c p s))"
    unfolding w by (intro resume_moves [OF ok cur]) simp_all
  obtain y s' where w: "sleep_until_end t c s = (y, s')" by fastforce
  obtain x where "s_ctxs s' = (s_ctxs s)(c := x)" using F(3) [OF w] by blast
  with F(4) [OF w] show "moves t P s rs bs (snd (sleep_until_end t c s))"
    unfolding w by (intro resume_moves [OF ok cur]) simp_all
  have "(s_thrs s t)\<lparr>th_current := Some c\<rparr> = s_thrs s t" using cur by (cases "s_thrs s t") simp
  then show "moves t P s rs bs (snd (start_next_task_end t c s))"
    by (intro frame_moves [OF ok]) (simp_all add: start_next_task_end_def set_current_def upd_thread_def Let_def)
qed

lemma map_sum_InrD: "map_sum id snd r = Inr s' \<Longrightarrow> \<exists>x. r = Inr (x, s')"
  by (cases r) auto

text \<open>The promise whose waiter an event may set.\<close>

definition waits_on :: "'v fiber_event \<Rightarrow> 'v sys \<Rightarrow> pptr set" where
  "waits_on e s =
     (case e of Ev_Wait p timeout now1 now2 \<Rightarrow> if promise_ready (s_proms s p) then {} else {p} | _ \<Rightarrow> {})"

lemma event_moves:
  assumes ok: "sched_ok t s rs bs" and pr: "proper t e s" and go: "fiber_exec t e s = Inr s'"
  shows "moves t (waits_on e s) s rs bs s'"
proof (cases e)
  case (Ev_Wait p timeout now1 now2)
  with go obtain r where w: "promise_wait_begin t p timeout now1 now2 s = Inr (r, s')" by (auto dest: map_sum_InrD)
  show ?thesis
  proof (cases "promise_ready (s_proms s p)")
    case True
    then show ?thesis by (rule wait_ready_moves [OF ok _ w])
  next
    case False
    then have "\<forall>d \<in> set bs. c_prom (s_ctxs s d) \<noteq> Some p" "p < s_next_prom s"
      using pr Ev_Wait thread_invD(2) [OF sched_ok_inv [OF ok]] by (auto simp: proper_def awaited_def)
    with wait_moves [OF ok _ _ w] Ev_Wait False show ?thesis by (simp add: waits_on_def)
  qed
next
  case (Ev_Timeouts now)
  with go obtain r where ct: "check_for_timeouts t now s = Inr (r, s')" by (auto dest: map_sum_InrD)
  with check_for_timeouts_expires [OF sched_ok_inv [OF ok], of now]
  obtain rs' bs' where "expire_result t now s rs bs s' rs' bs'" by auto
  then show ?thesis by (intro movesI [OF expire_moved(1) [OF ok]])
next
  case (Ev_Quit w)
  then have "w \<noteq> t" using pr by (simp add: proper_def)
  with Ev_Quit go post_moves(1) [OF ok] show ?thesis
    by (auto simp: thread_quit_def case_prod_beta waits_on_def)
qed (use go movesI [OF moved_refl [OF ok]] in \<open>auto simp: yield_begin_def post_moves [OF ok] task_moves [OF ok] resume_end_moves [OF ok]
      movesI [OF async_void_moved [OF ok]] split: option.splits dest!: map_sum_InrD
      intro: yield_moves [OF ok] sleep_moves [OF ok] dequeue_sys_moves [OF ok] set_value_moves [OF ok]
        set_exception_moves [OF ok] set_timeout_moves [OF ok] thread_notify_moves [OF ok]\<close>)

section \<open>All threads\<close>

text \<open>Every thread satisfies the scheduler invariant, and no context belongs to two threads.\<close>

definition all_ok :: "(thid \<Rightarrow> cptr list) \<Rightarrow> (thid \<Rightarrow> cptr list) \<Rightarrow> 'v sys \<Rightarrow> bool" where
  "all_ok R B s =
     ((\<forall>t. sched_ok t s (R t) (B t)) \<and>
      (\<forall>t u. t \<noteq> u \<longrightarrow> contexts t s (R t) (B t) \<inter> contexts u s (R u) (B u) = {}))"

lemma other_thread_ok:
  assumes ok: "all_ok R B s" and aw: "away u (contexts u s (R u) (B u)) P s s'" and t: "t \<noteq> u"
    and P: "\<forall>p \<in> P. \<not> awaited p s"
  shows "sched_ok t s' (R t) (B t)" "contexts t s' (R t) (B t) = contexts t s (R t) (B t)"
proof -
  have okt: "sched_ok t s (R t) (B t)" and dis: "contexts t s (R t) (B t) \<inter> contexts u s (R u) (B u) = {}"
    using ok t by (auto simp: all_ok_def)
  have "same_links (s_ctxs s c) (s_ctxs s' c)" if "c \<in> owned t s (R t) (B t)" for c
  proof -
    have "c \<in> contexts t s (R t) (B t)" using that by (simp add: contexts_def)
    with aw dis contexts_allocated [OF okt] show ?thesis by (auto simp: away_def)
  qed
  moreover have "m_blocked_thread (s_proms s' p) = m_blocked_thread (s_proms s p)"
    if "c \<in> set (B t)" "c_prom (s_ctxs s c) = Some p" for c p
  proof -
    have "p < s_next_prom s" using okt that by (auto simp: sched_ok_def)
    moreover have "awaited p s" using that thread_invD(2) [OF sched_ok_inv [OF okt]] by (auto simp: awaited_def)
    ultimately show ?thesis using aw P by (auto simp: away_def)
  qed
  ultimately show "sched_ok t s' (R t) (B t)" "contexts t s' (R t) (B t) = contexts t s (R t) (B t)"
    using aw t by (intro sched_ok_cong [OF okt]; simp add: away_def)+
qed

lemma event_all_ok:
  assumes ok: "all_ok R B s" and pr: "proper t e s" and go: "fiber_exec t e s = Inr s'"
  shows "\<exists>R' B'. all_ok R' B' s' \<and> (\<forall>u. contexts u s (R u) (B u) \<subseteq> contexts u s' (R' u) (B' u))"
proof -
  have okt: "sched_ok t s (R t) (B t)" using ok by (simp add: all_ok_def)
  obtain rs bs where M: "moved t (waits_on e s) s (R t) (B t) s' rs bs"
    using event_moves [OF okt pr go] by (auto simp: moves_def)
  then have aw: "away t (contexts t s (R t) (B t)) (waits_on e s) s s'" by (simp add: moved_def)
  have P: "\<forall>p \<in> waits_on e s. \<not> awaited p s"
    using pr by (auto simp: waits_on_def proper_def split: fiber_event.splits if_splits)
  note O = other_thread_ok [OF ok aw _ P]
  let ?R = "R(t := rs)" and ?B = "B(t := bs)"
  have lt: "c < s_next_ctx s" if "c \<in> contexts u s (R u) (B u)" for c u
    using contexts_allocated [of u s "R u" "B u" c] ok that by (auto simp: all_ok_def)
  have dis: "contexts u s (R u) (B u) \<inter> contexts t s' rs bs = {}" if "u \<noteq> t" for u
    using M ok that lt [of _ u] by (fastforce simp: moved_def all_ok_def)
  have "all_ok ?R ?B s'" unfolding all_ok_def
  proof (intro conjI allI impI)
    show "sched_ok u s' (?R u) (?B u)" for u using moved_ok [OF M] O(1) by simp
    show "contexts u s' (?R u) (?B u) \<inter> contexts w s' (?R w) (?B w) = {}" if "u \<noteq> w" for u w
      using dis [of u] dis [of w] O(2) ok that by (cases "u = t"; cases "w = t") (auto simp: all_ok_def)
  qed
  moreover have "contexts u s (R u) (B u) \<subseteq> contexts u s' (?R u) (?B u)" for u
    using M O(2) by (cases "u = t") (simp_all add: moved_def)
  ultimately show ?thesis by blast
qed

lemma run_all_ok:
  assumes "all_ok R B s" and "orderly es s" and "fiber_run es s = Inr s'"
  shows "\<exists>R' B'. all_ok R' B' s' \<and> (\<forall>u. contexts u s (R u) (B u) \<subseteq> contexts u s' (R' u) (B' u))"
  using assms
proof (induction es arbitrary: s R B)
  case (Cons a es)
  obtain t e where a: "a = (t, e)" by fastforce
  with Cons.prems obtain s1 where s1: "fiber_exec t e s = Inr s1" "orderly es s1" "fiber_run es s1 = Inr s'"
    by (auto split: sum.splits)
  obtain R1 B1 where "all_ok R1 B1 s1" and sub: "\<forall>u. contexts u s (R u) (B u) \<subseteq> contexts u s1 (R1 u) (B1 u)"
    using event_all_ok [OF Cons.prems(1) _ s1(1)] Cons.prems(2) a by auto
  from Cons.IH [OF this(1) s1(2,3)] sub show ?case by (meson subset_trans)
qed auto

lemma init_all_ok: "all_ok (\<lambda>_. []) (\<lambda>_. []) init_sys"
  by (simp add: all_ok_def init_ok) (simp add: contexts_def owned_def init_sys_def make_thread_def)

end
