(* ===== verification/CMT_Fiber_Props.thy ===== *)
theory CMT_Fiber_Props
  imports CMT_Runs
begin

text \<open>
  What the scheduler promises to the code that runs on it, stated over whole operations: the
  invariant of every state of an orderly history, blocking on a promise and being woken with its value or with
  a timeout, the order in which yielding fibers run, and the case in which a sleep fails.
\<close>

section \<open>Concrete states\<close>

text \<open>One thread with one running context and one promise.\<close>

definition one_fiber :: "nat sys" where
  "one_fiber = snd (ensure_current 0 (snd (new_promise init_sys)))"

text \<open>The same with three contexts: context 0 runs, contexts 1 and 2 are ready.\<close>

definition three_fibers :: "nat sys" where
  "three_fibers = on_thread 0 (ready_push_back 2) (on_thread 0 (ready_push_back 1)
     (snd (new_context True (snd (new_context True one_fiber)))))"

text \<open>Context 1 blocked on promise 0 with a timeout at tick 100; context 0 runs.\<close>

definition one_waiter :: "nat sys" where
  "one_waiter = set_current 0 0 (park 0 1 ((make_context True)\<lparr>c_prom := Some 0, c_resume_time := 100\<rparr>) True True
     (upd_prom 0 (enqueue_thread 0) (snd (new_context True one_fiber))))"

lemmas demo_defs = one_fiber_def init_sys_def new_promise_def ensure_current_def new_context_def
  set_current_def upd_thread_def make_thread_def make_context_def make_promise_def upd_prom_def
  enqueue_thread_def on_thread_def ready_push_back_def park_def add_to_blocked_def push_heap_def
  sift_up.simps Let_def

lemma one_fiber_ok: "sched_ok 0 one_fiber [] []" "th_current (s_thrs one_fiber 0) = Some 0"
  by (simp_all add: sched_ok_def thread_inv_def ready_list_def blocked_list_def is_heap_def owned_def demo_defs)

lemma three_fibers_ok: "thread_inv 0 three_fibers [1, 2] []" "th_current (s_thrs three_fibers 0) = Some 0"
  by (simp_all add: three_fibers_def thread_inv_def ready_list_def blocked_list_def is_heap_def demo_defs)

lemma one_waiter_ok: "thread_inv 0 one_waiter [] [1]" "th_current (s_thrs one_waiter 0) = Some 0"
  "s_next_ctx one_waiter = 2" "th_sleep_pqueue (s_thrs one_waiter 0) = [1]"
  "c_prom (s_ctxs one_waiter 1) = Some 0" "\<not> c_canceled (s_ctxs one_waiter 1)"
  "c_resume_time (s_ctxs one_waiter 1) = 100" "m_error (s_proms one_waiter 0) = None"
  by (simp_all add: one_waiter_def thread_inv_def ready_list_def blocked_list_def is_heap_def demo_defs)

section \<open>Reachable states\<close>

text \<open>
  C1.  After any history of calls by any threads from process start (waits, sleeps, yields, their
  resumptions, timeout checks, results, cancellations and notifications, posted and scheduled tasks,
  dequeues, the start and end of tasks) the scheduler invariant holds for every thread: the ready
  queue and the blocked list are proper linked lists without repetition, the sleepers form a heap on
  their wake-up times, no context is both runnable and waiting, the running context is in no list,
  every blocked context is the only one of its thread that waits for its promise, which names this
  thread; and no context belongs to two threads.  The history is \<open>orderly\<close>: nobody blocks on a
  promise that some fiber is blocked on already, and no thread quits itself.  The code checks
  neither, and both conditions are needed: two waiters of one promise are the subject of
  \<open>notify_wakes_first_waiter_only\<close>, quitting that of \<open>quit_leaves_fiber_blocked\<close>, in \<open>CMT_Quit\<close>.
\<close>

theorem reachable_sched_ok:
  assumes "fiber_run es init_sys = Inr s" and "orderly es init_sys"
  shows "\<exists>R B. (\<forall>t. sched_ok t s (R t) (B t)) \<and>
    (\<forall>t u. t \<noteq> u \<longrightarrow> contexts t s (R t) (B t) \<inter> contexts u s (R u) (B u) = {})"
  using run_all_ok [OF init_all_ok assms(2,1)] by (auto simp: all_ok_def)

text \<open>Thread 0 waits for promise 0, thread 1 delivers 42, and the waiter runs again.\<close>

definition handover :: "(thid \<times> nat fiber_event) list" where
  "handover = [(0, Ev_New_Promise), (0, Ev_Wait 0 100 5 6), (1, Ev_Set_Value 0 42),
     (0, Ev_Dequeue 7 7), (0, Ev_Notify 0 0), (0, Ev_Yield 8), (0, Ev_Wait_End 0)]"

lemmas handover_defs = handover_def promise_wait_begin_def wait_check_def promise_ready_def thread_wait_begin_def
  add_blocking_promise_def upd_ctx_def sleep_push_def start_next_task_begin_def check_for_timeouts_def
  next_timeout_def ready_pop_front_def set_value_def store_value_def promise_notify_def thread_notify_def
  async_void_def new_task_def make_task_def async_task_def dequeue_sys_def dequeue_def
  try_unblock_def ready_push_front_def unsleep_loop.simps make_heap_def yield_begin_def promise_wait_end_def
  thread_wait_end_def start_next_task_end_def remove_blocking_promise_def wait_finish_def demo_defs

lemma handover_runs:
  "orderly handover init_sys" "\<exists>s. fiber_run handover init_sys = Inr s \<and> th_current (s_thrs s 0) = Some 0"
  by (simp_all add: handover_defs proper_def awaited_def blocked_list_def time_max_def time_min_def)

theorem reachable_sched_ok_witness:
  "\<exists>s. fiber_run handover init_sys = Inr s \<and> th_current (s_thrs s 0) = Some 0 \<and>
     (\<exists>R B. (\<forall>t. sched_ok t s (R t) (B t)) \<and>
       (\<forall>t u. t \<noteq> u \<longrightarrow> contexts t s (R t) (B t) \<inter> contexts u s (R u) (B u) = {}))"
  using handover_runs reachable_sched_ok by blast

text \<open>
  C2.  No context is lost: along any orderly history of the process, from any state in which the
  invariant holds, every context that runs on a thread, or is ready, blocked or asleep there, is
  still one of these on the same thread at the end.  (A thread that quits itself is outside this
  claim: see \<open>quit_leaves_fiber_blocked\<close>.)
\<close>

theorem no_context_lost:
  assumes "all_ok R B s" and "orderly es s" and "fiber_run es s = Inr s'"
  shows "\<exists>R' B'. all_ok R' B' s' \<and> (\<forall>t. contexts t s (R t) (B t) \<subseteq> contexts t s' (R' t) (B' t))"
  using run_all_ok [OF assms] .

lemma one_fiber_all_ok: "all_ok (\<lambda>_. []) (\<lambda>_. []) one_fiber"
  by (simp add: all_ok_def sched_ok_def contexts_def thread_inv_def ready_list_def blocked_list_def is_heap_def
      owned_def demo_defs)

lemma one_fiber_waits:
  "orderly [(0, Ev_Wait 0 100 5 6)] one_fiber" "\<exists>s. fiber_run [(0, Ev_Wait 0 100 5 6)] one_fiber = Inr s"
  by (simp_all add: handover_defs proper_def awaited_def blocked_list_def time_max_def time_min_def)

theorem no_context_lost_witness:
  "\<exists>s. fiber_run [(0, Ev_Wait 0 100 5 6)] one_fiber = Inr s \<and>
     (\<exists>R B. all_ok R B s \<and> 0 \<in> contexts 0 s (R 0) (B 0))"
proof -
  obtain s where s: "fiber_run [(0, Ev_Wait 0 100 5 6)] one_fiber = Inr s" using one_fiber_waits(2) by blast
  have "0 \<in> contexts 0 one_fiber [] []" using one_fiber_ok(2) by (simp add: contexts_def)
  with no_context_lost [OF one_fiber_all_ok one_fiber_waits(1) s] s show ?thesis by blast
qed

section \<open>Waiting for a promise\<close>

text \<open>
  C5.  A fiber that waits for a promise that is not ready, before its timeout, never runs into a
  fault: it is switched away from, is then in the blocked list waiting for that promise, is among
  the sleepers exactly if it gave a timeout, and the promise names its thread; the thread goes on
  with another context and the invariant holds.
\<close>

theorem promise_wait_blocks:
  assumes "thread_inv t s rs bs" and "th_current (s_thrs s t) = Some c"
    and "c \<notin> owned t s rs bs" and "c < s_next_ctx s" and "\<not> promise_ready (s_proms s p)"
    and "\<forall>d \<in> set bs. c_prom (s_ctxs s d) \<noteq> Some p" and "now1 \<le> timeout" and "now2 < timeout"
  shows "\<exists>s' rs' bs' n. promise_wait_begin t p timeout now1 now2 s = Inr (Inl (Switched c), s') \<and>
    thread_inv t s' rs' bs' \<and> c \<in> set bs' \<and> c \<notin> set rs' \<and> c_prom (s_ctxs s' c) = Some p \<and>
    m_blocked_thread (s_proms s' p) = Some t \<and>
    (c \<in> set (th_sleep_pqueue (s_thrs s' t)) \<longleftrightarrow> timeout \<noteq> time_max) \<and>
    th_current (s_thrs s' t) = Some n \<and> n \<noteq> c"
proof -
  let ?s = "upd_prom p (enqueue_thread t) s"
  have inv: "thread_inv t ?s rs bs" using assms(1,6) by (rule thread_inv_enqueue_thread)
  have cur: "th_current (s_thrs ?s t) = Some c" "c \<notin> owned t ?s rs bs" "c < s_next_ctx ?s"
    using assms(2-4) by (simp_all add: owned_upd_prom) (simp_all add: upd_prom_def)
  define x where "x = (s_ctxs ?s c)\<lparr>c_prom := Some p, c_resume_time :=
      (if timeout \<noteq> time_max then timeout else c_resume_time (s_ctxs ?s c))\<rparr>"
  have x: "if True then \<exists>q. c_prom x = Some q \<and> m_blocked_thread (s_proms ?s q) = Some t \<and>
      (\<forall>d \<in> set bs. c_prom (s_ctxs ?s d) \<noteq> Some q) else c_prom x = None"
    "timeout \<noteq> time_max \<Longrightarrow> now2 < c_resume_time x"
    using assms(6,8) by (simp_all add: x_def upd_prom_def enqueue_thread_def)
  obtain s' rs' bs' where
    go: "start_next_task_begin t False now2 (park t c x (timeout \<noteq> time_max) True ?s) = Inr (c, s')"
    and R: "thread_inv t s' rs' bs'" "c \<in> set bs' \<longleftrightarrow> True" "c \<notin> set rs'"
      "c \<in> set (th_sleep_pqueue (s_thrs s' t)) \<longleftrightarrow> timeout \<noteq> time_max" "c_prom (s_ctxs s' c) = c_prom x"
      "th_current (s_thrs s' t) \<noteq> Some c" "\<exists>n. th_current (s_thrs s' t) = Some n"
    by (rule park_switch [where asleep = "timeout \<noteq> time_max", OF inv cur x]) (assumption, (rule that; assumption))
  have "promise_wait_begin t p timeout now1 now2 s = Inr (Inl (Switched c), s')"
    using assms(5,7) wait_parks [OF cur(1), of p now1 timeout now2] go
    by (simp add: promise_wait_unready x_def)
  moreover have "m_blocked_thread (s_proms s' p) = Some t"
    using thread_invD(8) [OF R(1), of c] R(2,5) by (simp add: x_def)
  ultimately show ?thesis using R by (auto simp: x_def)
qed

theorem promise_wait_blocks_witness:
  "\<exists>s' rs' bs' n. promise_wait_begin 0 0 100 5 6 one_fiber = Inr (Inl (Switched 0), s') \<and>
    thread_inv 0 s' rs' bs' \<and> 0 \<in> set bs' \<and> 0 \<notin> set rs' \<and> c_prom (s_ctxs s' 0) = Some 0 \<and>
    m_blocked_thread (s_proms s' 0) = Some 0 \<and>
    (0 \<in> set (th_sleep_pqueue (s_thrs s' 0)) \<longleftrightarrow> 100 \<noteq> time_max) \<and>
    th_current (s_thrs s' 0) = Some n \<and> n \<noteq> 0"
  by (rule promise_wait_blocks [of 0 one_fiber "[]" "[]"])
    (use one_fiber_ok in \<open>simp_all add: sched_ok_def\<close>, simp_all add: demo_defs promise_ready_def)

text \<open>
  C6.  A value delivered on the waiter's thread reaches the waiter: \<open>set_value\<close> succeeds, the next
  switch of the running fiber enters the waiting context, and \<open>wait\<close> returns exactly the value
  that was stored.
\<close>

theorem value_reaches_waiter:
  assumes "thread_inv t s rs bs" and "c \<in> set bs" and "c_prom (s_ctxs s c) = Some p"
    and "m_error (s_proms s p) = None" and "\<not> c_canceled (s_ctxs s c)"
    and "th_current (s_thrs s t) = Some d" and "d \<notin> owned t s rs bs" and "d < s_next_ctx s"
    and "expired t now s = {}"
  shows "\<exists>s1 s2 s3. set_value t p v s = Inr s1 \<and> yield_begin t now s1 = Inr (d, s2) \<and>
    th_current (s_thrs s2 t) = Some c \<and> promise_wait_end t c p s2 = (Inr v, s3)"
proof -
  obtain as bs' where bs: "bs = as @ c # bs'" using assms(2) by (auto simp: in_set_conv_decomp)
  obtain s1 where sv: "set_value t p v s = Inr s1" and inv1: "thread_inv t s1 (c # rs) (as @ bs')"
    and pr: "s_proms s1 = (s_proms s)(p := (s_proms s p)\<lparr>m_value := Some v\<rparr>)"
    and q: "set (th_sleep_pqueue (s_thrs s1 t)) = set (th_sleep_pqueue (s_thrs s t)) - {c}"
    and cur: "th_current (s_thrs s1 t) = th_current (s_thrs s t)" "s_next_ctx s1 = s_next_ctx s"
    and fl: "\<And>d. c_canceled (s_ctxs s1 d) = c_canceled (s_ctxs s d) \<and>
         c_resume_time (s_ctxs s1 d) = c_resume_time (s_ctxs s d)"
    by (rule set_value_waiter [OF assms(1) bs assms(3,4), of v]) (rule that; assumption)
  have "expired t now s1 = {}" using assms(9) q fl by (auto simp: expired_def)
  then obtain r where ct: "check_for_timeouts t now s1 = Inr (r, s1)"
    using check_for_timeouts_idle [OF inv1] by blast
  have d: "d \<notin> owned t s1 (c # rs) (as @ bs')" "d < s_next_ctx s1"
    using assms(2,7,8) q bs cur by (auto simp: owned_def)
  have e: "ensure_current t s1 = (d, s1)" using assms(6) cur by (simp add: ensure_current_def)
  have cn: "c < s_next_ctx s1" using thread_invD(7) [OF inv1, of c] by simp
  obtain s2 where "start_next_task_begin t True now s1 = Inr (d, s2)"
    and sw: "switched t True d (c # rs) (as @ bs') (s_next_ctx s1) s2"
    and pr2: "s_proms s2 = s_proms s1"
    and cc: "c_canceled (s_ctxs s2 c) = c_canceled (s_ctxs s1 c)"
    by (rule switch_after_timeouts [OF ct e inv1 d(2), of True]) (use d cn in \<open>auto simp: owned_def\<close>)
  moreover have "fst (promise_wait_end t c p s2) = Inr v"
    using cc fl assms(4,5) pr pr2 by (simp add: wait_end_result wait_finish_def)
  ultimately show ?thesis using sv by (auto simp: yield_begin_def switched_def Let_def prod_eq_iff)
qed

theorem value_reaches_waiter_witness:
  "\<exists>s1 s2 s3. set_value 0 0 42 one_waiter = Inr s1 \<and> yield_begin 0 50 s1 = Inr (0, s2) \<and>
    th_current (s_thrs s2 0) = Some 1 \<and> promise_wait_end 0 1 0 s2 = (Inr 42, s3)"
  by (rule value_reaches_waiter [of 0 one_waiter "[]" "[1]"])
    (use one_waiter_ok in \<open>simp_all add: owned_def expired_def\<close>)

text \<open>
  C7.  A timeout check makes ready exactly the sleepers whose time has come, and never faults or
  loops; each of them that waits for a promise leaves the blocked list and, unless it was
  cancelled, its \<open>wait\<close> ends with the timeout exception; nobody else's state changes.
\<close>

theorem timeouts_wake_due_sleepers:
  assumes "thread_inv t s rs bs"
  shows "\<exists>r s' rs' bs'. check_for_timeouts t now s = Inr (r, s') \<and> thread_inv t s' rs' bs' \<and>
    set rs' = set rs \<union> expired t now s \<and> set bs' = set bs - expired t now s \<and>
    set (th_sleep_pqueue (s_thrs s' t)) = set (th_sleep_pqueue (s_thrs s t)) - expired t now s \<and>
    (\<forall>c p. c \<in> expired t now s \<and> c_prom (s_ctxs s c) = Some p \<and> \<not> c_canceled (s_ctxs s c) \<longrightarrow>
       fst (promise_wait_end t c p s') = Inl (Future_Error Future_Wait_Timeout)) \<and>
    (\<forall>c. c \<notin> owned t s rs bs \<longrightarrow> s_ctxs s' c = s_ctxs s c)"
proof -
  obtain r s' rs' bs' where ct: "check_for_timeouts t now s = Inr (r, s')"
    and R: "expire_result t now s rs bs s' rs' bs'" using check_for_timeouts_expires [OF assms] by blast
  have fr: "sched_frame t (owned t s rs bs) s s'" using R by (simp add: expire_result_def)
  have "fst (promise_wait_end t c p s') = Inl (Future_Error Future_Wait_Timeout)"
    if "c \<in> expired t now s" "c_prom (s_ctxs s c) = Some p" "\<not> c_canceled (s_ctxs s c)" for c p
  proof -
    have "Some p \<in> (\<lambda>c. c_prom (s_ctxs s c)) ` expired t now s" using that(1,2) by (metis image_eqI)
    then have "m_error (s_proms s' p) = Some (Future_Error Future_Wait_Timeout)"
      using R by (simp add: expire_result_def)
    moreover have "\<not> c_canceled (s_ctxs s' c)" using fr that(3) by (simp add: sched_frame_def)
    ultimately show ?thesis by (simp add: wait_end_result wait_finish_def)
  qed
  with ct R fr show ?thesis unfolding expire_result_def sched_frame_def by blast
qed

theorem timeouts_wake_due_sleepers_witness:
  "\<exists>r s' rs' bs'. check_for_timeouts 0 100 one_waiter = Inr (r, s') \<and> thread_inv 0 s' rs' bs' \<and>
    set rs' = {1} \<and> set bs' = {} \<and>
    fst (promise_wait_end 0 1 0 s') = Inl (Future_Error Future_Wait_Timeout)"
proof -
  have "expired 0 100 one_waiter = {1}" using one_waiter_ok by (auto simp: expired_def)
  with timeouts_wake_due_sleepers [OF one_waiter_ok(1), of 100] one_waiter_ok(5,6) show ?thesis by fastforce
qed

section \<open>Yielding\<close>

text \<open>\<open>k\<close> yields in a row, each by the fiber that runs, with the clock standing still.\<close>

fun yields :: "nat \<Rightarrow> thid \<Rightarrow> time_point \<Rightarrow> 'v sys \<Rightarrow> fault + 'v sys" where
  "yields 0 t now s = Inr s"
| "yields (Suc k) t now s = (case yields k t now s of
     Inl f \<Rightarrow> Inl f
   | Inr s \<Rightarrow> (case yield_begin t now s of Inl f \<Rightarrow> Inl f | Inr (c, s) \<Rightarrow> Inr s))"

lemma yield_rotates:
  assumes inv: "thread_inv t s (n # rs) bs" and "th_current (s_thrs s t) = Some c"
    and c: "c \<notin> owned t s (n # rs) bs" "c < s_next_ctx s" and ex: "expired t now s = {}"
  shows "\<exists>s'. yield_begin t now s = Inr (c, s') \<and> thread_inv t s' (rs @ [c]) bs \<and>
    th_current (s_thrs s' t) = Some n \<and> n \<notin> owned t s' (rs @ [c]) bs \<and> n < s_next_ctx s' \<and> expired t now s' = {}"
proof -
  obtain r where ct: "check_for_timeouts t now s = Inr (r, s)" using check_for_timeouts_idle [OF inv ex] by blast
  have e: "ensure_current t s = (c, s)" using assms(2) by (simp add: ensure_current_def)
  obtain s' where go: "start_next_task_begin t True now s = Inr (c, s')"
    and sw: "switched t True c (n # rs) bs (s_next_ctx s) s'"
    and q: "th_sleep_pqueue (s_thrs s' t) = th_sleep_pqueue (s_thrs s t)"
    and tm: "\<And>d. d < s_next_ctx s \<Longrightarrow> c_resume_time (s_ctxs s' d) = c_resume_time (s_ctxs s d)"
    by (rule switch_after_timeouts [OF ct e inv c(2), of True]) (use c in \<open>auto simp: owned_def\<close>)
  have "expired t now s' = {}" using ex q tm thread_invD(7) [OF inv] by (auto simp: expired_def)
  with go sw show ?thesis by (simp add: yield_begin_def switched_def Let_def)
qed

text \<open>
  C20.  Yielding is fair round robin: with no sleeper due, the \<open>k\<close>-th yield enters the \<open>k\<close>-th
  context of the queue that starts with the running one, so that after as many yields as there
  are contexts the first one runs again, and the queue is then as it was.
\<close>

theorem yield_round_robin:
  assumes "thread_inv t s rs bs" and "th_current (s_thrs s t) = Some c" and "rs \<noteq> []"
    and "c \<notin> owned t s rs bs" and "c < s_next_ctx s" and "expired t now s = {}"
  shows "\<exists>s'. yields k t now s = Inr s' \<and>
    th_current (s_thrs s' t) = Some (hd (rotate k (c # rs))) \<and> thread_inv t s' (tl (rotate k (c # rs))) bs"
proof -
  have "\<exists>s' d. yields k t now s = Inr s' \<and> th_current (s_thrs s' t) = Some d \<and>
      d = hd (rotate k (c # rs)) \<and> thread_inv t s' (tl (rotate k (c # rs))) bs \<and>
      d \<notin> owned t s' (tl (rotate k (c # rs))) bs \<and> d < s_next_ctx s' \<and> expired t now s' = {}"
  proof (induction k)
    case 0
    with assms show ?case by simp
  next
    case (Suc k)
    let ?l = "rotate k (c # rs)"
    have "length ?l > 1" using assms(3) by (cases rs) auto
    then obtain d n rs' where l: "?l = d # n # rs'" by (cases ?l; cases "tl ?l") auto
    then have l': "rotate (Suc k) (c # rs) = n # rs' @ [d]" by simp
    from Suc l obtain s1 where y: "yields k t now s = Inr s1" and cur: "th_current (s_thrs s1 t) = Some d"
      and inv: "thread_inv t s1 (n # rs') bs" and d: "d \<notin> owned t s1 (n # rs') bs" "d < s_next_ctx s1"
      and ex: "expired t now s1 = {}" by auto
    from yield_rotates [OF inv cur d ex] y show ?case unfolding l' by auto
  qed
  then show ?thesis by blast
qed

theorem yield_round_robin_witness:
  "(\<exists>s'. yields 2 0 50 three_fibers = Inr s' \<and> th_current (s_thrs s' 0) = Some 2) \<and>
   (\<exists>s'. yields 3 0 50 three_fibers = Inr s' \<and> th_current (s_thrs s' 0) = Some 0)"
proof -
  have "th_sleep_pqueue (s_thrs three_fibers 0) = []" "s_next_ctx three_fibers = 3"
    by (simp_all add: three_fibers_def demo_defs)
  then have "\<exists>s'. yields k 0 50 three_fibers = Inr s' \<and>
      th_current (s_thrs s' 0) = Some (hd (rotate k [0, 1, 2])) \<and> thread_inv 0 s' (tl (rotate k [0, 1, 2])) []" for k
    using yield_round_robin [of 0 three_fibers "[1, 2]" "[]" 0 50 k] three_fibers_ok
    by (simp add: owned_def expired_def)
  from this [of 2] this [of 3] show ?thesis by (auto simp: numeral_2_eq_2 numeral_3_eq_3)
qed

section \<open>Sleeping\<close>

text \<open>
  A fiber that sleeps until a time in the future is switched away from without fault and is
  among the sleepers, in no other list, until a timeout check after that time finds it due.
\<close>

lemma sleep_until_sleeps:
  assumes "thread_inv t s rs bs" and "th_current (s_thrs s t) = Some c"
    and "c \<notin> owned t s rs bs" and "c < s_next_ctx s" and "\<not> th_done (s_thrs s t)" and "now < tm"
  shows "\<exists>s' rs' bs'. sleep_until_begin t tm now s = Inr (Switched c, s') \<and> thread_inv t s' rs' bs' \<and>
    c \<notin> set rs' \<and> c \<notin> set bs' \<and> c \<in> set (th_sleep_pqueue (s_thrs s' t)) \<and>
    c_resume_time (s_ctxs s' c) = tm \<and> th_current (s_thrs s' t) \<noteq> Some c \<and>
    (\<forall>now'. c \<in> expired t now' s' \<longleftrightarrow> tm \<le> now')"
proof -
  let ?x = "(s_ctxs s c)\<lparr>c_resume_time := tm, c_prom := None\<rparr>"
  have x: "if False then \<exists>p. c_prom ?x = Some p \<and> m_blocked_thread (s_proms s p) = Some t \<and>
      (\<forall>d \<in> set bs. c_prom (s_ctxs s d) \<noteq> Some p) else c_prom ?x = None"
    "True \<Longrightarrow> now < c_resume_time ?x" using assms(6) by simp_all
  obtain s' rs' bs' where go: "start_next_task_begin t False now (park t c ?x True False s) = Inr (c, s')"
    and R: "thread_inv t s' rs' bs'" "c \<in> set bs' \<longleftrightarrow> False" "c \<notin> set rs'"
      "c \<in> set (th_sleep_pqueue (s_thrs s' t)) \<longleftrightarrow> True" "th_current (s_thrs s' t) \<noteq> Some c"
      "c_resume_time (s_ctxs s' c) = c_resume_time ?x"
    by (rule park_switch [where asleep = True, OF assms(1-4) x]) (assumption, (rule that; assumption))
  then show ?thesis using sleep_parks [OF assms(2,5), of tm now] by (auto simp: expired_def)
qed

lemma sleep_until_sleeps_example:
  "\<exists>s' rs' bs'. sleep_until_begin 0 100 5 one_fiber = Inr (Switched 0, s') \<and> thread_inv 0 s' rs' bs' \<and>
    0 \<notin> set rs' \<and> 0 \<notin> set bs' \<and> 0 \<in> set (th_sleep_pqueue (s_thrs s' 0)) \<and>
    c_resume_time (s_ctxs s' 0) = 100 \<and> th_current (s_thrs s' 0) \<noteq> Some 0 \<and>
    (\<forall>now'. 0 \<in> expired 0 now' s' \<longleftrightarrow> 100 \<le> now')"
  by (rule sleep_until_sleeps [of 0 one_fiber "[]" "[]"])
    (use one_fiber_ok in \<open>simp_all add: sched_ok_def\<close>, simp_all add: demo_defs)

text \<open>
  C37.  A sleep whose time has already come, by a fiber of a thread where nothing else is ready or
  asleep (\<open>usleep(0)\<close> for instance), fails the assertion \<open>next != current\<close> of
  \<open>start_next_task\<close>: the timeout check puts the caller itself at the front of the ready queue.
\<close>

theorem sleep_until_past_asserts:
  assumes "thread_inv t s [] bs" and "th_current (s_thrs s t) = Some c" and "c \<notin> owned t s [] bs"
    and "c < s_next_ctx s" and "\<not> th_done (s_thrs s t)" and "th_sleep_pqueue (s_thrs s t) = []" and "tm \<le> now"
  shows "sleep_until_begin t tm now s = Inl Assert_Failed"
proof -
  let ?x = "(s_ctxs s c)\<lparr>c_resume_time := tm, c_prom := None\<rparr>" and ?s = "park t c
      ((s_ctxs s c)\<lparr>c_resume_time := tm, c_prom := None\<rparr>) True False s"
  have inv: "thread_inv t ?s [] bs" using park_inv [OF assms(1,3,4), of False ?x True] by simp
  obtain r s1 rs1 bs1 where ct: "check_for_timeouts t now ?s = Inr (r, s1)"
    and R: "expire_result t now ?s [] bs s1 rs1 bs1" using check_for_timeouts_expires [OF inv] by blast
  have "expired t now ?s = {c}" using assms(6,7) by (auto simp: expired_def park_fields)
  then have "set rs1 = {c}" and inv1: "thread_inv t s1 rs1 bs1" using R by (simp_all add: expire_result_def)
  moreover from this have "length rs1 = 1"
    using distinct_card [OF ready_list_distinct [OF thread_invD(1) [OF inv1]]] by simp
  ultimately have rs1: "rs1 = [c]" by (cases rs1) simp_all
  have "sched_frame t (owned t ?s [] bs) ?s s1" using R by (simp add: expire_result_def)
  from sched_frame_current [OF this] have cur: "th_current (s_thrs s1 t) = Some c"
    using assms(2) by (simp add: park_fields)
  obtain x cs tp where pop: "ready_pop_front (s_ctxs s1, s_thrs s1 t) = (x, cs, tp)" by (metis prod_cases3)
  have "x = Some c" using pop_front_inv(1) [OF inv1 [unfolded rs1] pop] .
  then have "start_next_task_begin t False now ?s = Inl Assert_Failed"
    using ct cur pop by (simp add: start_next_task_begin_def ensure_current_def)
  then show ?thesis using sleep_parks [OF assms(2,5), of tm now] by simp
qed

theorem sleep_until_past_asserts_witness: "sleep_until_begin 0 5 5 one_fiber = Inl Assert_Failed"
  by (rule sleep_until_past_asserts [of 0 one_fiber "[]" 0])
    (use one_fiber_ok in \<open>simp_all add: sched_ok_def\<close>, simp_all add: demo_defs)

end
