(* ===== verification/CMT_Quit.thy ===== *)
theory CMT_Quit
  imports CMT_Reach
begin

text \<open>
  Two operations of \<open>src/thread.cpp\<close> that walk a list while they change it: the first loop of
  \<open>thread::notify\<close> when several fibers wait for one promise, and the first loop of \<open>thread::quit\<close>.
\<close>

section \<open>Several waiters of one promise\<close>

text \<open>
  C32.  When two fibers of a thread wait for the same promise, its fulfilment wakes only the one
  that is first in the blocked list: the walk clears \<open>next_blocked\<close> of the fiber it unlinks and
  then follows that cleared link.  The other fiber stays in the blocked list, although the promise
  it waits for is ready.
\<close>

theorem notify_wakes_first_waiter_only:
  assumes "promise_ready (s_proms s p)" and "th_blocked (s_thrs s t) = Some c" and "c_next_blocked (s_ctxs s c) = Some d"
    and "c_prom (s_ctxs s c) = Some p" and "c_prom (s_ctxs s d) = Some p" and "c \<noteq> d"
    and "0 < s_next_ctx s" and "th_sleep_pqueue (s_thrs s t) = []"
  shows "\<exists>s'. thread_notify t t p s = Inr s' \<and> th_ready_head (s_thrs s' t) = Some c \<and>
    th_blocked (s_thrs s' t) = Some d \<and> c_prom (s_ctxs s' d) = Some p \<and> s_proms s' = s_proms s"
proof -
  obtain n where n: "s_next_ctx s = Suc n" using assms(7) by (cases "s_next_ctx s") auto
  show ?thesis using assms n
    by (auto simp: thread_notify_def try_unblock_def ready_push_front_def Let_def unsleep_loop.simps [of p 0])
qed

text \<open>Contexts 1 and 2 of thread 0 wait for promise 0, which holds 5.\<close>

definition two_waiters :: "nat sys" where
  "two_waiters = (init_sys :: nat sys)\<lparr>s_ctxs := (\<lambda>_. make_context True)(1 := (make_context True)\<lparr>c_prom := Some 0, c_next_blocked := Some 2\<rparr>,
       2 := (make_context True)\<lparr>c_prom := Some 0\<rparr>),
     s_next_ctx := 3, s_proms := (\<lambda>_. make_promise)(0 := make_promise\<lparr>m_blocked_thread := Some 0, m_value := Some 5\<rparr>),
     s_thrs := (s_thrs (init_sys :: nat sys))(0 := (s_thrs (init_sys :: nat sys) 0)\<lparr>th_blocked := Some 1\<rparr>)\<rparr>"

theorem notify_wakes_first_waiter_only_witness:
  "\<exists>s'. thread_notify 0 0 0 two_waiters = Inr s' \<and> th_ready_head (s_thrs s' 0) = Some 1 \<and>
    th_blocked (s_thrs s' 0) = Some 2 \<and> c_prom (s_ctxs s' 2) = Some 0"
  using notify_wakes_first_waiter_only [of two_waiters 0 0 1 2]
  by (auto simp: two_waiters_def init_sys_def make_thread_def promise_ready_def)

section \<open>Quitting\<close>

lemma quit_first_step:
  assumes inv: "thread_inv t s rs (c # bs)"
  obtains s1 where "thread_inv t s1 (c # rs) bs" "sched_frame t (owned t s rs (c # bs)) s s1"
    "set (th_sleep_pqueue (s_thrs s1 t)) = set (th_sleep_pqueue (s_thrs s t)) - {c}"
    "\<And>d. d \<noteq> c \<Longrightarrow> c_prom (s_ctxs s1 d) = c_prom (s_ctxs s d)"
    "\<And>fuel. quit_blocked (Suc fuel) t (th_blocked (s_thrs s t)) s =
       quit_blocked fuel t (case rs of [] \<Rightarrow> None | r # _ \<Rightarrow> Some r) s1"
    "\<And>q. m_error (s_proms s1 q) = (if c_prom (s_ctxs s c) = Some q then Some (Future_Error Thread_Quit)
        else m_error (s_proms s q))"
proof -
  obtain p where p: "c_prom (s_ctxs s c) = Some p" using thread_invD(8) [OF inv, of c] by auto
  obtain s1 where S: "set_exception t p (Future_Error Thread_Quit) s = Inr s1" "thread_inv t s1 (c # rs) ([] @ bs)"
    "sched_frame t (owned t s rs (c # bs)) s s1"
    "set (th_sleep_pqueue (s_thrs s1 t)) = set (th_sleep_pqueue (s_thrs s t)) - {c}" "\<And>d. d \<noteq> c \<Longrightarrow> c_prom (s_ctxs s1 d) = c_prom (s_ctxs s d)"
    "\<And>r. m_error (s_proms s1 r) = (if r = p then Some (Future_Error Thread_Quit) else m_error (s_proms s r))"
    by (rule set_exception_waiter [OF inv append_Nil [symmetric] p, of "Future_Error Thread_Quit"]) (rule that; assumption)
  have b: "th_blocked (s_thrs s t) = Some c" using thread_invD(2) [OF inv] by (simp add: blocked_list_def)
  have n: "c_next (s_ctxs s1 c) = (case rs of [] \<Rightarrow> None | r # _ \<Rightarrow> Some r)"
    using thread_invD(1) [OF S(2)] by (cases rs) (auto simp: ready_list_def)
  show thesis
    by (rule that [of s1]) (use S b n p in auto)
qed

text \<open>
  C30.  Quitting a thread that has a blocked and a ready fiber uses a null pointer: after waking the
  first blocked fiber, which puts it in front of the ready queue, the walk goes on along \<open>next\<close>
  instead of \<open>next_blocked\<close>, so into the ready queue, whose fibers wait for no promise.
\<close>

theorem quit_uses_null_promise:
  assumes inv: "thread_inv t s (r # rs) (c # bs)" and r: "c_prom (s_ctxs s r) = None"
  shows "quit_here t s = Inl Null_Deref"
proof -
  have rc: "r \<noteq> c" using thread_invD(5) [OF inv] by auto
  obtain n where n: "s_next_ctx s = Suc n" using thread_invD(7) [OF inv, of c] by (cases "s_next_ctx s") auto
  obtain s1 where S: "\<And>d. d \<noteq> c \<Longrightarrow> c_prom (s_ctxs s1 d) = c_prom (s_ctxs s d)"
    "\<And>fuel. quit_blocked (Suc fuel) t (th_blocked (s_thrs s t)) s =
       quit_blocked fuel t (case r # rs of [] \<Rightarrow> None | r # _ \<Rightarrow> Some r) s1"
    by (rule quit_first_step [OF inv]) (rule that; assumption)
  show ?thesis using r S(1) [OF rc] by (simp add: quit_here_def n S(2))
qed

text \<open>A state with context 0 ready and context 1 waiting for promise 0, all of thread 0.\<close>

definition ready_and_blocked :: "nat sys" where
  "ready_and_blocked = (init_sys :: nat sys)\<lparr>s_ctxs := (\<lambda>_. make_context True)(1 := (make_context True)\<lparr>c_prom := Some 0\<rparr>),
     s_next_ctx := 2, s_proms := (\<lambda>_. make_promise)(0 := make_promise\<lparr>m_blocked_thread := Some 0\<rparr>),
     s_thrs := (s_thrs (init_sys :: nat sys))(0 := (s_thrs (init_sys :: nat sys) 0)\<lparr>th_blocked := Some 1, th_ready_head := Some 0, th_ready_tail := Some 0\<rparr>)\<rparr>"

theorem quit_uses_null_promise_witness: "quit_here 0 ready_and_blocked = Inl Null_Deref"
proof -
  have "thread_inv 0 ready_and_blocked [0] [1]"
    by (simp add: ready_and_blocked_def init_sys_def make_thread_def thread_inv_def ready_list_def blocked_list_def
        is_heap_def make_context_def)
  moreover have "c_prom (s_ctxs ready_and_blocked 0) = None" by (simp add: ready_and_blocked_def make_context_def)
  ultimately show ?thesis using quit_uses_null_promise by blast
qed

text \<open>
  C31.  Quitting a thread takes its lists apart.  When two fibers are blocked, the second one with a
  timeout, and none is ready, the walk along \<open>next\<close> ends after the first, and the loop over the
  sleepers then makes the second one ready without taking it out of the blocked list: it is at the
  front of the ready queue and at the head of the blocked list at once, and the promise it waits for
  is told nothing.
\<close>

theorem quit_leaves_fiber_blocked:
  assumes inv: "thread_inv t s [] (c # d # bs)" and sl: "th_sleep_pqueue (s_thrs s t) = [d]"
    and p: "c_prom (s_ctxs s d) = Some p"
  shows "\<exists>s'. quit_here t s = Inr s' \<and> th_done (s_thrs s' t) \<and> th_ready_head (s_thrs s' t) = Some d \<and>
    th_blocked (s_thrs s' t) = Some d \<and> c_canceled (s_ctxs s' d) \<and>
    promise_ready (s_proms s' p) = promise_ready (s_proms s p)"
proof -
  obtain n where n: "s_next_ctx s = Suc n" using thread_invD(7) [OF inv, of c] by (cases "s_next_ctx s") auto
  have dc: "d \<noteq> c" using blocked_list_distinct [OF thread_invD(2) [OF inv]] by auto
  obtain s1 where inv1: "thread_inv t s1 [c] (d # bs)" and fr: "sched_frame t (owned t s [] (c # d # bs)) s s1"
    and q: "set (th_sleep_pqueue (s_thrs s1 t)) = set (th_sleep_pqueue (s_thrs s t)) - {c}"
    and qb: "\<And>fuel. quit_blocked (Suc fuel) t (th_blocked (s_thrs s t)) s =
       quit_blocked fuel t (case [] of [] \<Rightarrow> None | r # _ \<Rightarrow> Some r) s1"
    and er: "\<And>q. m_error (s_proms s1 q) = (if c_prom (s_ctxs s c) = Some q then Some (Future_Error Thread_Quit)
        else m_error (s_proms s q))"
    by (rule quit_first_step [OF inv]) (rule that; assumption)
  have "c_prom (s_ctxs s c) \<noteq> Some p" using thread_invD(9) [OF inv, of c d] p dc by auto
  then have pr: "promise_ready (s_proms s1 p) = promise_ready (s_proms s p)"
    using er [of p] fr by (simp add: promise_ready_def sched_frame_def)
  have "set (th_sleep_pqueue (s_thrs s1 t)) = {d}" using q sl dc by auto
  then have sl1: "th_sleep_pqueue (s_thrs s1 t) = [d]"
    using thread_invD(4) [OF inv1]
    by (cases "th_sleep_pqueue (s_thrs s1 t)"; cases "tl (th_sleep_pqueue (s_thrs s1 t))") auto
  have n1: "s_next_ctx s1 = Suc n" using fr n by (simp add: sched_frame_def)
  have r: "th_ready_head (s_thrs s1 t) = Some c" "c_next (s_ctxs s1 c) = None" "th_blocked (s_thrs s1 t) = Some d"
    using thread_invD(1,2) [OF inv1] by (simp_all add: ready_list_def blocked_list_def)
  show ?thesis
    by (simp add: quit_here_def n n1 qb r sl1 pr cancel_sleepers_def on_thread_def ready_push_front_def upd_thread_def Let_def)
qed

text \<open>Contexts 0 and 1 wait for promises 0 and 1, context 1 until tick 100.\<close>

definition two_blocked :: "nat sys" where
  "two_blocked = (init_sys :: nat sys)\<lparr>s_ctxs := (\<lambda>_. make_context True)(0 := (make_context True)\<lparr>c_prom := Some 0, c_next_blocked := Some 1\<rparr>,
       1 := (make_context True)\<lparr>c_prom := Some 1, c_resume_time := 100\<rparr>), s_next_ctx := 2,
     s_proms := (\<lambda>_. make_promise\<lparr>m_blocked_thread := Some 0\<rparr>),
     s_thrs := (s_thrs (init_sys :: nat sys))(0 := (s_thrs (init_sys :: nat sys) 0)\<lparr>th_blocked := Some 0, th_sleep_pqueue := [1]\<rparr>)\<rparr>"

theorem quit_leaves_fiber_blocked_witness:
  "\<exists>s'. quit_here 0 two_blocked = Inr s' \<and> th_ready_head (s_thrs s' 0) = Some 1 \<and>
    th_blocked (s_thrs s' 0) = Some 1 \<and> \<not> promise_ready (s_proms s' 1)"
proof -
  have "thread_inv 0 two_blocked [] [0, 1]" "th_sleep_pqueue (s_thrs two_blocked 0) = [1]"
    "c_prom (s_ctxs two_blocked 1) = Some 1" "\<not> promise_ready (s_proms two_blocked 1)"
    by (simp_all add: two_blocked_def init_sys_def make_thread_def thread_inv_def ready_list_def blocked_list_def
        is_heap_def make_context_def make_promise_def promise_ready_def)
  with quit_leaves_fiber_blocked [of 0 two_blocked 0 1 "[]" 1] show ?thesis by auto
qed

end
