(* ===== verification/CMT_Actor.thy ===== *)
theory CMT_Actor
  imports CMT_Process
begin

text \<open>
  Calls across threads: the synchronous calls and the free functions of
  \<open>include/boost/cmt/thread.hpp\<close>, delegates bound to a thread
  (\<open>detail/async_delegate_impl.hpp\<close>), the method members of actors (\<open>actor_interface.hpp\<close>), and
  the start of a new thread (\<open>thread::create\<close>).  As in the task loop, a functor is named by a
  number, its arguments bound, and \<open>res\<close> says how its call ends.
\<close>

section \<open>Synchronous calls\<close>

text \<open>
  \<open>thread::sync\<close> up to the switch inside \<open>wait\<close>.  The promise and the task live on the caller's
  stack, retained often enough that no \<open>release\<close> deletes them; the task is posted like that of
  \<open>async\<close>.  The overloads without a priority take the target's current one.
\<close>

definition thread_sync_begin :: "thid \<Rightarrow> thid \<Rightarrow> task_functor \<Rightarrow> priority \<Rightarrow> int \<Rightarrow> string
    \<Rightarrow> time_point \<Rightarrow> time_point \<Rightarrow> time_point \<Rightarrow> 'v sys \<Rightarrow> pptr \<times> (fault + ((call + 'v) \<times> 'v sys))" where
  "thread_sync_begin me t f pr timeout_us n now0 now1 now2 s =
     (let (p, s) = new_promise s;
          (k, s) = new_task (Rtask f p) (std_max (current_priority t s) pr) time_min n s;
          s = async_task t k s
      in (p, promise_wait_begin me p (timeout_point timeout_us now0) now1 now2 s))"

definition thread_sync_current_begin :: "thid \<Rightarrow> thid \<Rightarrow> task_functor \<Rightarrow> int \<Rightarrow> string
    \<Rightarrow> time_point \<Rightarrow> time_point \<Rightarrow> time_point \<Rightarrow> 'v sys \<Rightarrow> pptr \<times> (fault + ((call + 'v) \<times> 'v sys))" where
  "thread_sync_current_begin me t f timeout_us n now0 now1 now2 s =
     (let (p, s) = new_promise s;
          (k, s) = new_task (Rtask f p) (current_priority t s) time_min n s;
          s = async_task t k s
      in (p, promise_wait_begin me p (timeout_point timeout_us now0) now1 now2 s))"

text \<open>The free functions act on the calling thread; the caller's priority is a lower bound.\<close>

definition free_async_result :: "thid \<Rightarrow> task_functor \<Rightarrow> priority \<Rightarrow> string \<Rightarrow> 'v sys \<Rightarrow> pptr \<times> 'v sys" where
  "free_async_result me f pr n s = async_result me f (std_max (current_priority me s) pr) n s"

definition free_async_void :: "thid \<Rightarrow> task_functor \<Rightarrow> priority \<Rightarrow> 'v sys \<Rightarrow> 'v sys" where
  "free_async_void me f pr s = async_void me f pr s"

definition free_sync_begin :: "thid \<Rightarrow> task_functor \<Rightarrow> priority \<Rightarrow> int \<Rightarrow> string
    \<Rightarrow> time_point \<Rightarrow> time_point \<Rightarrow> time_point \<Rightarrow> 'v sys \<Rightarrow> pptr \<times> (fault + ((call + 'v) \<times> 'v sys))" where
  "free_sync_begin me f pr timeout_us n now0 now1 now2 s =
     thread_sync_begin me me f (std_max (current_priority me s) pr) timeout_us n now0 now1 now2 s"

definition free_yield_begin :: "thid \<Rightarrow> time_point \<Rightarrow> 'v sys \<Rightarrow> fault + (cptr \<times> 'v sys)" where
  "free_yield_begin me now s = yield_begin me now s"

definition free_usleep_begin :: "thid \<Rightarrow> 64 word \<Rightarrow> time_point \<Rightarrow> time_point \<Rightarrow> 'v sys \<Rightarrow> fault + (call \<times> 'v sys)" where
  "free_usleep_begin me us now0 now s = usleep_begin me us now0 now s"

definition free_sleep_until_begin :: "thid \<Rightarrow> time_point \<Rightarrow> time_point \<Rightarrow> 'v sys \<Rightarrow> fault + (call \<times> 'v sys)" where
  "free_sleep_until_begin me tp now s = sleep_until_begin me tp now s"

section \<open>Delegates and actors\<close>

text \<open>\<open>async_delegate\<close>: a functor and a thread; the call posts.\<close>

record async_delegate =
  ad_del :: task_functor
  ad_thr :: thid

definition delegate_call :: "async_delegate \<Rightarrow> 'v sys \<Rightarrow> pptr \<times> 'v sys" where
  "delegate_call d s = async_result (ad_thr d) (ad_del d) default_priority [] s"

text \<open>
  \<open>actor_base\<close> is the thread an actor is assigned to; a method member points to its actor (null
  before \<open>set_delegate\<close>), so that a change of the thread is seen by all its members.
\<close>

record actor_base =
  ab_thread :: thid

type_synonym actors = "ptr \<Rightarrow> actor_base"

definition set_thread :: "ptr \<Rightarrow> thid \<Rightarrow> actors \<Rightarrow> actors" where
  "set_thread a t as = as(a := (as a)\<lparr>ab_thread := t\<rparr>)"

definition get_thread :: "ptr \<Rightarrow> actors \<Rightarrow> thid" where
  "get_thread a as = ab_thread (as a)"

record actor_member =
  am_actor :: "ptr option"
  am_delegate :: task_functor

definition set_delegate :: "task_functor \<Rightarrow> ptr \<Rightarrow> actor_member \<Rightarrow> actor_member" where
  "set_delegate f ab m = m\<lparr>am_actor := Some ab, am_delegate := f\<rparr>"

text \<open>
  The call operator of a method member, for methods that are not const: on another thread it posts
  a copy of the bound delegate there; on the actor's own thread it calls the delegate and wraps the value in
  a ready future (\<open>future( const T& v )\<close>), an exception passing through to the caller.
\<close>

definition new_promise_value :: "'v \<Rightarrow> 'v sys \<Rightarrow> pptr \<times> 'v sys" where
  "new_promise_value v s =
     (s_next_prom s, s\<lparr>s_proms := (s_proms s)(s_next_prom s := make_promise_value v),
                        s_next_prom := Suc (s_next_prom s)\<rparr>)"

definition actor_call :: "actors \<Rightarrow> thid \<Rightarrow> (nat \<Rightarrow> exn + 'v) \<Rightarrow> 'v \<Rightarrow> actor_member \<Rightarrow> 'v sys
    \<Rightarrow> fault + ((exn + pptr) \<times> 'v sys)" where
  "actor_call as me res v0 m s =
     (let here = (case call_functor me res v0 (am_delegate m) s of
                    Inl e \<Rightarrow> Inl e
                  | Inr (Inl x, s) \<Rightarrow> Inr (Inl x, s)
                  | Inr (Inr v, s) \<Rightarrow> (let (p, s) = new_promise_value v s in Inr (Inr p, s)))
      in case am_actor m of
           None \<Rightarrow> here
         | Some ab \<Rightarrow>
             if me \<noteq> ab_thread (as ab)
             then (let (p, s) = async_result (ab_thread (as ab)) (am_delegate m) default_priority [] s in Inr (Inr p, s))
             else here)"

text \<open>The other ways a method member changes: \<open>set_actor\<close> and the assignment of a functor.\<close>

definition set_actor :: "ptr \<Rightarrow> actor_member \<Rightarrow> actor_member" where
  "set_actor ab m = m\<lparr>am_actor := Some ab\<rparr>"

definition assign_delegate :: "task_functor \<Rightarrow> actor_member \<Rightarrow> actor_member" where
  "assign_delegate f m = m\<lparr>am_delegate := f\<rparr>"

text \<open>
  The member of a const method posts a reference to its delegate, not a copy, so that the store of
  these members matters when the task runs.  The functors of the user are numbered below \<open>b\<close>;
  \<open>b + a\<close> is \<open>boost::ref(m_delegate)\<close> of the member at the address \<open>a\<close>, and calling it calls the
  delegate that the member has then.
\<close>

record const_member =
  cm_actor :: "ptr option"
  cm_delegate :: nat

type_synonym const_members = "ptr \<Rightarrow> const_member"

definition by_ref :: "nat \<Rightarrow> const_members \<Rightarrow> (nat \<Rightarrow> exn + 'v) \<Rightarrow> nat \<Rightarrow> exn + 'v" where
  "by_ref b ms res n = (if n < b then res n else res (cm_delegate (ms (n - b))))"

definition const_actor_call :: "actors \<Rightarrow> thid \<Rightarrow> nat \<Rightarrow> const_members \<Rightarrow> (nat \<Rightarrow> exn + 'v) \<Rightarrow> ptr \<Rightarrow> 'v sys
    \<Rightarrow> (exn + pptr) \<times> 'v sys" where
  "const_actor_call as me b ms res a s =
     (let here = (case res (cm_delegate (ms a)) of
                    Inl x \<Rightarrow> (Inl x, s)
                  | Inr v \<Rightarrow> (let (p, s) = new_promise_value v s in (Inr p, s)))
      in case cm_actor (ms a) of
           None \<Rightarrow> here
         | Some ab \<Rightarrow>
             if me \<noteq> ab_thread (as ab)
             then (let (p, s) = async_result (ab_thread (as ab)) (User_Fun (b + a)) default_priority [] s in (Inr p, s))
             else here)"

text \<open>\<open>set_delegate\<close>, the assignment of a functor, and the copy assignment, which leaves the actor.\<close>

definition const_set_delegate :: "nat \<Rightarrow> ptr \<Rightarrow> ptr \<Rightarrow> const_members \<Rightarrow> const_members" where
  "const_set_delegate f ab a ms = ms(a := (ms a)\<lparr>cm_actor := Some ab, cm_delegate := f\<rparr>)"

definition const_assign_delegate :: "nat \<Rightarrow> ptr \<Rightarrow> const_members \<Rightarrow> const_members" where
  "const_assign_delegate f a ms = ms(a := (ms a)\<lparr>cm_delegate := f\<rparr>)"

definition copy_member :: "const_member \<Rightarrow> ptr \<Rightarrow> const_members \<Rightarrow> const_members" where
  "copy_member d a ms = ms(a := (ms a)\<lparr>cm_delegate := cm_delegate d\<rparr>)"

text \<open>
  The table of methods of an interface.  \<open>vtable_reflector\<close> of \<open>boost::reflect\<close> visits the members of the
  interface in their order, which is the parameter \<open>ks\<close>; \<open>set_visitor\<close> binds each to the method of the
  object (\<open>impl\<close>), or, for an object that is itself a table, forwards it to the entry of that table.
\<close>

type_synonym vtable = "nat \<Rightarrow> actor_member"

definition set_vtable :: "nat list \<Rightarrow> (nat \<Rightarrow> task_functor) \<Rightarrow> ptr \<Rightarrow> vtable \<Rightarrow> vtable" where
  "set_vtable ks impl ab vt = fold (\<lambda>k vt. vt(k := set_delegate (impl k) ab (vt k))) ks vt"

definition set_vtable_from :: "nat list \<Rightarrow> (nat \<Rightarrow> task_functor) \<Rightarrow> ptr \<Rightarrow> vtable \<Rightarrow> vtable" where
  "set_vtable_from ks fwd ab vt = fold (\<lambda>k vt. vt(k := assign_delegate (fwd k) (set_actor ab (vt k)))) ks vt"

text \<open>The constructors of \<open>actor<Interface>\<close>, at the address \<open>a\<close>: without an object, and for an object.\<close>

definition new_actor :: "ptr \<Rightarrow> thid \<Rightarrow> actors \<Rightarrow> actors" where
  "new_actor a t as = as(a := \<lparr>ab_thread = t\<rparr>)"

definition new_actor_for :: "nat list \<Rightarrow> (nat \<Rightarrow> task_functor) \<Rightarrow> ptr \<Rightarrow> thid \<Rightarrow> actors \<times> vtable \<Rightarrow> actors \<times> vtable" where
  "new_actor_for ks impl a t = (\<lambda>(as, vt). (new_actor a t as, set_vtable ks impl a vt))"

section \<open>The current thread\<close>

text \<open>
  \<open>thread::current\<close>: the thread object of an operating system thread, made when it is first asked for;
  \<open>nt\<close> is the address \<open>new thread()\<close> gives.
\<close>

definition thread_current :: "nat \<Rightarrow> thid \<Rightarrow> (nat \<Rightarrow> thid option) \<times> 'v sys \<Rightarrow> thid \<times> (nat \<Rightarrow> thid option) \<times> 'v sys" where
  "thread_current os nt = (\<lambda>(tls, s).
     (case tls os of
        Some t \<Rightarrow> (t, tls, s)
      | None \<Rightarrow> (nt, tls(os := Some nt), upd_thread nt (\<lambda>_. make_thread []) s)))"

section \<open>Starting a thread\<close>

text \<open>
  \<open>thread::create\<close> makes a promise for the new thread's address and waits for it;
  \<open>start_thread\<close>, in the new operating system thread, fulfils it, then sets the name and goes on to
  \<open>exec()\<close>: two steps, between which the caller may go on.  \<open>create\<close> then records the
  \<open>boost::thread\<close>.  \<open>addr\<close> makes a value of the address.
\<close>

definition create_begin :: "thid \<Rightarrow> time_point \<Rightarrow> time_point \<Rightarrow> 'v sys \<Rightarrow> pptr \<times> (fault + ((call + 'v) \<times> 'v sys))" where
  "create_begin me now1 now2 s =
     (let (p, s) = new_promise s in (p, promise_wait_begin me p time_max now1 now2 s))"

definition start_thread_answer :: "(thid \<Rightarrow> 'v) \<Rightarrow> thid \<Rightarrow> pptr \<Rightarrow> 'v sys \<Rightarrow> fault + 'v sys" where
  "start_thread_answer addr t p s = set_value t p (addr t) s"

definition start_thread_name :: "thid \<Rightarrow> string \<Rightarrow> 'v sys \<Rightarrow> 'v sys" where
  "start_thread_name t n s = set_name t n s"

definition create_end :: "thid \<Rightarrow> cptr \<Rightarrow> pptr \<Rightarrow> ('v \<Rightarrow> thid) \<Rightarrow> 'v sys \<Rightarrow> (exn + thid) \<times> 'v sys" where
  "create_end me self p out s =
     (case promise_wait_end me self p s of
        (Inl e, s) \<Rightarrow> (Inl e, s)
      | (Inr v, s) \<Rightarrow> (Inr (out v), set_boost_thread (out v) s))"

section \<open>What a posted call does\<close>

lemma async_result_effect:
  assumes "async_result t f pr n s = (p, s')"
  shows "p = s_next_prom s" "s_ctxs s' = s_ctxs s" "s_next_ctx s' = s_next_ctx s" "s_next_task s' = Suc (s_next_task s)"
    "th_task_in_queue (s_thrs s' t) = Some (s_next_task s)" "\<And>u. u \<noteq> t \<Longrightarrow> s_thrs s' u = s_thrs s u"
    "s_thrs s' t = (s_thrs s t)\<lparr>th_task_in_queue := Some (s_next_task s)\<rparr>"
    "tk_kind (s_tasks s' (s_next_task s)) = Rtask f p" "\<not> tk_canceled (s_tasks s' (s_next_task s))"
    "tk_next (s_tasks s' (s_next_task s)) = th_task_in_queue (s_thrs s t)"
    "tk_prio (s_tasks s' (s_next_task s)) = max (current_priority t s) pr"
    "s_proms s' = (s_proms s)(p := make_promise\<lparr>m_task := Some (s_next_task s)\<rparr>)"
  using assms
  by (auto simp: async_result_def new_promise_def new_task_def make_task_def async_task_def upd_thread_def upd_prom_def
      set_task_def current_priority_def Let_def fun_eq_iff split: option.split)

lemma thread_inv_async_result:
  assumes "async_result t f pr n s = (p, s')" and "thread_inv u s rs bs" and "\<And>c. c \<in> set bs \<Longrightarrow> c_prom (s_ctxs s c) \<noteq> Some p"
  shows "thread_inv u s' rs bs"
proof -
  note F = async_result_effect [OF assms(1)]
  have "\<exists>q. s_thrs s' u = (s_thrs s u)\<lparr>th_task_in_queue := q\<rparr>"
  proof (cases "u = t")
    case False
    have "s_thrs s u = (s_thrs s u)\<lparr>th_task_in_queue := th_task_in_queue (s_thrs s u)\<rparr>" by simp
    then show ?thesis using F(6) [OF False] by metis
  qed (use F(7) in blast)
  then obtain q where q: "s_thrs s' u = (s_thrs s u)\<lparr>th_task_in_queue := q\<rparr>" by blast
  show ?thesis using assms(2,3) F(2,3,12) q
    by (fastforce simp: thread_inv_def ready_list_def blocked_list_def)
qed

text \<open>Every method of the interface is bound, to its own implementation; nothing else changes.\<close>

lemma set_vtable_binds:
  "set_vtable ks impl ab vt k = (if k \<in> set ks then set_delegate (impl k) ab (vt k) else vt k)"
proof (induction ks arbitrary: vt)
  case (Cons j ks)
  then show ?case by (auto simp: set_vtable_def set_delegate_def)
qed (simp add: set_vtable_def)

lemma set_vtable_from_binds: "set_vtable_from ks fwd ab = set_vtable ks fwd ab"
  by (simp add: fun_eq_iff set_vtable_from_def set_vtable_def set_delegate_def assign_delegate_def set_actor_def)

text \<open>
  An actor that was given to another thread: each of its methods, called from elsewhere, is posted to
  the new thread and to no other.
\<close>

lemma actor_methods_follow_thread:
  assumes "(as', vt') = new_actor_for ks impl a t (as, vt)" and "k \<in> set ks" and "me \<noteq> u"
  shows "actor_call (set_thread a u as') me res v0 (vt' k) s =
    (let (p, s') = async_result u (impl k) default_priority [] s in Inr (Inr p, s'))"
  using assms by (simp add: new_actor_for_def actor_call_def set_vtable_binds set_delegate_def set_thread_def)

text \<open>The current thread is the same at every call, and two system threads have different ones.\<close>

lemma thread_current_stable:
  assumes "thread_current os nt (tls, s) = (t, tls', s')"
  shows "thread_current os nt' (tls', s') = (t, tls', s')"
    "nt \<notin> ran tls \<Longrightarrow> os' \<noteq> os \<Longrightarrow> tls os' = Some t' \<Longrightarrow> inj_on tls (dom tls) \<Longrightarrow> t' \<noteq> t"
  using assms by (auto simp: thread_current_def ran_def inj_on_def split: option.splits) (metis domI option.sel)

text \<open>A posted call of user code: the future is not ready, and it receives the result when the task runs.\<close>

lemma posted_result_delivered:
  assumes inv: "thread_inv t s rs bs" and fresh: "\<forall>c \<in> set bs. c_prom (s_ctxs s c) \<noteq> Some (s_next_prom s)"
    and A: "async_result t (User_Fun f) pr n s = (p, s1)"
  obtains s2 where "run_one t res v0 (s_next_task s) s1 = Inr s2" "delivered (res f) (s_proms s2 p)" "\<not> promise_ready (s_proms s1 p)"
proof -
  note F = async_result_effect [OF A]
  have inv1: "thread_inv t s1 rs bs" using fresh F(1) by (intro thread_inv_async_result [OF A inv]) auto
  have k: "s_next_task s < s_next_task s1" "plain_task res (s_tasks s1 (s_next_task s))"
    "\<And>q. promise_of (s_tasks s1 (s_next_task s)) = Some q \<Longrightarrow> m_error (s_proms s1 q) = None"
    using F by (auto simp: plain_task_def promise_of_def make_promise_def)
  obtain s2 rs' bs' where R: "run_one t res v0 (s_next_task s) s1 = Inr s2" "thread_inv t s2 rs' bs'" "task_frame t s1 s2"
    "result_in res (s_tasks s1 (s_next_task s)) (s_proms s2)"
    by (rule run_one_total [OF inv1 k, of v0]) (assumption, (rule that; assumption))
  show thesis by (rule that [OF R(1)]) (use R(4) F(8,9,12) in \<open>simp_all add: result_in_def promise_ready_def make_promise_def\<close>)
qed

text \<open>
  The call of a const method from another thread runs the delegate that the member has when the
  task runs (\<open>ms'\<close>), not the one it had when it was called (\<open>ms\<close>).
\<close>

lemma const_call_binds_late:
  assumes "thread_inv t s rs bs" and "\<forall>c \<in> set bs. c_prom (s_ctxs s c) \<noteq> Some (s_next_prom s)"
    and "cm_actor (ms a) = Some ab" "ab_thread (as ab) = t" "me \<noteq> t"
  shows "\<exists>p s1 s2. const_actor_call as me b ms res a s = (Inr p, s1) \<and> run_one t (by_ref b ms' res) v0 (s_next_task s) s1 = Inr s2 \<and>
    delivered (res (cm_delegate (ms' a))) (s_proms s2 p)"
proof -
  obtain p s1 where A: "async_result t (User_Fun (b + a)) default_priority [] s = (p, s1)" by fastforce
  obtain s2 where "run_one t (by_ref b ms' res) v0 (s_next_task s) s1 = Inr s2" "delivered (by_ref b ms' res (b + a)) (s_proms s2 p)"
    by (rule posted_result_delivered [OF assms(1,2) A, of "by_ref b ms' res" v0]) (rule that; assumption)
  then show ?thesis using assms(3-5) A by (simp add: const_actor_call_def by_ref_def)
qed

text \<open>
  A method called on an actor from another thread runs on the actor's thread and only there:
  the call returns at once with a future that is not ready, the caller's own scheduler is left as
  it was, and the one trace of the call is a task at the head of the intake list of the actor's
  thread; when that thread runs this task, the future receives the value the method returned or
  the exception it threw.
\<close>

lemma actor_call_runs_on_its_thread:
  assumes inv: "thread_inv t s rs bs" and m: "am_actor m = Some ab" "ab_thread (as ab) = t" "am_delegate m = User_Fun f"
    and other: "me \<noteq> t" and fresh: "\<forall>c \<in> set bs. c_prom (s_ctxs s c) \<noteq> Some (s_next_prom s)"
  shows "\<exists>p s1 s2. actor_call as me res v0 m s = Inr (Inr p, s1) \<and> \<not> promise_ready (s_proms s1 p) \<and>
    s_thrs s1 me = s_thrs s me \<and> s_ctxs s1 = s_ctxs s \<and>
    th_task_in_queue (s_thrs s1 t) = Some (s_next_task s) \<and> run_one t res v0 (s_next_task s) s1 = Inr s2 \<and>
    delivered (res f) (s_proms s2 p)"
proof -
  obtain p s1 where A: "async_result t (User_Fun f) default_priority [] s = (p, s1)" by fastforce
  note F = async_result_effect [OF A]
  obtain s2 where R: "run_one t res v0 (s_next_task s) s1 = Inr s2" "delivered (res f) (s_proms s2 p)" "\<not> promise_ready (s_proms s1 p)"
    by (rule posted_result_delivered [OF inv fresh A, of res v0]) (rule that; assumption)
  have "actor_call as me res v0 m s = Inr (Inr p, s1)" using m other A by (simp add: actor_call_def)
  then show ?thesis using F(2,5) F(6) [OF other] R by blast
qed

definition far_actor :: actor_member where
  "far_actor = set_delegate (User_Fun 3) 0 \<lparr>am_actor = None, am_delegate = User_Fun 0\<rparr>"

lemma actor_call_runs_on_its_thread_example:
  "\<exists>p s1 s2. actor_call (\<lambda>_. \<lparr>ab_thread = 2\<rparr>) 0 (\<lambda>n. Inr (n + 4)) 0 far_actor init_sys = Inr (Inr p, s1) \<and>
    run_one 2 (\<lambda>n. Inr (n + 4)) 0 0 s1 = Inr s2 \<and> m_value (s_proms s2 p) = Some (7 :: nat)"
proof -
  have "thread_inv 2 (init_sys :: nat sys) [] []" "s_next_task (init_sys :: nat sys) = 0"
    by (simp_all add: init_sys_def thread_inv_def ready_list_def blocked_list_def is_heap_def make_thread_def)
  then show ?thesis
    using actor_call_runs_on_its_thread [of 2 "init_sys :: nat sys" "[]" "[]" far_actor 0 "\<lambda>_. \<lparr>ab_thread = 2\<rparr>" 3 0 "\<lambda>n. Inr (n + 4)" 0]
    by (auto simp: far_actor_def set_delegate_def delivered_def)
qed

end
