(* ===== verification/CMT_Asio.thy ===== *)
theory CMT_Asio
  imports CMT_Process
begin

text \<open>
  The wrappers of \<open>boost::asio\<close>: \<open>src/asio.cpp\<close>, \<open>include/boost/cmt/asio.hpp\<close>, the UDP
  functions of \<open>src/asio/udp/socket.cpp\<close> and the acceptor of \<open>src/asio/acceptor.cpp\<close>.  Each
  wrapper makes a promise, starts an asynchronous operation whose handler, called in the thread of
  the \<open>io_service\<close>, fulfils the promise, and waits for it.  The operations themselves belong to
  \<open>boost::asio\<close>: what a handler is called with, and what the blocking calls return, are arguments.
\<close>

section \<open>Handlers\<close>

text \<open>
  What the promises of the wrappers hold.  An \<open>error_code\<close> is its number, zero for success; an
  endpoint is named by a number.
\<close>

datatype asio_value = Size nat | Code int | Endpoints "nat list"

definition read_write_handler :: "thid \<Rightarrow> pptr \<Rightarrow> int \<Rightarrow> nat \<Rightarrow> asio_value sys \<Rightarrow> fault + asio_value sys" where
  "read_write_handler me p ec n s =
     (if ec = 0 then set_value me p (Size n) s else set_exception me p (System_Error ec) s)"

text \<open>
  \<open>read_write_handler_ec\<close>: the promise is fulfilled before the error code is stored, so there is a
  state in between, in which the waiter is already awake.
\<close>

definition read_write_handler_ec ::
  "thid \<Rightarrow> pptr \<Rightarrow> int \<Rightarrow> nat \<Rightarrow> asio_value sys \<times> int \<Rightarrow> fault + ((asio_value sys \<times> int) \<times> (asio_value sys \<times> int))" where
  "read_write_handler_ec me p ec n = (\<lambda>(s, oec).
     (case set_value me p (Size n) s of Inl f \<Rightarrow> Inl f | Inr s \<Rightarrow> Inr ((s, oec), (s, ec))))"

definition error_handler :: "thid \<Rightarrow> pptr \<Rightarrow> int \<Rightarrow> asio_value sys \<Rightarrow> fault + asio_value sys" where
  "error_handler me p ec s = set_value me p (Code ec) s"

text \<open>The handler of the resolvers: the iterator is the list of the entries it goes through.\<close>

fun collect_endpoints :: "nat list \<Rightarrow> nat list \<Rightarrow> nat list" where
  "collect_endpoints [] eps = eps"
| "collect_endpoints (e # itr) eps = collect_endpoints itr (eps @ [e])"

definition resolve_handler :: "thid \<Rightarrow> pptr \<Rightarrow> int \<Rightarrow> nat list \<Rightarrow> asio_value sys \<Rightarrow> fault + asio_value sys" where
  "resolve_handler me p ec itr s =
     (if ec = 0 then set_value me p (Endpoints (collect_endpoints itr [])) s
      else set_exception me p (System_Error ec) s)"

definition udp_rw_handler :: "thid \<Rightarrow> pptr \<Rightarrow> int \<Rightarrow> nat \<Rightarrow> asio_value sys \<Rightarrow> fault + asio_value sys" where
  "udp_rw_handler me p ec n s =
     (if ec = 0 then set_value me p (Size n) s else set_exception me p (System_Error ec) s)"

section \<open>Wrappers\<close>

text \<open>
  The common body of \<open>read\<close>, \<open>read_some\<close>, \<open>write\<close>, \<open>write_some\<close>, \<open>accept\<close>, \<open>connect\<close> and
  \<open>resolve\<close> up to the switch in \<open>wait\<close>; the promise is the handle for the handler.
\<close>

definition asio_op_begin :: "thid \<Rightarrow> int \<Rightarrow> time_point \<Rightarrow> time_point \<Rightarrow> time_point \<Rightarrow> asio_value sys
    \<Rightarrow> pptr \<times> (fault + ((call + asio_value) \<times> asio_value sys))" where
  "asio_op_begin me timeout_us now0 now1 now2 s =
     (let (p, s) = new_promise s
      in (p, promise_wait_begin me p (timeout_point timeout_us now0) now1 now2 s))"

text \<open>
  \<open>tcp::resolve\<close> and \<open>udp::resolve\<close>: the resolver is one of their own, also in \<open>udp::resolve\<close>, which
  takes one as an argument and does not use it.
\<close>

definition tcp_resolve_begin :: "thid \<Rightarrow> int \<Rightarrow> time_point \<Rightarrow> time_point \<Rightarrow> time_point \<Rightarrow> asio_value sys
    \<Rightarrow> pptr \<times> (fault + ((call + asio_value) \<times> asio_value sys))" where
  "tcp_resolve_begin me timeout_us now0 now1 now2 s =
     (let (p, s) = new_promise s
      in (p, promise_wait_begin me p (timeout_point timeout_us now0) now1 now2 s))"

definition udp_resolve_begin :: "thid \<Rightarrow> nat \<Rightarrow> int \<Rightarrow> time_point \<Rightarrow> time_point \<Rightarrow> time_point \<Rightarrow> asio_value sys
    \<Rightarrow> pptr \<times> (fault + ((call + asio_value) \<times> asio_value sys))" where
  "udp_resolve_begin me r timeout_us now0 now1 now2 s =
     (let (p, s) = new_promise s
      in (p, promise_wait_begin me p (timeout_point timeout_us now0) now1 now2 s))"

text \<open>
  \<open>udp::receive_from\<close>: when data is available the blocking call is made at once (\<open>received\<close> is its
  result), otherwise the wrapper's pattern; \<open>send_to\<close> is the blocking call itself.
\<close>

definition udp_receive_from_begin ::
  "thid \<Rightarrow> nat \<Rightarrow> exn + nat \<Rightarrow> time_point \<Rightarrow> time_point \<Rightarrow> asio_value sys
     \<Rightarrow> (exn + nat) + (pptr \<times> (fault + ((call + asio_value) \<times> asio_value sys)))" where
  "udp_receive_from_begin me available received now1 now2 s =
     (if available \<noteq> 0 then Inl received else Inr (asio_op_begin me time_max 0 now1 now2 s))"

definition udp_send_to :: "exn + nat \<Rightarrow> exn + nat" where
  "udp_send_to sent = sent"

section \<open>The acceptor\<close>

text \<open>
  \<open>acceptor_private\<close>: the pointer to the acceptor of \<open>boost::asio\<close>, which the destructor deletes but does
  not reset, the future of the listening task, and the handler, a functor named by a number.
\<close>

datatype acc_ptr = Acc_Null | Acc_Live | Acc_Deleted

record acceptor =
  ac_acc :: acc_ptr
  ac_listen_done :: "pptr option"
  ac_new_connection :: "nat option"

definition make_acceptor :: acceptor where
  "make_acceptor = \<lparr>ac_acc = Acc_Null, ac_listen_done = None, ac_new_connection = None\<rparr>"

text \<open>\<open>acceptor::listen\<close>: the listening task, the functor \<open>k\<close>, is posted to the calling thread.\<close>

definition acceptor_start :: "thid \<Rightarrow> nat \<Rightarrow> nat \<Rightarrow> acceptor \<Rightarrow> 'v sys \<Rightarrow> acceptor \<times> 'v sys" where
  "acceptor_start me k on_con a s =
     (let (p, s) = async_result me (User_Fun k) (std_max (current_priority me s) default_priority) [] s
      in (a\<lparr>ac_new_connection := Some on_con, ac_listen_done := Some p\<rparr>, s))"

text \<open>The beginning of \<open>acceptor_private::listen\<close>; \<open>opened\<close> is the exception that opening the port threw, if any.\<close>

definition acceptor_open :: "exn option \<Rightarrow> acceptor \<Rightarrow> exn option \<times> acceptor" where
  "acceptor_open opened a =
     (if ac_acc a = Acc_Null
      then (case opened of None \<Rightarrow> (None, a\<lparr>ac_acc := Acc_Live\<rparr>) | Some e \<Rightarrow> (Some e, a))
      else (None, a))"

text \<open>
  \<open>acceptor_private::accept\<close>: the asynchronous accept needs a live acceptor; the rest, once its \<open>wait\<close>
  has ended with \<open>r\<close>.
\<close>

definition acceptor_accept_begin :: "acc_ptr \<Rightarrow> fault + unit" where
  "acceptor_accept_begin acc =
     (case acc of Acc_Null \<Rightarrow> Inl Null_Deref | Acc_Deleted \<Rightarrow> Inl Dangling | Acc_Live \<Rightarrow> Inr ())"

definition acceptor_accept_end :: "nat \<Rightarrow> exn + int \<Rightarrow> exn + nat" where
  "acceptor_accept_end sock r =
     (case r of Inl e \<Rightarrow> Inl e | Inr ec \<Rightarrow> if ec \<noteq> 0 then Inl (System_Error ec) else Inr sock)"

text \<open>
  The loop of \<open>acceptor_private::listen\<close> on the successive calls of \<open>accept\<close>, each with the state of the
  acceptor at the time of the call and its result: the calls of \<open>new_connection\<close> it posts, in order,
  and the exception that ends it (\<open>None\<close>: it waits for the next connection).  A \<open>system_error\<close> is caught
  by a handler that calls \<open>accept\<close> again.
\<close>

fun acceptor_listen :: "(acc_ptr \<times> (exn + nat)) list \<Rightarrow> (nat \<times> int) list \<Rightarrow> fault + ((nat \<times> int) list \<times> exn option)" where
  "acceptor_listen [] cs = Inr (cs, None)"
| "acceptor_listen ((acc, r) # rs) cs =
     (case acceptor_accept_begin acc of
        Inl f \<Rightarrow> Inl f
      | Inr _ \<Rightarrow>
          (case r of
             Inr sock \<Rightarrow> acceptor_listen rs (cs @ [(sock, 0)])
           | Inl (System_Error e) \<Rightarrow>
               (case rs of
                  [] \<Rightarrow> Inr (cs, None)
                | (acc', r') # rs' \<Rightarrow>
                    (case acceptor_accept_begin acc' of
                       Inl f \<Rightarrow> Inl f
                     | Inr _ \<Rightarrow>
                         (case r' of
                            Inr sock \<Rightarrow> acceptor_listen rs' (cs @ [(sock, e)])
                          | Inl x \<Rightarrow> Inr (cs, Some x))))
           | Inl x \<Rightarrow> Inr (cs, Some x)))"

text \<open>The destructor: the acceptor is deleted, then the listening task is waited for.\<close>

definition acceptor_destroy_begin :: "thid \<Rightarrow> time_point \<Rightarrow> time_point \<Rightarrow> acceptor \<Rightarrow> 'v sys
    \<Rightarrow> acceptor \<times> (fault + ((call + 'v) \<times> 'v sys) option)" where
  "acceptor_destroy_begin me now1 now2 a s =
     (let a = (if ac_acc a = Acc_Null then a else a\<lparr>ac_acc := Acc_Deleted\<rparr>)
      in (a, if future_valid (ac_listen_done a)
             then (case future_wait_begin me (ac_listen_done a) time_max now1 now2 s of Inl f \<Rightarrow> Inl f | Inr r \<Rightarrow> Inr (Some r))
             else Inr None))"

section \<open>A result crosses threads\<close>

text \<open>
  The state after another thread has fulfilled the promise of a waiter of thread \<open>t\<close>: a task is at
  the head of the intake list of \<open>t\<close> that will call \<open>notify\<close> there.
\<close>

lemma foreign_delivery:
  assumes inv: "thread_inv t s rs bs" and w: "m_blocked_thread (s_proms s p) = Some t" and u: "u \<noteq> t"
    and err: "m_error (s_proms s p) = None"
  obtains s1 where "(case r of Inr v \<Rightarrow> set_value u p v s | Inl e \<Rightarrow> set_exception u p e s) = Inr s1"
    "thread_inv t s1 rs bs" "delivered r (s_proms s1 p)" "promise_ready (s_proms s1 p)" "s_ctxs s1 = s_ctxs s"
    "th_task_in_queue (s_thrs s1 t) = Some (s_next_task s)"
    "tk_kind (s_tasks s1 (s_next_task s)) = Vtask (Notify_Fun t p)" "\<not> tk_canceled (s_tasks s1 (s_next_task s))"
    "s_next_task s1 = Suc (s_next_task s)" "\<And>v. r = Inr v \<Longrightarrow> m_error (s_proms s1 p) = None"
    "s_next_ctx s1 = s_next_ctx s" "tk_next (s_tasks s1 (s_next_task s)) = th_task_in_queue (s_thrs s t)"
    "tk_when (s_tasks s1 (s_next_task s)) = time_min" "\<And>k. k < s_next_task s \<Longrightarrow> s_tasks s1 k = s_tasks s k"
    "s_thrs s1 = (s_thrs s)(t := (s_thrs s t)\<lparr>th_task_in_queue := Some (s_next_task s)\<rparr>)"
proof -
  let ?f = "\<lambda>_. (case r of Inr v \<Rightarrow> (s_proms s p)\<lparr>m_value := Some v\<rparr> | Inl e \<Rightarrow> (s_proms s p)\<lparr>m_error := Some e\<rparr>)"
  let ?s = "upd_prom p ?f s" let ?s1 = "async_void t (Notify_Fun t p) default_priority ?s"
  note F = async_void_frame [of t "Notify_Fun t p" default_priority ?s]
  have eq: "(case r of Inr v \<Rightarrow> set_value u p v s | Inl e \<Rightarrow> set_exception u p e s) = Inr ?s1"
    using err u w by (auto simp: set_value_def set_exception_def store_value_def store_exception_def
        promise_notify_def thread_notify_def upd_prom_def promise_ready_def split: sum.split)
  have pr: "s_proms ?s1 p = ?f ()" unfolding F(4) by (simp add: upd_prom_def)
  have "thread_inv t ?s rs bs" using inv by (subst thread_inv_upd_prom) (auto split: sum.split)
  moreover obtain q where "s_thrs ?s1 t = (s_thrs ?s t)\<lparr>th_task_in_queue := q\<rparr>" using F(5) by blast
  ultimately have "thread_inv t ?s1 rs bs" using F(1-4)
    by (simp add: thread_inv_def ready_list_def blocked_list_def)
  moreover have "delivered r (s_proms ?s1 p)" "promise_ready (s_proms ?s1 p)"
    unfolding pr by (auto simp: delivered_def promise_ready_def split: sum.split)
  moreover have "s_ctxs ?s1 = s_ctxs s" unfolding F(1) by (simp add: upd_prom_def)
  moreover have "m_error (s_proms ?s1 p) = None" if "r = Inr v" for v unfolding pr using that err by simp
  ultimately show thesis using that [of ?s1] eq
    by (simp add: async_void_def new_task_def make_task_def async_task_def upd_thread_def upd_prom_def Let_def)
qed

text \<open>The task that \<open>notify\<close> posts to the thread of the waiter wakes the waiter.\<close>

lemma notify_task_wakes:
  assumes inv: "thread_inv t s rs bs" and c: "c \<in> set bs" "c_prom (s_ctxs s c) = Some p"
    and rdy: "promise_ready (s_proms s p)" and k: "tk_kind (s_tasks s k) = Vtask (Notify_Fun t p)"
    "\<not> tk_canceled (s_tasks s k)" "k < s_next_task s"
  obtains s' as bs' where "run_one t res v0 k s = Inr s'" "bs = as @ c # bs'" "thread_inv t s' (c # rs) (as @ bs')"
    "s_proms s' = s_proms s" "c_canceled (s_ctxs s' c) = c_canceled (s_ctxs s c)" "s_next_ctx s' = s_next_ctx s"
    "\<exists>q h l b. s_thrs s' t = (s_thrs s t)\<lparr>th_sleep_pqueue := q, th_ready_head := h, th_ready_tail := l, th_blocked := b\<rparr>"
    "set (th_sleep_pqueue (s_thrs s' t)) \<subseteq> set (th_sleep_pqueue (s_thrs s t))"
    "\<And>w. w \<noteq> t \<Longrightarrow> s_thrs s' w = s_thrs s w"
proof -
  obtain as bs' where bs: "bs = as @ c # bs'" using c(1) by (auto simp: in_set_conv_decomp)
  let ?s = "upd_task k (set_active_context (th_current (s_thrs s t))) s"
  have inv1: "thread_inv t ?s rs bs" using inv by simp
  have same: "promise_ready (s_proms ?s p)" "c_prom (s_ctxs ?s c) = Some p" "s_proms ?s = s_proms s"
    "tk_kind (s_tasks ?s k) = Vtask (Notify_Fun t p)" "\<not> tk_canceled (s_tasks ?s k)" "s_ctxs ?s = s_ctxs s"
    using rdy c k by (simp_all add: upd_task_def set_active_context_def)
  obtain s2 where N: "thread_notify t t p ?s = Inr s2" "thread_inv t s2 (c # rs) (as @ bs')"
    "sched_frame t (owned t ?s rs bs) ?s s2" "s_proms s2 = s_proms ?s"
    "set (th_sleep_pqueue (s_thrs s2 t)) = set (th_sleep_pqueue (s_thrs ?s t)) - {c}"
    by (rule notify_waiter [OF inv1 same(1) bs same(2)]) (rule that; assumption)
  have "task_run t res v0 k ?s = Inr s2"
    using same(4,5) N(1) by (simp add: task_run_def call_functor_def vtask_run_def)
  moreover have tk: "s_tasks s2 = s_tasks ?s" and cc: "c_canceled (s_ctxs s2 c) = c_canceled (s_ctxs s c)"
    using N(3) same(6) by (simp_all add: sched_frame_def)
  moreover have "task_destroy k (upd_task k (set_active_context None) s2) = upd_task k (set_active_context None) s2"
    using same(4) tk by (simp add: task_destroy_def upd_task_def set_active_context_def)
  ultimately have "run_one t res v0 k s = Inr (upd_task k (set_active_context None) s2)"
    by (simp add: run_one_def)
  moreover have "thread_inv t (upd_task k (set_active_context None) s2) (c # rs) (as @ bs')" using N(2) by simp
  moreover have "s_next_ctx s2 = s_next_ctx s"
    "\<exists>q h l b. s_thrs s2 t = (s_thrs s t)\<lparr>th_sleep_pqueue := q, th_ready_head := h, th_ready_tail := l, th_blocked := b\<rparr>"
    using N(3) by (simp_all add: sched_frame_def) (simp_all add: upd_task_def)
  moreover have "s_thrs s2 w = s_thrs s w" if "w \<noteq> t" for w
    using N(3) that by (simp add: sched_frame_def) (simp add: upd_task_def)
  ultimately show thesis using that [OF _ bs] N(4,5) same(3) cc by (simp add: upd_task_def)
qed

section \<open>Properties\<close>

text \<open>
  How an asynchronous operation completes, one case for each of the four handlers, the call of the
  handler, and what the caller of the wrapper is to get: the number of bytes, the error code as a
  value (\<open>accept\<close>, \<open>connect\<close>), the endpoints in the order of the iterator, or the error as an exception.
\<close>

datatype completion = Rw_Done int nat | Code_Done int | Resolve_Done int "nat list" | Udp_Done int nat

fun io_handler :: "thid \<Rightarrow> pptr \<Rightarrow> completion \<Rightarrow> asio_value sys \<Rightarrow> fault + asio_value sys" where
  "io_handler u p (Rw_Done ec n) s = read_write_handler u p ec n s"
| "io_handler u p (Code_Done ec) s = error_handler u p ec s"
| "io_handler u p (Resolve_Done ec itr) s = resolve_handler u p ec itr s"
| "io_handler u p (Udp_Done ec n) s = udp_rw_handler u p ec n s"

fun io_result :: "completion \<Rightarrow> exn + asio_value" where
  "io_result (Rw_Done ec n) = (if ec = 0 then Inr (Size n) else Inl (System_Error ec))"
| "io_result (Code_Done ec) = Inr (Code ec)"
| "io_result (Resolve_Done ec eps) = (if ec = 0 then Inr (Endpoints eps) else Inl (System_Error ec))"
| "io_result (Udp_Done ec n) = (if ec = 0 then Inr (Size n) else Inl (System_Error ec))"

lemma collect_endpoints_append: "collect_endpoints itr eps = eps @ itr"
  by (induction itr arbitrary: eps) auto

lemma io_handler_delivers:
  "io_handler u p h s = (case io_result h of Inr v \<Rightarrow> set_value u p v s | Inl e \<Rightarrow> set_exception u p e s)"
  by (cases h) (simp_all add: read_write_handler_def error_handler_def resolve_handler_def udp_rw_handler_def
      collect_endpoints_append)

lemma wait_end_delivered:
  assumes "delivered r (s_proms s p)" and "\<And>v. r = Inr v \<Longrightarrow> m_error (s_proms s p) = None"
    and "\<not> c_canceled (s_ctxs s c)"
  shows "fst (promise_wait_end t c p s) = r"
  using assms by (cases r) (auto simp: wait_end_result wait_finish_def delivered_def split: option.splits)

text \<open>The way of a result from another thread to the waiter, for a value and for an exception.\<close>

lemma foreign_result_core:
  assumes "thread_inv t s rs bs" and "c \<in> set bs" and "c_prom (s_ctxs s c) = Some p"
    and "m_error (s_proms s p) = None" and "\<not> c_canceled (s_ctxs s c)" and "u \<noteq> t"
  shows "\<exists>s1 s2 bs'. (case r of Inr v \<Rightarrow> set_value u p v s | Inl e \<Rightarrow> set_exception u p e s) = Inr s1 \<and>
    th_task_in_queue (s_thrs s1 t) = Some (s_next_task s) \<and>
    run_one t res v0 (s_next_task s) s1 = Inr s2 \<and> thread_inv t s2 (c # rs) bs' \<and>
    fst (promise_wait_end t c p s2) = r"
proof -
  let ?k = "s_next_task s"
  have w: "m_blocked_thread (s_proms s p) = Some t" using thread_invD(8) [OF assms(1,2)] assms(3) by auto
  obtain s1 where h: "(case r of Inr v \<Rightarrow> set_value u p v s | Inl e \<Rightarrow> set_exception u p e s) = Inr s1"
    and D: "thread_inv t s1 rs bs" "delivered r (s_proms s1 p)" "promise_ready (s_proms s1 p)"
      "s_ctxs s1 = s_ctxs s" "th_task_in_queue (s_thrs s1 t) = Some ?k"
      "tk_kind (s_tasks s1 ?k) = Vtask (Notify_Fun t p)" "\<not> tk_canceled (s_tasks s1 ?k)"
      "s_next_task s1 = Suc ?k" "\<And>v. r = Inr v \<Longrightarrow> m_error (s_proms s1 p) = None"
    by (rule foreign_delivery [OF assms(1) w assms(6,4), of r]) (rule that; assumption)
  have c: "c_prom (s_ctxs s1 c) = Some p" "?k < s_next_task s1" using assms(3) D(4,8) by simp_all
  obtain s2 as bs' where N: "run_one t res v0 ?k s1 = Inr s2" "thread_inv t s2 (c # rs) (as @ bs')"
    "s_proms s2 = s_proms s1" "c_canceled (s_ctxs s2 c) = c_canceled (s_ctxs s1 c)"
    by (rule notify_task_wakes [OF D(1) assms(2) c(1) D(3,6,7) c(2), of res v0]) (rule that; assumption)
  have "fst (promise_wait_end t c p s2) = r"
    using D(2,9) N(3,4) D(4) assms(5) by (intro wait_end_delivered) auto
  with h D(5) N(1,2) show ?thesis by blast
qed

text \<open>
  C14.  The result of an asynchronous operation reaches the fiber that waits for it in another
  thread, whichever of the four handlers the operation was started with: the handler, called in the
  thread of the \<open>io_service\<close>, posts one task to the waiter's thread; when that task runs, the waiter is
  first in the ready queue, and its \<open>wait\<close> returns the number of bytes, the error code or the
  endpoints, or throws the error that the operation reported.  (The handlers that store the error
  code through a pointer are the subject of \<open>error_code_stored_too_late\<close>.)
\<close>

theorem io_result_reaches_waiter:
  assumes "thread_inv t s rs bs" and "c \<in> set bs" and "c_prom (s_ctxs s c) = Some p"
    and "m_error (s_proms s p) = None" and "\<not> c_canceled (s_ctxs s c)" and "u \<noteq> t"
  shows "\<exists>s1 s2 bs'. io_handler u p h s = Inr s1 \<and>
    th_task_in_queue (s_thrs s1 t) = Some (s_next_task s) \<and>
    run_one t res v0 (s_next_task s) s1 = Inr s2 \<and> thread_inv t s2 (c # rs) bs' \<and>
    fst (promise_wait_end t c p s2) = io_result h"
  using foreign_result_core [OF assms, of "io_result h" res v0] by (simp add: io_handler_delivers)

text \<open>Context 1 of thread 0 waits for promise 0; thread 1 is the thread of the \<open>io_service\<close>.\<close>

definition io_waiter :: "asio_value sys" where
  "io_waiter = (let s = snd (new_context True (snd (new_context False (snd (new_promise init_sys)))))
     in set_current 0 0 (park 0 1 ((make_context True)\<lparr>c_prom := Some 0\<rparr>) False True
          (upd_prom 0 (enqueue_thread 0) s)))"

lemma io_waiter_ok: "thread_inv 0 io_waiter [] [1]" "c_prom (s_ctxs io_waiter 1) = Some 0"
  "m_error (s_proms io_waiter 0) = None" "\<not> c_canceled (s_ctxs io_waiter 1)" "s_next_task io_waiter = 0"
  by (simp_all add: io_waiter_def thread_inv_def ready_list_def blocked_list_def is_heap_def init_sys_def
      new_promise_def new_context_def set_current_def upd_thread_def make_thread_def make_context_def
      make_promise_def upd_prom_def enqueue_thread_def on_thread_def park_def add_to_blocked_def Let_def)

theorem io_result_reaches_waiter_witness:
  "(\<exists>s1 s2 bs'. read_write_handler 1 0 0 512 io_waiter = Inr s1 \<and>
      run_one 0 (\<lambda>_. Inr (Code 0)) (Code 0) 0 s1 = Inr s2 \<and> thread_inv 0 s2 [1] bs' \<and>
      fst (promise_wait_end 0 1 0 s2) = Inr (Size 512)) \<and>
   (\<exists>s1 s2 bs'. resolve_handler 1 0 0 [4, 6] io_waiter = Inr s1 \<and>
      run_one 0 (\<lambda>_. Inr (Code 0)) (Code 0) 0 s1 = Inr s2 \<and> thread_inv 0 s2 [1] bs' \<and>
      fst (promise_wait_end 0 1 0 s2) = Inr (Endpoints [4, 6]))"
  using io_result_reaches_waiter [of 0 io_waiter "[]" "[1]" 1 0 1 "Rw_Done 0 512" "\<lambda>_. Inr (Code 0)" "Code 0"]
    io_result_reaches_waiter [of 0 io_waiter "[]" "[1]" 1 0 1 "Resolve_Done 0 [4, 6]" "\<lambda>_. Inr (Code 0)" "Code 0"] io_waiter_ok
  by auto

text \<open>
  C40.  \<open>read_write_handler_ec\<close> wakes the waiter before it stores the error code: between its two
  statements the waiter's thread can run the waiter, whose \<open>wait\<close> then returns the byte count of the
  failed operation while the caller's error code still says success.
\<close>

theorem error_code_stored_too_late:
  assumes "thread_inv t s rs bs" and "c \<in> set bs" and "c_prom (s_ctxs s c) = Some p"
    and "m_error (s_proms s p) = None" and "\<not> c_canceled (s_ctxs s c)" and "u \<noteq> t"
  shows "\<exists>s1 s2 bs'. read_write_handler_ec u p ec n (s, 0) = Inr ((s1, 0), (s1, ec)) \<and>
    run_one t res v0 (s_next_task s) s1 = Inr s2 \<and> thread_inv t s2 (c # rs) bs' \<and>
    fst (promise_wait_end t c p s2) = Inr (Size n)"
  using foreign_result_core [OF assms, of "Inr (Size n)" res v0] by (auto simp: read_write_handler_ec_def)

theorem error_code_stored_too_late_witness:
  "\<exists>s1 s2. read_write_handler_ec 1 0 104 0 (io_waiter, 0) = Inr ((s1, 0), (s1, 104)) \<and>
    run_one 0 (\<lambda>_. Inr (Code 0)) (Code 0) 0 s1 = Inr s2 \<and>
    fst (promise_wait_end 0 1 0 s2) = Inr (Size 0)"
  using error_code_stored_too_late [of 0 io_waiter "[]" "[1]" 1 0 1 104 0 "\<lambda>_. Inr (Code 0)" "Code 0"] io_waiter_ok
  by auto

text \<open>
  As long as its loop runs on a live acceptor, every accepted connection is handed to the
  handler, once and in the order of acceptance.
\<close>

lemma acceptor_hands_over_all:
  assumes "acceptor_listen (map (Pair Acc_Live) rs) [] = Inr (cs, None)"
  shows "map fst cs = List.map_filter (\<lambda>r. case r of Inr sock \<Rightarrow> Some sock | Inl _ \<Rightarrow> None) rs"
proof -
  have "acceptor_listen (map (Pair Acc_Live) rs) ds = Inr (cs, None) \<Longrightarrow>
    map fst cs = map fst ds @ List.map_filter (\<lambda>r. case r of Inr sock \<Rightarrow> Some sock | Inl _ \<Rightarrow> None) rs" for ds
  proof (induction rs arbitrary: ds rule: induct_list012)
    case (3 x y zs)
    show ?case
    proof (cases x)
      case (Inr sock)
      with "3.prems" "3.IH"(2) [of "ds @ [(sock, 0)]"] show ?thesis
        by (simp add: acceptor_accept_begin_def List.map_filter_simps)
    next
      case (Inl e)
      with "3.prems" obtain k sock where y: "e = System_Error k" "y = Inr sock"
        by (cases e; cases y) (auto simp: acceptor_accept_begin_def)
      with Inl "3.prems" "3.IH"(1) [of "ds @ [(sock, k)]"] show ?thesis
        by (simp add: acceptor_accept_begin_def List.map_filter_simps)
    qed
  qed (auto simp: acceptor_accept_begin_def List.map_filter_simps split: sum.splits exn.splits)
  from this [OF assms] show ?thesis by simp
qed

lemma acceptor_hands_over_all_example:
  "acceptor_listen (map (Pair Acc_Live) [Inr 1, Inl (System_Error 24), Inr 2]) [] = Inr ([(1, 0), (2, 24)], None) \<and>
   List.map_filter (\<lambda>r. case r of Inr sock \<Rightarrow> Some sock | Inl _ \<Rightarrow> None) [Inr 1, Inl (System_Error 24), Inr 2] = [1 :: nat, 2]"
proof -
  have r: "acceptor_listen (map (Pair Acc_Live) [Inr 1, Inl (System_Error 24), Inr 2]) [] = Inr ([(1, 0), (2, 24)], None)"
    by (simp add: acceptor_accept_begin_def)
  from acceptor_hands_over_all [OF r] r show ?thesis by simp
qed

text \<open>
  C36.  Destroying an acceptor that listens uses a deleted object: deleting the acceptor of \<open>boost::asio\<close>
  makes the pending \<open>accept\<close> throw a \<open>system_error\<close>, and the handler of the loop, for which the
  destructor waits, calls \<open>accept\<close> again through the pointer that was not reset.
\<close>

theorem acceptor_destroy_dangles:
  assumes "ac_acc a = Acc_Live"
  shows "acceptor_listen (map (\<lambda>sock. (Acc_Live, Inr sock)) socks @
      [(Acc_Live, Inl (System_Error aborted)), (ac_acc (fst (acceptor_destroy_begin me now1 now2 a s)), r)]) [] = Inl Dangling"
proof -
  have d: "ac_acc (fst (acceptor_destroy_begin me now1 now2 a s)) = Acc_Deleted"
    using assms by (simp add: acceptor_destroy_begin_def Let_def)
  have "acceptor_listen (map (\<lambda>sock. (Acc_Live, Inr sock)) socks @ [(Acc_Live, Inl (System_Error aborted)), (Acc_Deleted, r)]) cs = Inl Dangling" for cs
    by (induction socks arbitrary: cs) (simp_all add: acceptor_accept_begin_def)
  then show ?thesis unfolding d .
qed

theorem acceptor_destroy_dangles_witness:
  "acceptor_listen [(Acc_Live, Inr 4), (Acc_Live, Inl (System_Error 125)),
     (ac_acc (fst (acceptor_destroy_begin 0 1 2 (snd (acceptor_open None make_acceptor)) (init_sys :: nat sys))), Inr 5)] [] = Inl Dangling"
  using acceptor_destroy_dangles [of "snd (acceptor_open None make_acceptor)" "[4]" 125 0 1 2 "init_sys :: nat sys" "Inr 5"]
  by (simp add: acceptor_open_def make_acceptor_def)

text \<open>
  A resolver's entries arrive at the caller unchanged and in order, or its error is delivered
  as an exception.
\<close>

lemma resolve_delivers_entries:
  "resolve_handler me p ec itr s =
     (if ec = 0 then set_value me p (Endpoints itr) s else set_exception me p (System_Error ec) s)"
proof -
  have "collect_endpoints itr eps = eps @ itr" for eps by (rule collect_endpoints_append)
  then show ?thesis by (simp add: resolve_handler_def)
qed

end
