(* ===== verification/CMT_Roundtrip.thy ===== *)
theory CMT_Roundtrip
  imports CMT_Actor CMT_Asio
begin

text \<open>
  A call and its answer inside one thread, through all the layers: \<open>async\<close> posts a task to the
  calling thread, \<open>wait\<close> blocks the fiber and switches to a fresh one, which enters
  \<open>process_tasks\<close>, dequeues and runs the task, whose result wakes the caller; the loop then switches
  back and \<open>wait\<close> returns.
\<close>

section \<open>The stages\<close>

text \<open>A thread whose running fiber is its only one and that has nothing queued.\<close>

definition quiet :: "thid \<Rightarrow> cptr \<Rightarrow> 'v sys \<Rightarrow> bool" where
  "quiet t c s \<longleftrightarrow> thread_inv t s [] [] \<and> th_current (s_thrs s t) = Some c \<and> c < s_next_ctx s \<and>
     \<not> c_canceled (s_ctxs s c) \<and> \<not> th_done (s_thrs s t) \<and> th_task_in_queue (s_thrs s t) = None \<and>
     th_task_pqueue (s_thrs s t) = [] \<and> th_task_sch_queue (s_thrs s t) = [] \<and> th_sleep_pqueue (s_thrs s t) = []"

text \<open>Waiting without a timeout, with nothing else ready: a fresh context is entered.\<close>

lemma wait_enters_fresh_context:
  assumes inv: "thread_inv t s [] []" and cur: "th_current (s_thrs s t) = Some c" "c < s_next_ctx s"
    and q: "th_task_sch_queue (s_thrs s t) = []" "th_sleep_pqueue (s_thrs s t) = []"
    and p: "\<not> promise_ready (s_proms s p)" and now: "now1 \<le> time_max"
  obtains s' where "promise_wait_begin t p time_max now1 now2 s = Inr (Inl (Switched c), s')"
    "thread_inv t s' [] [c]" "c_prom (s_ctxs s' c) = Some p" "c_canceled (s_ctxs s' c) = c_canceled (s_ctxs s c)"
    "s_thrs s' t = (s_thrs s t)\<lparr>th_blocked := Some c, th_current := Some (s_next_ctx s)\<rparr>"
    "s_tasks s' = s_tasks s" "s_next_task s' = s_next_task s" "s_next_ctx s' = Suc (s_next_ctx s)"
    "s_proms s' = (s_proms s)(p := enqueue_thread t (s_proms s p))" "\<And>u. u \<noteq> t \<Longrightarrow> s_thrs s' u = s_thrs s u"
proof -
  have e: "th_ready_head (s_thrs s t) = None" "th_ready_tail (s_thrs s t) = None" "th_blocked (s_thrs s t) = None"
    using thread_invD(1,2) [OF inv] by (simp_all add: ready_list_def blocked_list_def)
  let ?c = "(s_ctxs s c)\<lparr>c_prom := Some p, c_next_blocked := None\<rparr>"
  let ?s = "s\<lparr>s_ctxs := (s_ctxs s)(c := ?c, s_next_ctx s := make_context True), s_next_ctx := Suc (s_next_ctx s),
      s_proms := (s_proms s)(p := enqueue_thread t (s_proms s p)),
      s_thrs := (s_thrs s)(t := (s_thrs s t)\<lparr>th_blocked := Some c, th_current := Some (s_next_ctx s)\<rparr>)\<rparr>"
  have "promise_wait_begin t p time_max now1 now2 s = Inr (Inl (Switched c), ?s)"
    using p e cur q now
    by (simp add: promise_wait_unready thread_wait_begin_def upd_prom_def promise_ready_def enqueue_thread_def
        ensure_current_def upd_ctx_def add_blocking_promise_def on_thread_def add_to_blocked_def
        start_next_task_begin_def check_for_timeouts_def ready_pop_front_def new_context_def set_current_def upd_thread_def)
  moreover have "thread_inv t ?s [] [c]" using inv cur q e
    by (simp add: thread_inv_def ready_list_def blocked_list_def enqueue_thread_def is_heap_def)
  ultimately show thesis using cur by (intro that [of ?s]) simp_all
qed

text \<open>The fresh context takes the one task there is.\<close>

lemma dequeue_only_task:
  assumes q: "th_task_in_queue (s_thrs s t) = Some k" "th_task_pqueue (s_thrs s t) = []" "th_task_sch_queue (s_thrs s t) = []"
    and k: "tk_next (s_tasks s k) = None" "tk_when (s_tasks s k) \<le> now1" "k < s_next_task s"
  shows "dequeue_sys t now1 now2 s = Inr (Some k, upd_thread t (\<lambda>tp. tp\<lparr>th_task_in_queue := None\<rparr>) s)"
proof -
  obtain n where n: "s_next_task s = Suc n" using k(3) by (cases "s_next_task s") auto
  have tp: "(s_thrs s t)\<lparr>th_task_in_queue := None, th_task_pqueue := []\<rparr> = (s_thrs s t)\<lparr>th_task_in_queue := None\<rparr>"
    using q(2) by (cases "s_thrs s t") simp
  show ?thesis using q k n
    by (simp add: dequeue_sys_def dequeue_def upd_thread_def push_heap_def sift_up.simps pop_heap_def Let_def tp)
qed

text \<open>
  The run of a task whose promise a fiber of the same thread waits for: the fiber becomes the first
  ready one and the promise holds the result.
\<close>

lemma run_one_wakes_waiter:
  assumes inv: "thread_inv t s rs (as @ c # bs)" and c: "c_prom (s_ctxs s c) = Some p"
    and k: "tk_kind (s_tasks s k) = Rtask (User_Fun f) p" "\<not> tk_canceled (s_tasks s k)"
    and e: "m_error (s_proms s p) = None"
  obtains s' where "run_one t res v0 k s = Inr s'" "thread_inv t s' (c # rs) (as @ bs)" "delivered (res f) (s_proms s' p)"
    "\<And>v. res f = Inr v \<Longrightarrow> m_error (s_proms s' p) = None" "s_next_ctx s' = s_next_ctx s"
    "c_canceled (s_ctxs s' c) = c_canceled (s_ctxs s c)" "s_next_task s' = s_next_task s"
    "\<exists>q h l b. s_thrs s' t = (s_thrs s t)\<lparr>th_sleep_pqueue := q, th_ready_head := h, th_ready_tail := l, th_blocked := b\<rparr>"
    "set (th_sleep_pqueue (s_thrs s' t)) \<subseteq> set (th_sleep_pqueue (s_thrs s t))"
proof -
  let ?s = "upd_task k (set_active_context (th_current (s_thrs s t))) s"
  have pr: "s_proms ?s = s_proms s" "s_ctxs ?s = s_ctxs s" "s_thrs ?s = s_thrs s" "s_next_ctx ?s = s_next_ctx s" "s_next_task ?s = s_next_task s"
    by (simp_all add: upd_task_def)
  have k1: "tk_kind (s_tasks ?s k) = Rtask (User_Fun f) p" "\<not> tk_canceled (s_tasks ?s k)"
    using k by (simp_all add: upd_task_def set_active_context_def)
  let ?f = "\<lambda>_. (case res f of Inr v \<Rightarrow> (s_proms s p)\<lparr>m_value := Some v\<rparr> | Inl x \<Rightarrow> (s_proms s p)\<lparr>m_error := Some x\<rparr>)"
  let ?p = "upd_prom p ?f ?s"
  have bt: "m_blocked_thread (s_proms s p) = Some t" using thread_invD(8) [OF inv, of c] c by auto
  have run: "task_run t res v0 k ?s = thread_notify t t p ?p"
    using k1 e bt by (auto simp: task_run_def call_functor_def rtask_run_def set_value_def set_exception_def store_value_def
        store_exception_def promise_notify_def promise_ready_def upd_prom_def upd_task_def Let_def split: sum.split)
  have inv1: "thread_inv t ?p rs (as @ c # bs)" using inv by (subst thread_inv_upd_prom) (auto simp: pr split: sum.split)
  have rdy: "promise_ready (s_proms ?p p)" by (simp add: upd_prom_def promise_ready_def split: sum.split)
  have c1: "c_prom (s_ctxs ?p c) = Some p" using c by (simp add: upd_prom_def upd_task_def)
  obtain s2 where N: "thread_notify t t p ?p = Inr s2" "thread_inv t s2 (c # rs) (as @ bs)"
    "sched_frame t (owned t ?p rs (as @ c # bs)) ?p s2" "s_proms s2 = s_proms ?p"
    "set (th_sleep_pqueue (s_thrs s2 t)) = set (th_sleep_pqueue (s_thrs ?p t)) - {c}"
    by (rule notify_waiter [OF inv1 rdy refl c1]) (rule that; assumption)
  have F: "s_tasks s2 = s_tasks ?s" "s_next_ctx s2 = s_next_ctx s" "s_next_task s2 = s_next_task s"
    "c_canceled (s_ctxs s2 c) = c_canceled (s_ctxs s c)"
    "\<exists>q h l b. s_thrs s2 t = (s_thrs s t)\<lparr>th_sleep_pqueue := q, th_ready_head := h, th_ready_tail := l, th_blocked := b\<rparr>"
    using N(3) by (simp_all add: sched_frame_def) (simp_all add: upd_prom_def upd_task_def)
  let ?e = "upd_prom p (set_task None) (upd_task k (set_active_context None) s2)"
  have "task_destroy k (upd_task k (set_active_context None) s2) = ?e"
    using k1(1) F(1) by (simp add: task_destroy_def upd_task_def set_active_context_def)
  then have go: "run_one t res v0 k s = Inr ?e" using run N(1) by (simp add: run_one_def)
  have pe: "s_proms ?e p = set_task None (?f ())" using N(4) by (simp add: upd_prom_def upd_task_def)
  show thesis
  proof (rule that [OF go])
    show "thread_inv t ?e (c # rs) (as @ bs)" using N(2) by (subst thread_inv_upd_prom) (simp_all add: set_task_def)
    show "delivered (res f) (s_proms ?e p)" unfolding pe by (simp add: delivered_def set_task_def split: sum.split)
    show "m_error (s_proms ?e p) = None" if "res f = Inr v" for v unfolding pe using that e by (simp add: set_task_def)
    have fe: "s_next_ctx ?e = s_next_ctx s2" "s_ctxs ?e = s_ctxs s2" "s_next_task ?e = s_next_task s2" "s_thrs ?e = s_thrs s2"
      by (simp_all add: upd_prom_def upd_task_def)
    have fp: "s_thrs ?p = s_thrs s" by (simp add: upd_prom_def upd_task_def)
    show "s_next_ctx ?e = s_next_ctx s" "c_canceled (s_ctxs ?e c) = c_canceled (s_ctxs s c)" "s_next_task ?e = s_next_task s"
      "\<exists>q h l b. s_thrs ?e t = (s_thrs s t)\<lparr>th_sleep_pqueue := q, th_ready_head := h, th_ready_tail := l, th_blocked := b\<rparr>"
      "set (th_sleep_pqueue (s_thrs ?e t)) \<subseteq> set (th_sleep_pqueue (s_thrs s t))"
      unfolding fe using F(2-5) N(5) [unfolded fp] by blast+
  qed
qed

section \<open>The way back\<close>

text \<open>A turn of the loop that finds nothing more to do hands over to the fiber that was woken.\<close>

lemma loop_switches_back:
  assumes run: "run_one t res v0 k s = Inr s1" and inv: "thread_inv t s1 [c] []" and d: "\<not> th_done (s_thrs s t)"
    and q: "th_task_in_queue (s_thrs s t) = None" "th_task_pqueue (s_thrs s t) = []" "th_task_sch_queue (s_thrs s t) = []"
      "th_sleep_pqueue (s_thrs s t) = []" "th_sleep_pqueue (s_thrs s1 t) = []"
    and eq: "\<exists>q h l b. s_thrs s1 t = (s_thrs s t)\<lparr>th_sleep_pqueue := q, th_ready_head := h, th_ready_tail := l, th_blocked := b\<rparr>"
    and cur: "th_current (s_thrs s t) = Some n" "n < s_next_ctx s1" "n \<noteq> c"
  obtains s2 where "pt_round [tr] t ta res v0 (Some k) s = Inr (PT_Switch time_max, s1)"
    "start_next_task_begin t True tb s1 = Inr (n, s2)" "th_current (s_thrs s2 t) = Some c" "s_proms s2 = s_proms s1"
    "c_canceled (s_ctxs s2 c) = c_canceled (s_ctxs s1 c)"
proof -
  obtain now2 now3 now4 where tr: "tr = (now2, now3, now4)" by (cases tr)
  have f: "th_task_in_queue (s_thrs s1 t) = None" "th_task_pqueue (s_thrs s1 t) = []" "th_task_sch_queue (s_thrs s1 t) = []"
    "th_current (s_thrs s1 t) = Some n" "\<not> th_done (s_thrs s1 t)" using eq q cur d by auto
  have h: "th_ready_head (s_thrs s1 t) = Some c" using thread_invD(1) [OF inv] by (simp add: ready_list_def)
  have tp: "(s_thrs s1 t)\<lparr>th_task_in_queue := None\<rparr> = s_thrs s1 t" using f(1) by (cases "s_thrs s1 t") simp
  have "dequeue_sys t now3 now4 s1 = Inr (None, s1)" using f q(5) by (simp add: dequeue_sys_def dequeue_def upd_thread_def tp)
  moreover have ct: "check_for_timeouts t x s1 = Inr (time_max, s1)" "check_for_timeouts t x s = Inr (time_max, s)" for x
    using f q by (simp_all add: check_for_timeouts_def)
  ultimately have "pt_round [tr] t ta res v0 (Some k) s = Inr (PT_Switch time_max, s1)"
    using run d f(5) h by (simp add: pt_round_def tr time_max_def time_min_def)
  moreover have e: "ensure_current t s1 = (n, s1)" using f(4) by (simp add: ensure_current_def)
  have nown: "[c] \<noteq> [] \<longrightarrow> hd [c] \<noteq> n" "True \<longrightarrow> n \<notin> owned t s1 [c] []" using cur(3) q(5) by (auto simp: owned_def)
  have cn: "c < s_next_ctx s1" using thread_invD(7) [OF inv, of c] by simp
  obtain s2 where "start_next_task_begin t True tb s1 = Inr (n, s2)" "switched t True n [c] [] (s_next_ctx s1) s2"
    "s_proms s2 = s_proms s1 \<and> s_next_prom s2 = s_next_prom s1"
    "\<And>d. d < s_next_ctx s1 \<Longrightarrow> c_prom (s_ctxs s2 d) = c_prom (s_ctxs s1 d) \<and>
         c_canceled (s_ctxs s2 d) = c_canceled (s_ctxs s1 d) \<and> c_resume_time (s_ctxs s2 d) = c_resume_time (s_ctxs s1 d)"
    by (rule switch_after_timeouts [OF ct(1) e inv cur(2) nown, of tb]) (rule that; assumption)
  ultimately show thesis using cn by (intro that [of s2]) (simp_all add: switched_def Let_def)
qed

text \<open>The call up to the moment at which the fresh context has the task in hand.\<close>

lemma call_reaches_loop:
  assumes q: "quiet t c s" and clk: "time_min \<le> now2" "now0 \<le> time_max"
    and a: "async_result t (User_Fun f) pr n s = (p, s1)"
  obtains s2 s3 where "promise_wait_begin t p time_max now0 now1 s1 = Inr (Inl (Switched c), s2)"
    "dequeue_sys t now2 now3 s2 = Inr (Some (s_next_task s), s3)" "thread_inv t s3 [] [c]" "c_prom (s_ctxs s3 c) = Some p"
    "tk_kind (s_tasks s3 (s_next_task s)) = Rtask (User_Fun f) p" "\<not> tk_canceled (s_tasks s3 (s_next_task s))"
    "m_error (s_proms s3 p) = None" "s_next_ctx s3 = Suc (s_next_ctx s)" "\<not> c_canceled (s_ctxs s3 c)"
    "s_thrs s3 t = (s_thrs s t)\<lparr>th_task_in_queue := None, th_blocked := Some c, th_current := Some (s_next_ctx s)\<rparr>"
proof -
  have Q: "thread_inv t s [] []" "th_current (s_thrs s t) = Some c" "c < s_next_ctx s" "\<not> c_canceled (s_ctxs s c)"
    "\<not> th_done (s_thrs s t)" "th_task_in_queue (s_thrs s t) = None" "th_task_pqueue (s_thrs s t) = []"
    "th_task_sch_queue (s_thrs s t) = []" "th_sleep_pqueue (s_thrs s t) = []" using q by (simp_all add: quiet_def)
  note A = async_result_effect [OF a]
  let ?k = "s_next_task s"
  have w: "tk_when (s_tasks s1 ?k) = time_min" using a
    by (auto simp: async_result_def new_promise_def new_task_def make_task_def async_task_def upd_thread_def upd_prom_def Let_def)
  have inv1: "thread_inv t s1 [] []" by (rule thread_inv_async_result [OF a Q(1)]) simp
  have c1: "th_current (s_thrs s1 t) = Some c" "c < s_next_ctx s1" "th_task_sch_queue (s_thrs s1 t) = []"
    "th_sleep_pqueue (s_thrs s1 t) = []" "\<not> promise_ready (s_proms s1 p)" using A Q by (simp_all add: promise_ready_def make_promise_def)
  obtain s2 where S2: "promise_wait_begin t p time_max now0 now1 s1 = Inr (Inl (Switched c), s2)"
    "thread_inv t s2 [] [c]" "c_prom (s_ctxs s2 c) = Some p" "c_canceled (s_ctxs s2 c) = c_canceled (s_ctxs s1 c)"
    "s_thrs s2 t = (s_thrs s1 t)\<lparr>th_blocked := Some c, th_current := Some (s_next_ctx s1)\<rparr>"
    "s_tasks s2 = s_tasks s1" "s_next_task s2 = s_next_task s1" "s_next_ctx s2 = Suc (s_next_ctx s1)"
    "s_proms s2 = (s_proms s1)(p := enqueue_thread t (s_proms s1 p))"
    by (rule wait_enters_fresh_context [OF inv1 c1 clk(2), of now1]) (rule that; assumption)
  let ?s3 = "upd_thread t (\<lambda>tp. tp\<lparr>th_task_in_queue := None\<rparr>) s2"
  have "dequeue_sys t now2 now3 s2 = Inr (Some ?k, ?s3)"
    by (rule dequeue_only_task) (use S2 A Q w clk in simp_all)
  moreover have "thread_inv t ?s3 [] [c]" using S2(2)
    by (simp add: upd_thread_def thread_inv_def ready_list_def blocked_list_def)
  ultimately show thesis using S2 A Q(4)
    by (intro that [OF S2(1), of ?s3]) (simp_all add: upd_thread_def enqueue_thread_def make_promise_def)
qed

text \<open>
  C3.  A call and its answer: when the only fiber of a thread posts a function to its own thread and
  waits for the future, the wait switches to a new fiber; that fiber takes the task out of the
  queue, and its round of \<open>process_tasks\<close> runs it and ends by switching back to the caller, whose
  \<open>wait\<close> returns the value of the function or throws the exception it threw.  The thread need not have
  called \<open>exec\<close>; the comment on \<open>thread::async\<close> says that the wait would then block for ever.
\<close>

theorem async_wait_roundtrip:
  assumes q: "quiet t c s" and clk: "time_min \<le> now2" "now0 \<le> time_max"
    and a: "async_result t (User_Fun f) pr n s = (p, s1)"
  shows "\<exists>k s2 s3 s4 s5. promise_wait_begin t p time_max now0 now1 s1 = Inr (Inl (Switched c), s2) \<and>
    dequeue_sys t now2 now3 s2 = Inr (Some k, s3) \<and>
    pt_round [now4] t now5 res v0 (Some k) s3 = Inr (PT_Switch time_max, s4) \<and>
    start_next_task_begin t True now6 s4 = Inr (s_next_ctx s, s5) \<and>
    th_current (s_thrs s5 t) = Some c \<and> fst (promise_wait_end t c p s5) = res f"
proof -
  let ?k = "s_next_task s"
  obtain s2 s3 where S: "promise_wait_begin t p time_max now0 now1 s1 = Inr (Inl (Switched c), s2)"
    "dequeue_sys t now2 now3 s2 = Inr (Some ?k, s3)" "thread_inv t s3 [] [c]" "c_prom (s_ctxs s3 c) = Some p"
    "tk_kind (s_tasks s3 ?k) = Rtask (User_Fun f) p" "\<not> tk_canceled (s_tasks s3 ?k)"
    "m_error (s_proms s3 p) = None" "s_next_ctx s3 = Suc (s_next_ctx s)" "\<not> c_canceled (s_ctxs s3 c)"
    "s_thrs s3 t = (s_thrs s t)\<lparr>th_task_in_queue := None, th_blocked := Some c, th_current := Some (s_next_ctx s)\<rparr>"
    by (rule call_reaches_loop [OF q clk a, of now1 now3]) (rule that; assumption)
  have inv3: "thread_inv t s3 [] ([] @ c # [])" using S(3) by simp
  obtain s4 where R: "run_one t res v0 ?k s3 = Inr s4" "thread_inv t s4 (c # []) ([] @ [])" "delivered (res f) (s_proms s4 p)"
    "\<And>v. res f = Inr v \<Longrightarrow> m_error (s_proms s4 p) = None" "s_next_ctx s4 = s_next_ctx s3"
    "c_canceled (s_ctxs s4 c) = c_canceled (s_ctxs s3 c)"
    "\<exists>q h l b. s_thrs s4 t = (s_thrs s3 t)\<lparr>th_sleep_pqueue := q, th_ready_head := h, th_ready_tail := l, th_blocked := b\<rparr>"
    "set (th_sleep_pqueue (s_thrs s4 t)) \<subseteq> set (th_sleep_pqueue (s_thrs s3 t))"
    by (rule run_one_wakes_waiter [OF inv3 S(4-7), of res v0]) (rule that; assumption)
  obtain s5 where B: "pt_round [now4] t now5 res v0 (Some ?k) s3 = Inr (PT_Switch time_max, s4)"
    "start_next_task_begin t True now6 s4 = Inr (s_next_ctx s, s5)" "th_current (s_thrs s5 t) = Some c" "s_proms s5 = s_proms s4"
    "c_canceled (s_ctxs s5 c) = c_canceled (s_ctxs s4 c)"
    by (rule loop_switches_back [OF R(1), where c = c and n = "s_next_ctx s" and tr = now4 and ta = now5 and tb = now6])
      (use R(2,5,7,8) q S(8,10) in \<open>simp_all add: quiet_def that\<close>)
  have "fst (promise_wait_end t c p s5) = res f"
    using R(3,4,6) S(9) B(4,5) by (intro wait_end_delivered) auto
  then show ?thesis using S(1,2) B(1-3) by blast
qed

text \<open>One fiber, context 0 of thread 0.\<close>

definition lone_fiber :: "nat sys" where
  "lone_fiber = set_current 0 0 (snd (new_context False init_sys))"

lemma lone_fiber_quiet: "quiet 0 0 lone_fiber" "s_next_ctx lone_fiber = 1"
  by (simp_all add: lone_fiber_def quiet_def new_context_def set_current_def upd_thread_def init_sys_def make_thread_def
      thread_inv_def ready_list_def blocked_list_def is_heap_def make_context_def)

theorem async_wait_roundtrip_witness:
  "\<exists>p s1 k s2 s3 s4 s5. async_result 0 (User_Fun 3) default_priority [] lone_fiber = (p, s1) \<and>
    promise_wait_begin 0 p time_max 10 10 s1 = Inr (Inl (Switched 0), s2) \<and>
    dequeue_sys 0 11 11 s2 = Inr (Some k, s3) \<and>
    pt_round [(12, 12, 12)] 0 11 (\<lambda>n. Inr (2 * n)) 0 (Some k) s3 = Inr (PT_Switch time_max, s4) \<and>
    start_next_task_begin 0 True 13 s4 = Inr (1, s5) \<and> fst (promise_wait_end 0 0 p s5) = Inr 6"
proof -
  obtain p s1 where a: "async_result 0 (User_Fun 3) default_priority [] lone_fiber = (p, s1)" by fastforce
  have "time_min \<le> 11" "10 \<le> time_max" by (simp_all add: time_min_def time_max_def)
  with async_wait_roundtrip [OF lone_fiber_quiet(1) _ _ a, of 11 10 10 11 "(12, 12, 12)" 11 "\<lambda>n. Inr (2 * n)" 0 13] a
  show ?thesis by (fastforce simp: lone_fiber_quiet(2))
qed

end
