(* ===== verification/CMT_Crossing.thy ===== *)
theory CMT_Crossing
  imports CMT_Roundtrip
begin

text \<open>
  A call and its answer between two threads: the caller's fiber waits, its thread goes to sleep on
  the condition variable, the other thread fulfils the promise and posts a task back, and the
  round of \<open>process_tasks\<close> that takes this task switches to the caller.
\<close>

section \<open>The stages\<close>

text \<open>
  The round of a fiber that has no task in hand and no other fiber to switch to: it comes to the
  condition variable, where it looks for a task once more and sleeps when there is none.
\<close>

lemma idle_round_blocks:
  assumes "th_task_sch_queue (s_thrs s t) = []" "th_sleep_pqueue (s_thrs s t) = []" "th_ready_head (s_thrs s t) = None" "\<not> th_done (s_thrs s t)"
  shows "pt_round [] t now res v0 None s = Inr (PT_Block time_max, s)"
  using assms by (simp add: pt_round_def check_for_timeouts_def time_max_def time_min_def)

lemma idle_wait_sleeps:
  assumes "th_task_in_queue (s_thrs s t) = None" "th_task_pqueue (s_thrs s t) = []" "th_task_sch_queue (s_thrs s t) = []"
  shows "pt_wait t tmo now1 now2 s = Inr (Inl tmo, s)"
proof -
  have tp: "(s_thrs s t)\<lparr>th_task_in_queue := None\<rparr> = s_thrs s t" using assms(1) by (cases "s_thrs s t") simp
  have "dequeue_sys t now1 now2 s = Inr (None, s)" using assms by (simp add: dequeue_sys_def dequeue_def upd_thread_def tp)
  then show ?thesis by (simp add: pt_wait_def)
qed

text \<open>The promise \<open>p\<close> has its result, and the task \<open>k\<close> that will wake its waiter is in thread \<open>me\<close>.\<close>

definition answered :: "thid \<Rightarrow> pptr \<Rightarrow> exn + 'v \<Rightarrow> tptr \<Rightarrow> 'v sys \<Rightarrow> bool" where
  "answered me p r k s \<longleftrightarrow> delivered r (s_proms s p) \<and> promise_ready (s_proms s p) \<and>
     (isl r \<or> m_error (s_proms s p) = None) \<and> tk_kind (s_tasks s k) = Vtask (Notify_Fun me p) \<and>
     \<not> tk_canceled (s_tasks s k) \<and> tk_next (s_tasks s k) = None \<and> tk_when (s_tasks s k) = time_min \<and> k < s_next_task s"

text \<open>A result that another thread stores for a waiter of \<open>me\<close>, whose intake list is empty.\<close>

lemma foreign_answer:
  assumes inv: "thread_inv me s rs bs" and w: "m_blocked_thread (s_proms s p) = Some me" and u: "t \<noteq> me"
    and e: "m_error (s_proms s p) = None" and q: "th_task_in_queue (s_thrs s me) = None"
  obtains s' where "(case r of Inr v \<Rightarrow> set_value t p v s | Inl x \<Rightarrow> set_exception t p x s) = Inr s'"
    "answered me p r (s_next_task s) s'" "thread_inv me s' rs bs" "s_ctxs s' = s_ctxs s" "s_next_ctx s' = s_next_ctx s"
    "s_thrs s' = (s_thrs s)(me := (s_thrs s me)\<lparr>th_task_in_queue := Some (s_next_task s)\<rparr>)"
    "\<And>k. k < s_next_task s \<Longrightarrow> s_tasks s' k = s_tasks s k"
proof -
  let ?k = "s_next_task s"
  obtain s1 where D: "(case r of Inr v \<Rightarrow> set_value t p v s | Inl x \<Rightarrow> set_exception t p x s) = Inr s1"
    "thread_inv me s1 rs bs" "delivered r (s_proms s1 p)" "promise_ready (s_proms s1 p)" "s_ctxs s1 = s_ctxs s"
    "tk_kind (s_tasks s1 ?k) = Vtask (Notify_Fun me p)" "\<not> tk_canceled (s_tasks s1 ?k)" "s_next_task s1 = Suc ?k"
    "\<And>v. r = Inr v \<Longrightarrow> m_error (s_proms s1 p) = None" "s_next_ctx s1 = s_next_ctx s"
    "tk_next (s_tasks s1 ?k) = th_task_in_queue (s_thrs s me)" "tk_when (s_tasks s1 ?k) = time_min"
    "\<And>k. k < ?k \<Longrightarrow> s_tasks s1 k = s_tasks s k"
    "s_thrs s1 = (s_thrs s)(me := (s_thrs s me)\<lparr>th_task_in_queue := Some ?k\<rparr>)"
    by (rule foreign_delivery [OF inv w u e, of r]) (rule that; assumption)
  have "isl r \<or> m_error (s_proms s1 p) = None" using D(9) by (cases r) auto
  then have "answered me p r ?k s1" using D(3,4,6-8,11,12) q by (simp add: answered_def)
  then show thesis using that [OF D(1) _ D(2,5,10,14,13)] by blast
qed

text \<open>
  A task of thread \<open>t\<close> that fulfils a promise for which thread \<open>me\<close> waits: its run posts one task to
  \<open>me\<close> and touches nothing else there.
\<close>

lemma run_one_posts_answer:
  assumes inv: "thread_inv me s rs bs" and w: "m_blocked_thread (s_proms s p) = Some me" and u: "t \<noteq> me"
    and k: "tk_kind (s_tasks s k) = Rtask (User_Fun f) p" "\<not> tk_canceled (s_tasks s k)" "k < s_next_task s"
    and e: "m_error (s_proms s p) = None" and q: "th_task_in_queue (s_thrs s me) = None"
  obtains s' where "run_one t res v0 k s = Inr s'" "answered me p (res f) (s_next_task s) s'"
    "thread_inv me s' rs bs" "s_ctxs s' = s_ctxs s" "s_next_ctx s' = s_next_ctx s"
    "s_thrs s' me = (s_thrs s me)\<lparr>th_task_in_queue := Some (s_next_task s)\<rparr>"
proof -
  let ?s = "upd_task k (set_active_context (th_current (s_thrs s t))) s"
  have pr: "s_proms ?s = s_proms s" "s_ctxs ?s = s_ctxs s" "s_thrs ?s = s_thrs s" "s_next_ctx ?s = s_next_ctx s" "s_next_task ?s = s_next_task s"
    by (simp_all add: upd_task_def)
  have k1: "tk_kind (s_tasks ?s k) = Rtask (User_Fun f) p" "\<not> tk_canceled (s_tasks ?s k)"
    using k by (simp_all add: upd_task_def set_active_context_def)
  have inv1: "thread_inv me ?s rs bs" using inv by simp
  obtain s1 where S: "(case res f of Inr v \<Rightarrow> set_value t p v ?s | Inl x \<Rightarrow> set_exception t p x ?s) = Inr s1"
    "answered me p (res f) (s_next_task ?s) s1" "thread_inv me s1 rs bs" "s_ctxs s1 = s_ctxs ?s" "s_next_ctx s1 = s_next_ctx ?s"
    "s_thrs s1 = (s_thrs ?s)(me := (s_thrs ?s me)\<lparr>th_task_in_queue := Some (s_next_task ?s)\<rparr>)"
    "\<And>k. k < s_next_task ?s \<Longrightarrow> s_tasks s1 k = s_tasks ?s k"
    by (rule foreign_answer [of me ?s rs bs p t "res f"]) (use inv1 w u e q in \<open>simp_all add: pr that\<close>)
  have run: "task_run t res v0 k ?s = Inr s1"
    using k1 S(1) by (auto simp: task_run_def call_functor_def rtask_run_def split: sum.splits)
  let ?e = "upd_prom p (set_task None) (upd_task k (set_active_context None) s1)"
  have "tk_kind (s_tasks s1 k) = Rtask (User_Fun f) p" using S(7) [of k] k(3) k1 pr by simp
  then have "task_destroy k (upd_task k (set_active_context None) s1) = ?e"
    by (simp add: task_destroy_def upd_task_def set_active_context_def)
  then have "run_one t res v0 k s = Inr ?e" using run by (simp add: run_one_def)
  moreover have "answered me p (res f) (s_next_task s) ?e" using S(2) k(3) pr(5)
    by (simp add: answered_def delivered_def promise_ready_def set_task_def upd_prom_def upd_task_def split: sum.splits)
  moreover have "thread_inv me ?e rs bs" using S(3) by (subst thread_inv_upd_prom) (simp_all add: set_task_def)
  ultimately show thesis using S(4-6) pr by (intro that [of ?e]) (simp_all add: upd_prom_def upd_task_def)
qed

text \<open>
  The answer is taken: the waiter's thread, notified, goes round once without a task in hand, finds
  the answer, runs it and switches back to the waiter.
\<close>

lemma answer_switches_back:
  assumes inv: "thread_inv me s [] [c]" and c: "c_prom (s_ctxs s c) = Some p" "\<not> c_canceled (s_ctxs s c)"
    and a: "answered me p r k s" and d: "\<not> th_done (s_thrs s me)" and now: "time_min \<le> now1"
    and q: "th_task_in_queue (s_thrs s me) = Some k" "th_task_pqueue (s_thrs s me) = []" "th_task_sch_queue (s_thrs s me) = []"
      "th_sleep_pqueue (s_thrs s me) = []"
    and n: "th_current (s_thrs s me) = Some n" "n < s_next_ctx s" "n \<noteq> c"
  obtains s1 s2 s3 where "pt_round [] me now0 res v0 None s = Inr (PT_Block time_max, s)"
    "pt_wait me time_max now1 now2 s = Inr (Inr k, s1)"
    "pt_round [now3] me now4 res v0 (Some k) s1 = Inr (PT_Switch time_max, s2)"
    "start_next_task_begin me True now5 s2 = Inr (n, s3)" "th_current (s_thrs s3 me) = Some c"
    "fst (promise_wait_end me c p s3) = r" "\<And>u. u \<noteq> me \<Longrightarrow> s_thrs s3 u = s_thrs s u"
proof -
  note A = a [unfolded answered_def]
  let ?s1 = "upd_thread me (\<lambda>tp. tp\<lparr>th_task_in_queue := None\<rparr>) s"
  have dq: "dequeue_sys me now1 now2 s = Inr (Some k, ?s1)" by (rule dequeue_only_task) (use q A now in simp_all)
  have inv1: "thread_inv me ?s1 [] [c]" using inv by (simp add: upd_thread_def thread_inv_def ready_list_def blocked_list_def)
  have same: "s_ctxs ?s1 = s_ctxs s" "s_proms ?s1 = s_proms s" "s_tasks ?s1 = s_tasks s" "s_next_ctx ?s1 = s_next_ctx s"
    "s_next_task ?s1 = s_next_task s" "s_thrs ?s1 me = (s_thrs s me)\<lparr>th_task_in_queue := None\<rparr>" by (simp_all add: upd_thread_def)
  obtain s2 as bs' where N: "run_one me res v0 k ?s1 = Inr s2" "[c] = as @ c # bs'" "thread_inv me s2 (c # []) (as @ bs')"
    "s_proms s2 = s_proms ?s1" "c_canceled (s_ctxs s2 c) = c_canceled (s_ctxs ?s1 c)" "s_next_ctx s2 = s_next_ctx ?s1"
    "\<exists>q h l b. s_thrs s2 me = (s_thrs ?s1 me)\<lparr>th_sleep_pqueue := q, th_ready_head := h, th_ready_tail := l, th_blocked := b\<rparr>"
    "set (th_sleep_pqueue (s_thrs s2 me)) \<subseteq> set (th_sleep_pqueue (s_thrs ?s1 me))"
    "\<And>u. u \<noteq> me \<Longrightarrow> s_thrs s2 u = s_thrs ?s1 u"
    by (rule notify_task_wakes [OF inv1, of c p k res v0]) (use c A same in \<open>simp_all add: that\<close>)
  have inv2: "thread_inv me s2 [c] []" using N(2,3) by (cases as) auto
  obtain s3 where B: "pt_round [now3] me now4 res v0 (Some k) ?s1 = Inr (PT_Switch time_max, s2)"
    "start_next_task_begin me True now5 s2 = Inr (n, s3)" "th_current (s_thrs s3 me) = Some c" "s_proms s3 = s_proms s2"
    "c_canceled (s_ctxs s3 c) = c_canceled (s_ctxs s2 c)"
    by (rule loop_switches_back [OF N(1) inv2, where n = n and tr = now3 and ta = now4 and tb = now5])
      (use N(6-8) q n d same in \<open>simp_all add: that\<close>)
  have "fst (promise_wait_end me c p s3) = r"
    using A B(4,5) N(4,5) same c(2) by (intro wait_end_delivered) auto
  moreover have "th_ready_head (s_thrs s me) = None" using thread_invD(1) [OF inv] by (simp add: ready_list_def)
  then have "pt_round [] me now0 res v0 None s = Inr (PT_Block time_max, s)" using q d by (simp add: idle_round_blocks)
  moreover have "pt_wait me time_max now1 now2 s = Inr (Inr k, ?s1)" using dq by (simp add: pt_wait_def)
  moreover have "s_thrs s3 u = s_thrs s u" if "u \<noteq> me" for u
  proof -
    have "th_sleep_pqueue (s_thrs s2 me) = []" using N(8) q(4) same(6) by simp
    from switch_other_threads [OF this B(2) that] N(9) [OF that] that show ?thesis by (simp add: upd_thread_def)
  qed
  ultimately show thesis using that B(1-3) by blast
qed

section \<open>A method of an actor of another thread\<close>

text \<open>A thread with no task queued.\<close>

definition no_tasks :: "thid \<Rightarrow> 'v sys \<Rightarrow> bool" where
  "no_tasks t s \<longleftrightarrow> th_task_in_queue (s_thrs s t) = None \<and> th_task_pqueue (s_thrs s t) = [] \<and> th_task_sch_queue (s_thrs s t) = []"

text \<open>The only fiber of a thread waits: its thread falls asleep on the condition variable.\<close>

lemma caller_sleeps:
  assumes q: "quiet me c s" and p: "\<not> promise_ready (s_proms s p)" and now: "now0 \<le> time_max"
  obtains s' where "promise_wait_begin me p time_max now0 now1 s = Inr (Inl (Switched c), s')"
    "pt_round [] me now2 res v0 None s' = Inr (PT_Block time_max, s')"
    "pt_wait me time_max now3 now4 s' = Inr (Inl time_max, s')"
    "thread_inv me s' [] [c]" "c_prom (s_ctxs s' c) = Some p" "\<not> c_canceled (s_ctxs s' c)"
    "s_thrs s' = (s_thrs s)(me := (s_thrs s me)\<lparr>th_blocked := Some c, th_current := Some (s_next_ctx s)\<rparr>)"
    "s_tasks s' = s_tasks s" "s_next_task s' = s_next_task s" "s_next_ctx s' = Suc (s_next_ctx s)"
    "s_proms s' = (s_proms s)(p := enqueue_thread me (s_proms s p))"
proof -
  have Q: "thread_inv me s [] []" "th_current (s_thrs s me) = Some c" "c < s_next_ctx s" "\<not> c_canceled (s_ctxs s c)"
    "\<not> th_done (s_thrs s me)" "th_task_in_queue (s_thrs s me) = None" "th_task_pqueue (s_thrs s me) = []"
    "th_task_sch_queue (s_thrs s me) = []" "th_sleep_pqueue (s_thrs s me) = []" using q by (simp_all add: quiet_def)
  obtain s' where S: "promise_wait_begin me p time_max now0 now1 s = Inr (Inl (Switched c), s')"
    "thread_inv me s' [] [c]" "c_prom (s_ctxs s' c) = Some p" "c_canceled (s_ctxs s' c) = c_canceled (s_ctxs s c)"
    "s_thrs s' me = (s_thrs s me)\<lparr>th_blocked := Some c, th_current := Some (s_next_ctx s)\<rparr>"
    "s_tasks s' = s_tasks s" "s_next_task s' = s_next_task s" "s_next_ctx s' = Suc (s_next_ctx s)"
    "s_proms s' = (s_proms s)(p := enqueue_thread me (s_proms s p))" "\<And>u. u \<noteq> me \<Longrightarrow> s_thrs s' u = s_thrs s u"
    by (rule wait_enters_fresh_context [OF Q(1-3,8,9) p now, of now1]) (rule that; assumption)
  have "th_ready_head (s_thrs s' me) = None" using thread_invD(1) [OF S(2)] by (simp add: ready_list_def)
  then have "pt_round [] me now2 res v0 None s' = Inr (PT_Block time_max, s')" "pt_wait me time_max now3 now4 s' = Inr (Inl time_max, s')"
    using Q S(5) by (simp_all add: idle_round_blocks idle_wait_sleeps)
  moreover have "s_thrs s' = (s_thrs s)(me := (s_thrs s me)\<lparr>th_blocked := Some c, th_current := Some (s_next_ctx s)\<rparr>)"
    using S(5,10) by (simp add: fun_eq_iff)
  ultimately show thesis using that [OF S(1)] S(2-9) Q(4) by simp
qed

text \<open>A call posted to another thread, and the caller asleep.\<close>

lemma posted_call_sleeps:
  assumes q: "quiet me c s" and t: "me \<noteq> t" and A: "async_result t (User_Fun f) pr n s = (p, s1)" and clk: "now0 \<le> time_max"
  obtains s2 where "promise_wait_begin me p time_max now0 now1 s1 = Inr (Inl (Switched c), s2)"
    "pt_round [] me now2 res v0 None s2 = Inr (PT_Block time_max, s2)" "pt_wait me time_max now3 now4 s2 = Inr (Inl time_max, s2)"
    "thread_inv me s2 [] [c]" "c_prom (s_ctxs s2 c) = Some p" "\<not> c_canceled (s_ctxs s2 c)"
    "s_thrs s2 me = (s_thrs s me)\<lparr>th_blocked := Some c, th_current := Some (s_next_ctx s)\<rparr>"
    "s_thrs s2 t = (s_thrs s t)\<lparr>th_task_in_queue := Some (s_next_task s)\<rparr>" "s_tasks s2 = s_tasks s1"
    "s_next_task s2 = Suc (s_next_task s)" "s_next_ctx s2 = Suc (s_next_ctx s)"
    "m_blocked_thread (s_proms s2 p) = Some me" "m_error (s_proms s2 p) = None"
proof -
  note F = async_result_effect [OF A]
  have p: "\<not> promise_ready (s_proms s1 p)" "m_error (s_proms s1 p) = None" using F(12) by (simp_all add: promise_ready_def make_promise_def)
  have inv1: "thread_inv me s1 [] []" using q by (intro thread_inv_async_result [OF A]) (simp_all add: quiet_def)
  have q1: "quiet me c s1" using q inv1 F(2,3) F(6) [OF t] by (simp add: quiet_def)
  obtain s2 where S: "promise_wait_begin me p time_max now0 now1 s1 = Inr (Inl (Switched c), s2)"
    "pt_round [] me now2 res v0 None s2 = Inr (PT_Block time_max, s2)" "pt_wait me time_max now3 now4 s2 = Inr (Inl time_max, s2)"
    "thread_inv me s2 [] [c]" "c_prom (s_ctxs s2 c) = Some p" "\<not> c_canceled (s_ctxs s2 c)"
    "s_thrs s2 = (s_thrs s1)(me := (s_thrs s1 me)\<lparr>th_blocked := Some c, th_current := Some (s_next_ctx s1)\<rparr>)"
    "s_tasks s2 = s_tasks s1" "s_next_task s2 = s_next_task s1" "s_next_ctx s2 = Suc (s_next_ctx s1)"
    "s_proms s2 = (s_proms s1)(p := enqueue_thread me (s_proms s1 p))"
    by (rule caller_sleeps [OF q1 p(1) clk]) (rule that; assumption)
  show thesis using that [OF S(1-6)] S(7-11) F(3,4,7) F(6) [OF t] p(2) t by (simp add: enqueue_thread_def)
qed

text \<open>The other thread takes the one task it has, and its run posts the answer.\<close>

lemma other_thread_answers:
  assumes inv: "thread_inv me s rs bs" and t: "t \<noteq> me" and p: "m_blocked_thread (s_proms s p) = Some me" "m_error (s_proms s p) = None"
    and q: "th_task_in_queue (s_thrs s t) = Some k" "th_task_pqueue (s_thrs s t) = []" "th_task_sch_queue (s_thrs s t) = []"
      "th_task_in_queue (s_thrs s me) = None"
    and k: "tk_kind (s_tasks s k) = Rtask (User_Fun f) p" "\<not> tk_canceled (s_tasks s k)" "tk_next (s_tasks s k) = None"
      "tk_when (s_tasks s k) \<le> now1" "k < s_next_task s"
  obtains s1 s2 where "dequeue_sys t now1 now2 s = Inr (Some k, s1)" "run_one t res v0 k s1 = Inr s2"
    "answered me p (res f) (s_next_task s) s2" "thread_inv me s2 rs bs" "s_ctxs s2 = s_ctxs s" "s_next_ctx s2 = s_next_ctx s"
    "s_thrs s2 me = (s_thrs s me)\<lparr>th_task_in_queue := Some (s_next_task s)\<rparr>"
proof -
  let ?s = "upd_thread t (\<lambda>tp. tp\<lparr>th_task_in_queue := None\<rparr>) s"
  have dq: "dequeue_sys t now1 now2 s = Inr (Some k, ?s)" by (rule dequeue_only_task) (use q k in simp_all)
  have inv1: "thread_inv me ?s rs bs" using inv t by (simp add: upd_thread_def thread_inv_def ready_list_def blocked_list_def)
  have same: "s_ctxs ?s = s_ctxs s" "s_proms ?s = s_proms s" "s_tasks ?s = s_tasks s" "s_next_ctx ?s = s_next_ctx s"
    "s_next_task ?s = s_next_task s" "s_thrs ?s me = s_thrs s me" using t by (simp_all add: upd_thread_def)
  obtain s2 where R: "run_one t res v0 k ?s = Inr s2" "answered me p (res f) (s_next_task ?s) s2" "thread_inv me s2 rs bs"
    "s_ctxs s2 = s_ctxs ?s" "s_next_ctx s2 = s_next_ctx ?s" "s_thrs s2 me = (s_thrs ?s me)\<lparr>th_task_in_queue := Some (s_next_task ?s)\<rparr>"
    by (rule run_one_posts_answer [OF inv1 _ t, of p k f res v0]) (use p q k same in \<open>simp_all add: that\<close>)
  show thesis using that [OF dq R(1)] R(2-6) same by simp
qed

text \<open>A posted call from the wait to its return.\<close>

lemma posted_call_roundtrip:
  assumes q: "quiet me c s" and t: "me \<noteq> t" "no_tasks t s" and A: "async_result t (User_Fun f) pr n s = (p, s1)"
    and clk: "now0 \<le> time_max" "time_min \<le> now5" "time_min \<le> now7"
  shows "\<exists>k k' s2 s3 s4 s5 s6 s7. promise_wait_begin me p time_max now0 now1 s1 = Inr (Inl (Switched c), s2) \<and>
    pt_round [] me now2 res v0 None s2 = Inr (PT_Block time_max, s2) \<and> pt_wait me time_max now3 now4 s2 = Inr (Inl time_max, s2) \<and>
    dequeue_sys t now5 now6 s2 = Inr (Some k, s3) \<and> run_one t res v0 k s3 = Inr s4 \<and>
    pt_round [] me now12 res v0 None s4 = Inr (PT_Block time_max, s4) \<and> pt_wait me time_max now7 now8 s4 = Inr (Inr k', s5) \<and>
    pt_round [now9] me now10 res v0 (Some k') s5 = Inr (PT_Switch time_max, s6) \<and>
    start_next_task_begin me True now11 s6 = Inr (s_next_ctx s, s7) \<and> th_current (s_thrs s7 me) = Some c \<and>
    fst (promise_wait_end me c p s7) = res f"
proof -
  note F = async_result_effect [OF A]
  have w: "tk_when (s_tasks s1 (s_next_task s)) = time_min" using A
    by (auto simp: async_result_def new_promise_def new_task_def make_task_def async_task_def upd_thread_def upd_prom_def Let_def)
  obtain s2 where S: "promise_wait_begin me p time_max now0 now1 s1 = Inr (Inl (Switched c), s2)"
    "pt_round [] me now2 res v0 None s2 = Inr (PT_Block time_max, s2)" "pt_wait me time_max now3 now4 s2 = Inr (Inl time_max, s2)"
    "thread_inv me s2 [] [c]" "c_prom (s_ctxs s2 c) = Some p" "\<not> c_canceled (s_ctxs s2 c)"
    "s_thrs s2 me = (s_thrs s me)\<lparr>th_blocked := Some c, th_current := Some (s_next_ctx s)\<rparr>"
    "s_thrs s2 t = (s_thrs s t)\<lparr>th_task_in_queue := Some (s_next_task s)\<rparr>" "s_tasks s2 = s_tasks s1"
    "s_next_task s2 = Suc (s_next_task s)" "s_next_ctx s2 = Suc (s_next_ctx s)"
    "m_blocked_thread (s_proms s2 p) = Some me" "m_error (s_proms s2 p) = None"
    by (rule posted_call_sleeps [OF q t(1) A clk(1)]) (rule that; assumption)
  obtain s3 s4 where R: "dequeue_sys t now5 now6 s2 = Inr (Some (s_next_task s), s3)" "run_one t res v0 (s_next_task s) s3 = Inr s4"
    "answered me p (res f) (s_next_task s2) s4" "thread_inv me s4 [] [c]" "s_ctxs s4 = s_ctxs s2" "s_next_ctx s4 = s_next_ctx s2"
    "s_thrs s4 me = (s_thrs s2 me)\<lparr>th_task_in_queue := Some (s_next_task s2)\<rparr>"
    by (rule other_thread_answers [OF S(4) t(1) [symmetric] S(12,13), of "s_next_task s" f now5 now6 res v0])
      (use q t(2) F S w clk(2) in \<open>simp_all add: quiet_def no_tasks_def that\<close>)
  obtain s5 s6 s7 where B: "pt_round [] me now12 res v0 None s4 = Inr (PT_Block time_max, s4)"
    "pt_wait me time_max now7 now8 s4 = Inr (Inr (s_next_task s2), s5)"
    "pt_round [now9] me now10 res v0 (Some (s_next_task s2)) s5 = Inr (PT_Switch time_max, s6)"
    "start_next_task_begin me True now11 s6 = Inr (s_next_ctx s, s7)" "th_current (s_thrs s7 me) = Some c"
    "fst (promise_wait_end me c p s7) = res f"
    by (rule answer_switches_back [OF R(4) _ _ R(3), of now7 "s_next_ctx s" now12 res v0 now8 now9 now10 now11])
      (use R(5-7) S(5-7,11) q clk(3) in \<open>simp_all add: quiet_def that\<close>)
  from S(1-3) R(1,2) B show ?thesis by blast
qed

text \<open>
  \<open>thread::sync\<close> is \<open>async\<close> followed by \<open>wait\<close>, so it returns what the function returned on the other
  thread.
\<close>

lemma thread_sync_is_async_wait:
  "thread_sync_begin me t f pr us n now0 now1 now2 s =
     (let (p, s1) = async_result t f pr n s in (p, promise_wait_begin me p (timeout_point us now0) now1 now2 s1))"
  by (simp add: thread_sync_begin_def async_result_def Let_def split: prod.split)

lemma thread_sync_roundtrip:
  assumes q: "quiet me c s" and t: "me \<noteq> t" "no_tasks t s" and us: "timeout_point us now = time_max"
    and clk: "now0 \<le> time_max" "time_min \<le> now5" "time_min \<le> now7"
  shows "\<exists>p k k' s2 s3 s4 s5 s6 s7. thread_sync_begin me t (User_Fun f) pr us n now now0 now1 s = (p, Inr (Inl (Switched c), s2)) \<and>
    dequeue_sys t now5 now6 s2 = Inr (Some k, s3) \<and> run_one t res v0 k s3 = Inr s4 \<and>
    pt_round [] me now12 res v0 None s4 = Inr (PT_Block time_max, s4) \<and> pt_wait me time_max now7 now8 s4 = Inr (Inr k', s5) \<and>
    pt_round [now9] me now10 res v0 (Some k') s5 = Inr (PT_Switch time_max, s6) \<and>
    start_next_task_begin me True now11 s6 = Inr (s_next_ctx s, s7) \<and> th_current (s_thrs s7 me) = Some c \<and>
    fst (promise_wait_end me c p s7) = res f"
proof -
  obtain p s1 where A: "async_result t (User_Fun f) pr n s = (p, s1)" by fastforce
  have "thread_sync_begin me t (User_Fun f) pr us n now now0 now1 s = (p, promise_wait_begin me p time_max now0 now1 s1)"
    using A us by (simp add: thread_sync_is_async_wait)
  with posted_call_roundtrip [OF q t A clk, of now1] show ?thesis by (metis (no_types, lifting))
qed

text \<open>
  C4.  A method called on an actor of another thread, with the caller waiting for the result: the
  call returns a future at once; the wait blocks the caller's fiber, and its thread, having nothing
  else to do, goes to sleep; the actor's thread takes the task and runs the method there, which
  posts an answer to the caller's thread; the caller's thread takes the answer, switches back to
  the caller, and its \<open>wait\<close> returns the value of the method or throws the exception it threw.
\<close>

theorem actor_call_roundtrip:
  assumes q: "quiet me c s" and t: "me \<noteq> t" "no_tasks t s"
    and m: "am_actor m = Some ab" "ab_thread (as ab) = t" "am_delegate m = User_Fun f"
    and clk: "now0 \<le> time_max" "time_min \<le> now5" "time_min \<le> now7"
  shows "\<exists>p k k' s1 s2 s3 s4 s5 s6 s7. actor_call as me res v0 m s = Inr (Inr p, s1) \<and>
    promise_wait_begin me p time_max now0 now1 s1 = Inr (Inl (Switched c), s2) \<and>
    pt_round [] me now2 res v0 None s2 = Inr (PT_Block time_max, s2) \<and> pt_wait me time_max now3 now4 s2 = Inr (Inl time_max, s2) \<and>
    dequeue_sys t now5 now6 s2 = Inr (Some k, s3) \<and> run_one t res v0 k s3 = Inr s4 \<and>
    pt_round [] me now12 res v0 None s4 = Inr (PT_Block time_max, s4) \<and> pt_wait me time_max now7 now8 s4 = Inr (Inr k', s5) \<and>
    pt_round [now9] me now10 res v0 (Some k') s5 = Inr (PT_Switch time_max, s6) \<and>
    start_next_task_begin me True now11 s6 = Inr (s_next_ctx s, s7) \<and> th_current (s_thrs s7 me) = Some c \<and>
    fst (promise_wait_end me c p s7) = res f"
proof -
  obtain p s1 where A: "async_result t (User_Fun f) default_priority [] s = (p, s1)" by fastforce
  have "actor_call as me res v0 m s = Inr (Inr p, s1)" using m t(1) A by (simp add: actor_call_def)
  with posted_call_roundtrip [OF q t A clk, of now1 now2 res v0 now3 now4 now6 now12 now8 now9 now10 now11] show ?thesis by blast
qed

theorem actor_call_roundtrip_witness:
  "\<exists>p k k' s1 s2 s3 s4 s5 s6 s7. actor_call (\<lambda>_. \<lparr>ab_thread = 2\<rparr>) 0 (\<lambda>n. Inr (n + 4)) 0 far_actor lone_fiber = Inr (Inr p, s1) \<and>
    promise_wait_begin 0 p time_max 10 10 s1 = Inr (Inl (Switched 0), s2) \<and> pt_wait 0 time_max 11 11 s2 = Inr (Inl time_max, s2) \<and>
    dequeue_sys 2 12 12 s2 = Inr (Some k, s3) \<and> run_one 2 (\<lambda>n. Inr (n + 4)) 0 k s3 = Inr s4 \<and>
    pt_wait 0 time_max 13 13 s4 = Inr (Inr k', s5) \<and>
    pt_round [(14, 14, 14)] 0 14 (\<lambda>n. Inr (n + 4)) 0 (Some k') s5 = Inr (PT_Switch time_max, s6) \<and>
    start_next_task_begin 0 True 15 s6 = Inr (1, s7) \<and> fst (promise_wait_end 0 0 p s7) = Inr 7"
proof -
  have "no_tasks 2 lone_fiber" by (simp add: no_tasks_def lone_fiber_def new_context_def set_current_def upd_thread_def init_sys_def make_thread_def)
  with actor_call_roundtrip [OF lone_fiber_quiet(1), of 2 far_actor 0 "\<lambda>_. \<lparr>ab_thread = 2\<rparr>" 3 10 12 13 "\<lambda>n. Inr (n + 4)" 0 10 11 11 11 12 13 13
      "(14, 14, 14)" 14 15]
  show ?thesis by (fastforce simp: lone_fiber_quiet(2) far_actor_def set_delegate_def time_min_def time_max_def)
qed

section \<open>The start of a thread\<close>





end
