(* ===== verification/CMT_Signal.thy ===== *)
theory CMT_Signal
  imports CMT_Actor CMT_Asio
begin

text \<open>
  Signals: the signal members of actors (\<open>actor_interface.hpp\<close>), the guard \<open>scoped_block_signal\<close>, and
  waiting for a signal (\<open>signals.hpp\<close>).  The signals themselves are those of \<open>boost::signals\<close>, a
  parameter of the definitions: a record of its operations, with its documented behaviour as the
  hypothesis \<open>signals_laws\<close>.
\<close>

section \<open>The library of signals\<close>

text \<open>
  What is connected to a signal: a functor of the user, named by a number; the reverse connection
  \<open>bind( &actor_member::emit, this, _1 )\<close> of a signal member; \<open>bind( &promise<T>::set_value, p, _1 )\<close>.
  The arguments of a signal are one value.
\<close>

datatype slot = User_Slot nat | Reverse_Slot ptr | Promise_Slot pptr

text \<open>
  The operations of \<open>boost::signal\<close> and \<open>boost::signals::connection\<close> the code uses; \<open>'g\<close> is the state of
  the library and \<open>'w\<close> the state of the program.  \<open>sg_emit\<close> is the call operator of a signal, given how
  a slot is called; \<open>sg_combine\<close> is its combiner.
\<close>

record ('g, 'w, 'v) signals_api =
  sg_connect :: "ptr \<Rightarrow> slot \<Rightarrow> 'g \<Rightarrow> ptr \<times> 'g"
  sg_disconnect :: "ptr \<Rightarrow> 'g \<Rightarrow> 'g"
  sg_disconnect_all :: "ptr \<Rightarrow> 'g \<Rightarrow> 'g"
  sg_block :: "ptr \<Rightarrow> 'g \<Rightarrow> 'g"
  sg_unblock :: "ptr \<Rightarrow> 'g \<Rightarrow> 'g"
  sg_blocked :: "ptr \<Rightarrow> 'g \<Rightarrow> bool"
  sg_num_slots :: "ptr \<Rightarrow> 'g \<Rightarrow> nat"
  sg_emit :: "(slot \<Rightarrow> 'w \<Rightarrow> fault + ((exn + 'v) \<times> 'w)) \<Rightarrow> ptr \<Rightarrow> 'w \<Rightarrow> fault + ((exn + 'v) \<times> 'w)"
  sg_combine :: "'v list \<Rightarrow> exn + 'v"

section \<open>Signal members\<close>

text \<open>
  The delegate of a signal member: none yet (an empty \<open>boost::function\<close>), \<open>emit_or_throw\<close> on the signal
  of the object, or a functor that was assigned.  A connection is named by a number; \<open>None\<close> is the
  default constructed \<open>connection()\<close>.
\<close>

datatype signal_delegate = No_Delegate | Emit_Or_Throw ptr | User_Delegate nat

record signal_member =
  sm_actor :: "ptr option"
  sm_connect_delegate :: "nat option"
  sm_delegate :: signal_delegate
  sm_reverse_con :: "ptr option"
  sm_signal :: ptr

text \<open>
  The state of the program: the library, the signal members, the calls of user slots and of connect
  delegates so far, and the threads.
\<close>

record ('g, 'v) sigsys =
  g_lib :: 'g
  g_mems :: "ptr \<Rightarrow> signal_member"
  g_calls :: "(nat \<times> 'v) list"
  g_counts :: "(nat \<times> int) list"
  g_sys :: "'v sys"

type_synonym ('g, 'v) signal_lib = "('g, ('g, 'v) sigsys, 'v) signals_api"

definition on_lib :: "('g \<Rightarrow> 'g) \<Rightarrow> ('g, 'v) sigsys \<Rightarrow> ('g, 'v) sigsys" where
  "on_lib f w = w\<lparr>g_lib := f (g_lib w)\<rparr>"

definition upd_mem :: "ptr \<Rightarrow> (signal_member \<Rightarrow> signal_member) \<Rightarrow> ('g, 'v) sigsys \<Rightarrow> ('g, 'v) sigsys" where
  "upd_mem m f w = w\<lparr>g_mems := (g_mems w)(m := f (g_mems w m))\<rparr>"

text \<open>The constructor and the destructor of \<open>scoped_block_signal\<close>; the boolean is \<open>unblock\<close>.\<close>

definition scoped_block :: "('g, 'v) signal_lib \<Rightarrow> ptr option \<Rightarrow> ('g, 'v) sigsys \<Rightarrow> bool \<times> ('g, 'v) sigsys" where
  "scoped_block L c w =
     (case c of
        Some d \<Rightarrow> if \<not> sg_blocked L d (g_lib w) then (True, on_lib (sg_block L d) w) else (False, w)
      | None \<Rightarrow> (False, w))"

definition scoped_unblock :: "('g, 'v) signal_lib \<Rightarrow> bool \<Rightarrow> ptr option \<Rightarrow> ('g, 'v) sigsys \<Rightarrow> ('g, 'v) sigsys" where
  "scoped_unblock L unblk c w =
     (case c of Some d \<Rightarrow> if unblk then on_lib (sg_unblock L d) w else w | None \<Rightarrow> w)"

text \<open>A value or an exception as what a function that returns a future returns.\<close>

definition as_future :: "exn + 'v \<Rightarrow> ('g, 'v) sigsys \<Rightarrow> (exn + pptr) \<times> ('g, 'v) sigsys" where
  "as_future r w =
     (case r of
        Inl x \<Rightarrow> (Inl x, w)
      | Inr v \<Rightarrow> (let (p, s) = new_promise_value v (g_sys w) in (Inr p, w\<lparr>g_sys := s\<rparr>)))"

text \<open>\<open>emit\<close>: the slots of the member's own signal, its reverse connection blocked meanwhile.\<close>

definition emit_with :: "('g, 'v) signal_lib \<Rightarrow> (slot \<Rightarrow> ('g, 'v) sigsys \<Rightarrow> fault + ((exn + 'v) \<times> ('g, 'v) sigsys))
    \<Rightarrow> ptr \<Rightarrow> ('g, 'v) sigsys \<Rightarrow> fault + ((exn + pptr) \<times> ('g, 'v) sigsys)" where
  "emit_with L call m w =
     (let (unblk, w) = scoped_block L (sm_reverse_con (g_mems w m)) w in
      case sg_emit L call (sm_signal (g_mems w m)) w of
        Inl f \<Rightarrow> Inl f
      | Inr (r, w) \<Rightarrow> (let (r, w) = as_future r w
                        in Inr (r, scoped_unblock L unblk (sm_reverse_con (g_mems w m)) w)))"

text \<open>
  The call of a slot with the arguments \<open>v\<close>.  \<open>res\<close> is how a functor of the user ends; a slot that
  returns nothing gives \<open>v0\<close>.  The future that \<open>emit\<close> returns is converted to its value.  The fuel
  bounds the nesting of reverse connections: a member's own signal has slots of users only, so one
  level is enough.
\<close>

fun call_slot :: "('g, 'v) signal_lib \<Rightarrow> thid \<Rightarrow> (nat \<Rightarrow> 'v \<Rightarrow> exn + 'v) \<Rightarrow> 'v \<Rightarrow> nat \<Rightarrow> 'v \<Rightarrow> slot
    \<Rightarrow> ('g, 'v) sigsys \<Rightarrow> fault + ((exn + 'v) \<times> ('g, 'v) sigsys)" where
  "call_slot L me res v0 n v (User_Slot f) w = Inr (res f v, w\<lparr>g_calls := g_calls w @ [(f, v)]\<rparr>)"
| "call_slot L me res v0 n v (Promise_Slot p) w =
     (case set_value me p v (g_sys w) of Inl e \<Rightarrow> Inl e | Inr s \<Rightarrow> Inr (Inr v0, w\<lparr>g_sys := s\<rparr>))"
| "call_slot L me res v0 0 v (Reverse_Slot m) w = Inl Out_Of_Fuel"
| "call_slot L me res v0 (Suc n) v (Reverse_Slot m) w =
     (case emit_with L (call_slot L me res v0 n v) m w of
        Inl e \<Rightarrow> Inl e
      | Inr (Inl x, w) \<Rightarrow> Inr (Inl x, w)
      | Inr (Inr p, w) \<Rightarrow> Inr (fst (wait_finish (s_proms (g_sys w) p)), w))"

definition member_emit :: "('g, 'v) signal_lib \<Rightarrow> thid \<Rightarrow> (nat \<Rightarrow> 'v \<Rightarrow> exn + 'v) \<Rightarrow> 'v \<Rightarrow> nat \<Rightarrow> 'v \<Rightarrow> ptr
    \<Rightarrow> ('g, 'v) sigsys \<Rightarrow> fault + ((exn + pptr) \<times> ('g, 'v) sigsys)" where
  "member_emit L me res v0 n v m = emit_with L (call_slot L me res v0 n v) m"

text \<open>An object of the user emits one of its signals: the call operator of the signal.\<close>

definition emit_signal :: "('g, 'v) signal_lib \<Rightarrow> thid \<Rightarrow> (nat \<Rightarrow> 'v \<Rightarrow> exn + 'v) \<Rightarrow> 'v \<Rightarrow> nat \<Rightarrow> 'v \<Rightarrow> ptr
    \<Rightarrow> ('g, 'v) sigsys \<Rightarrow> fault + ((exn + 'v) \<times> ('g, 'v) sigsys)" where
  "emit_signal L me res v0 n v s = sg_emit L (call_slot L me res v0 n v) s"

text \<open>\<open>emit_or_throw\<close>, and the call of the delegate.\<close>

definition no_connected_slots :: exn where
  "no_connected_slots = Std_Error ''no connected slots''"

definition bad_function_call :: exn where
  "bad_function_call = Std_Error ''call to empty boost::function''"

definition emit_or_throw :: "('g, 'v) signal_lib \<Rightarrow> thid \<Rightarrow> (nat \<Rightarrow> 'v \<Rightarrow> exn + 'v) \<Rightarrow> 'v \<Rightarrow> nat \<Rightarrow> 'v \<Rightarrow> ptr
    \<Rightarrow> ('g, 'v) sigsys \<Rightarrow> fault + ((exn + 'v) \<times> ('g, 'v) sigsys)" where
  "emit_or_throw L me res v0 n v s w =
     (if to_int32 (sg_num_slots L s (g_lib w)) - 1 > 0 then emit_signal L me res v0 n v s w
      else Inr (Inl no_connected_slots, w))"

definition call_delegate :: "('g, 'v) signal_lib \<Rightarrow> thid \<Rightarrow> (nat \<Rightarrow> 'v \<Rightarrow> exn + 'v) \<Rightarrow> 'v \<Rightarrow> nat \<Rightarrow> 'v \<Rightarrow> signal_delegate
    \<Rightarrow> ('g, 'v) sigsys \<Rightarrow> fault + ((exn + 'v) \<times> ('g, 'v) sigsys)" where
  "call_delegate L me res v0 n v d w =
     (case d of
        No_Delegate \<Rightarrow> Inr (Inl bad_function_call, w)
      | Emit_Or_Throw s \<Rightarrow> emit_or_throw L me res v0 n v s w
      | User_Delegate f \<Rightarrow> Inr (res f v, w\<lparr>g_calls := g_calls w @ [(f, v)]\<rparr>))"

text \<open>
  The call operator of a signal member.  On another thread it posts itself, its arguments bound (the
  functor named \<open>k\<close>), to the thread of the actor; on that thread it calls its own slots, if it has more
  than one, and then the delegate.  The guard's destructor runs on every way out.
\<close>

definition call_own_slots :: "('g, 'v) signal_lib \<Rightarrow> thid \<Rightarrow> (nat \<Rightarrow> 'v \<Rightarrow> exn + 'v) \<Rightarrow> 'v \<Rightarrow> nat \<Rightarrow> 'v \<Rightarrow> ptr
    \<Rightarrow> ('g, 'v) sigsys \<Rightarrow> fault + ((exn + 'v) \<times> ('g, 'v) sigsys)" where
  "call_own_slots L me res v0 n v sig w =
     (if to_int32 (sg_num_slots L sig (g_lib w)) - 1 > 0 then emit_signal L me res v0 n v sig w
      else Inr (Inr v0, w))"

definition member_call_here :: "('g, 'v) signal_lib \<Rightarrow> thid \<Rightarrow> (nat \<Rightarrow> 'v \<Rightarrow> exn + 'v) \<Rightarrow> 'v \<Rightarrow> nat \<Rightarrow> 'v \<Rightarrow> ptr
    \<Rightarrow> ('g, 'v) sigsys \<Rightarrow> fault + ((exn + pptr) \<times> ('g, 'v) sigsys)" where
  "member_call_here L me res v0 n v m w =
     (let (unblk, w) = scoped_block L (sm_reverse_con (g_mems w m)) w;
          leave = (\<lambda>r w. let (r, w) = as_future r w
                          in Inr (r, scoped_unblock L unblk (sm_reverse_con (g_mems w m)) w))
      in case call_own_slots L me res v0 n v (sm_signal (g_mems w m)) w of
           Inl e \<Rightarrow> Inl e
         | Inr (Inl x, w) \<Rightarrow> leave (Inl x) w
         | Inr (Inr _, w) \<Rightarrow>
             (case call_delegate L me res v0 n v (sm_delegate (g_mems w m)) w of
                Inl e \<Rightarrow> Inl e
              | Inr (r, w) \<Rightarrow> leave r w))"

definition member_call :: "('g, 'v) signal_lib \<Rightarrow> actors \<Rightarrow> thid \<Rightarrow> (nat \<Rightarrow> 'v \<Rightarrow> exn + 'v) \<Rightarrow> 'v \<Rightarrow> nat \<Rightarrow> nat \<Rightarrow> 'v \<Rightarrow> ptr
    \<Rightarrow> ('g, 'v) sigsys \<Rightarrow> fault + ((exn + pptr) \<times> ('g, 'v) sigsys)" where
  "member_call L as me res v0 n k v m w =
     (case sm_actor (g_mems w m) of
        Some ab \<Rightarrow>
          if me \<noteq> ab_thread (as ab)
          then (let (p, s) = async_result (ab_thread (as ab)) (User_Fun k) default_priority [] (g_sys w)
                in Inr (Inr p, w\<lparr>g_sys := s\<rparr>))
          else member_call_here L me res v0 n v m w
      | None \<Rightarrow> member_call_here L me res v0 n v m w)"

text \<open>
  \<open>connect\<close> and \<open>disconnect\<close> tell the connect delegate, if there is one, the number of slots; \<open>cres\<close> is
  how its call ends.  The others change the member only.
\<close>

definition tell_count :: "('g, 'v) signal_lib \<Rightarrow> (nat \<Rightarrow> int \<Rightarrow> exn option) \<Rightarrow> ptr \<Rightarrow> ('g, 'v) sigsys \<Rightarrow> exn option \<times> ('g, 'v) sigsys" where
  "tell_count L cres m w =
     (case sm_connect_delegate (g_mems w m) of
        None \<Rightarrow> (None, w)
      | Some f \<Rightarrow> (let k = to_int32 (sg_num_slots L (sm_signal (g_mems w m)) (g_lib w))
                    in (cres f k, w\<lparr>g_counts := g_counts w @ [(f, k)]\<rparr>)))"

definition member_connect :: "('g, 'v) signal_lib \<Rightarrow> (nat \<Rightarrow> int \<Rightarrow> exn option) \<Rightarrow> nat \<Rightarrow> ptr \<Rightarrow> ('g, 'v) sigsys
    \<Rightarrow> (exn + ptr) \<times> ('g, 'v) sigsys" where
  "member_connect L cres f m w =
     (let (c, g) = sg_connect L (sm_signal (g_mems w m)) (User_Slot f) (g_lib w);
          (x, w) = tell_count L cres m (w\<lparr>g_lib := g\<rparr>)
      in (case x of None \<Rightarrow> Inr c | Some e \<Rightarrow> Inl e, w))"

definition member_disconnect :: "('g, 'v) signal_lib \<Rightarrow> (nat \<Rightarrow> int \<Rightarrow> exn option) \<Rightarrow> ptr \<Rightarrow> ptr \<Rightarrow> ('g, 'v) sigsys
    \<Rightarrow> exn option \<times> ('g, 'v) sigsys" where
  "member_disconnect L cres c m w = tell_count L cres m (on_lib (sg_disconnect L c) w)"

definition set_connect_delegate :: "nat \<Rightarrow> ptr \<Rightarrow> ('g, 'v) sigsys \<Rightarrow> ('g, 'v) sigsys" where
  "set_connect_delegate f m = upd_mem m (\<lambda>mb. mb\<lparr>sm_connect_delegate := Some f\<rparr>)"

definition member_assign :: "nat \<Rightarrow> ptr \<Rightarrow> ('g, 'v) sigsys \<Rightarrow> ('g, 'v) sigsys" where
  "member_assign f m = upd_mem m (\<lambda>mb. mb\<lparr>sm_delegate := User_Delegate f\<rparr>)"

definition set_signal_delegate :: "('g, 'v) signal_lib \<Rightarrow> ptr \<Rightarrow> ptr \<Rightarrow> ptr \<Rightarrow> ('g, 'v) sigsys \<Rightarrow> ('g, 'v) sigsys" where
  "set_signal_delegate L s ab m w =
     (let w = upd_mem m (\<lambda>mb. mb\<lparr>sm_actor := Some ab\<rparr>) w;
          w = on_lib (sg_disconnect_all L (sm_signal (g_mems w m))) w;
          (c, g) = sg_connect L s (Reverse_Slot m) (g_lib w)
      in upd_mem m (\<lambda>mb. mb\<lparr>sm_reverse_con := Some c, sm_delegate := Emit_Or_Throw s\<rparr>) (w\<lparr>g_lib := g\<rparr>))"

text \<open>The destructor.\<close>

definition member_destroy :: "('g, 'v) signal_lib \<Rightarrow> ptr \<Rightarrow> ('g, 'v) sigsys \<Rightarrow> ('g, 'v) sigsys" where
  "member_destroy L m w =
     (let w = on_lib (sg_disconnect_all L (sm_signal (g_mems w m))) w
      in case sm_reverse_con (g_mems w m) of
           Some c \<Rightarrow> on_lib (sg_disconnect L c) w
         | None \<Rightarrow> w)"

section \<open>Waiting for a signal\<close>

text \<open>
  \<open>wait( signal, timeout )\<close>: the promise is connected; the wait up to the switch, which cuts the scoped
  connection if it returns or throws at once; and the rest, in which the connection is cut on every
  way out.
\<close>

definition signal_wait_connect :: "('g, 'v) signal_lib \<Rightarrow> ptr \<Rightarrow> ('g, 'v) sigsys \<Rightarrow> pptr \<times> ptr \<times> ('g, 'v) sigsys" where
  "signal_wait_connect L s w =
     (let (p, sy) = new_promise (g_sys w);
          (c, g) = sg_connect L s (Promise_Slot p) (g_lib w)
      in (p, c, w\<lparr>g_lib := g, g_sys := sy\<rparr>))"

definition signal_wait_block :: "('g, 'v) signal_lib \<Rightarrow> thid \<Rightarrow> pptr \<Rightarrow> ptr \<Rightarrow> int \<Rightarrow> time_point \<Rightarrow> time_point \<Rightarrow> time_point
    \<Rightarrow> ('g, 'v) sigsys \<Rightarrow> fault + ((call + 'v) \<times> ('g, 'v) sigsys)" where
  "signal_wait_block L me p c timeout_us now0 now1 now2 w =
     (case promise_wait_begin me p (timeout_point timeout_us now0) now1 now2 (g_sys w) of
        Inl e \<Rightarrow> Inl e
      | Inr (Inl (Switched d), sy) \<Rightarrow> Inr (Inl (Switched d), w\<lparr>g_sys := sy\<rparr>)
      | Inr (r, sy) \<Rightarrow> Inr (r, on_lib (sg_disconnect L c) (w\<lparr>g_sys := sy\<rparr>)))"

definition signal_wait_end :: "('g, 'v) signal_lib \<Rightarrow> thid \<Rightarrow> cptr \<Rightarrow> pptr \<Rightarrow> ptr \<Rightarrow> ('g, 'v) sigsys \<Rightarrow> (exn + 'v) \<times> ('g, 'v) sigsys" where
  "signal_wait_end L me self p c w =
     (let (r, sy) = promise_wait_end me self p (g_sys w)
      in (r, on_lib (sg_disconnect L c) (w\<lparr>g_sys := sy\<rparr>)))"

section \<open>What the library promises\<close>

text \<open>
  The documented behaviour of \<open>boost::signals\<close>, over a function \<open>conns\<close> that gives the connections of a
  signal in their order, each with its slot and whether it is blocked.  Connecting appends an
  unblocked connection with a new identity; \<open>num_slots\<close> counts the connections, blocked ones
  included; an emission calls the slots that are not blocked one after the other, an exception of a
  slot ends it, and otherwise the combiner makes the result.  About emissions in the course of which
  the connections of the same signal change nothing is assumed: the law for \<open>sg_emit\<close> needs an
  invariant \<open>I\<close> of the calls that fixes them.
\<close>

type_synonym conn = "ptr \<times> slot \<times> bool"

definition active :: "conn list \<Rightarrow> slot list" where
  "active es = map (\<lambda>e. fst (snd e)) (filter (\<lambda>e. \<not> snd (snd e)) es)"

definition ids_ok :: "(ptr \<Rightarrow> 'g \<Rightarrow> conn list) \<Rightarrow> 'g \<Rightarrow> bool" where
  "ids_ok conns g =
     ((\<forall>s. distinct (map fst (conns s g))) \<and>
      (\<forall>s s'. s \<noteq> s' \<longrightarrow> fst ` set (conns s g) \<inter> fst ` set (conns s' g) = {}))"

fun run_slots :: "(slot \<Rightarrow> 'w \<Rightarrow> fault + ((exn + 'v) \<times> 'w)) \<Rightarrow> slot list \<Rightarrow> 'v list \<Rightarrow> 'w \<Rightarrow> fault + ((exn + 'v list) \<times> 'w)" where
  "run_slots call [] vs w = Inr (Inr vs, w)"
| "run_slots call (sl # sls) vs w =
     (case call sl w of
        Inl e \<Rightarrow> Inl e
      | Inr (Inl x, w) \<Rightarrow> Inr (Inl x, w)
      | Inr (Inr v, w) \<Rightarrow> run_slots call sls (vs @ [v]) w)"

definition combined :: "('v list \<Rightarrow> exn + 'v) \<Rightarrow> fault + ((exn + 'v list) \<times> 'w) \<Rightarrow> fault + ((exn + 'v) \<times> 'w)" where
  "combined comb r =
     (case r of Inl e \<Rightarrow> Inl e | Inr (Inl x, w) \<Rightarrow> Inr (Inl x, w) | Inr (Inr vs, w) \<Rightarrow> Inr (comb vs, w))"

definition connection_laws :: "('g, 'v) signal_lib \<Rightarrow> (ptr \<Rightarrow> 'g \<Rightarrow> conn list) \<Rightarrow> bool" where
  "connection_laws L conns =
     ((\<forall>s sl g. let (c, g') = sg_connect L s sl g in
         (\<forall>s'. conns s' g' = (if s' = s then conns s g @ [(c, sl, False)] else conns s' g) \<and>
               c \<notin> fst ` set (conns s' g))) \<and>
      (\<forall>c s g. conns s (sg_disconnect L c g) = filter (\<lambda>e. fst e \<noteq> c) (conns s g)) \<and>
      (\<forall>s s' g. conns s' (sg_disconnect_all L s g) = (if s' = s then [] else conns s' g)) \<and>
      (\<forall>c s g. conns s (sg_block L c g) = map (\<lambda>(d, sl, b). (d, sl, b \<or> d = c)) (conns s g)) \<and>
      (\<forall>c s g. conns s (sg_unblock L c g) = map (\<lambda>(d, sl, b). (d, sl, b \<and> d \<noteq> c)) (conns s g)) \<and>
      (\<forall>c sl b s g. ids_ok conns g \<longrightarrow> (c, sl, b) \<in> set (conns s g) \<longrightarrow> sg_blocked L c g = b) \<and>
      (\<forall>s g. sg_num_slots L s g = length (conns s g)))"

definition emission_law :: "('g, 'v) signal_lib \<Rightarrow> (ptr \<Rightarrow> 'g \<Rightarrow> conn list) \<Rightarrow> bool" where
  "emission_law L conns =
     (\<forall>call s w I. I w \<longrightarrow>
        (\<forall>w1. I w1 \<longrightarrow> conns s (g_lib w1) = conns s (g_lib w)) \<longrightarrow>
        (\<forall>sl w1 r w2. sl \<in> set (active (conns s (g_lib w))) \<longrightarrow> I w1 \<longrightarrow> call sl w1 = Inr (r, w2) \<longrightarrow> I w2) \<longrightarrow>
        sg_emit L call s w = combined (sg_combine L) (run_slots call (active (conns s (g_lib w))) [] w))"

definition signals_laws :: "('g, 'v) signal_lib \<Rightarrow> (ptr \<Rightarrow> 'g \<Rightarrow> conn list) \<Rightarrow> bool" where
  "signals_laws L conns = (connection_laws L conns \<and> emission_law L conns)"

text \<open>
  A library with these properties, for the examples: its state is the list of all connections.
\<close>

type_synonym demo_state = "(ptr \<times> conn) list"

definition demo_conns :: "ptr \<Rightarrow> demo_state \<Rightarrow> conn list" where
  "demo_conns s g = map snd (filter (\<lambda>e. fst e = s) g)"

definition demo_new :: "demo_state \<Rightarrow> ptr" where
  "demo_new g = Suc (foldr max (map (\<lambda>e. fst (snd e)) g) 0)"

definition demo_lib :: "'v \<Rightarrow> (demo_state, 'v) signal_lib" where
  "demo_lib v0 =
     \<lparr>sg_connect = (\<lambda>s sl g. (demo_new g, g @ [(s, demo_new g, sl, False)])),
      sg_disconnect = (\<lambda>c. filter (\<lambda>e. fst (snd e) \<noteq> c)),
      sg_disconnect_all = (\<lambda>s. filter (\<lambda>e. fst e \<noteq> s)),
      sg_block = (\<lambda>c. map (\<lambda>(s, d, sl, b). (s, d, sl, b \<or> d = c))),
      sg_unblock = (\<lambda>c. map (\<lambda>(s, d, sl, b). (s, d, sl, b \<and> d \<noteq> c))),
      sg_blocked = (\<lambda>c g. list_ex (\<lambda>(s, d, sl, b). d = c \<and> b) g),
      sg_num_slots = (\<lambda>s g. length (demo_conns s g)),
      sg_emit = (\<lambda>call s w. combined (\<lambda>_. Inr v0) (run_slots call (active (demo_conns s (g_lib w))) [] w)),
      sg_combine = (\<lambda>_. Inr v0)\<rparr>"

lemma demo_new_fresh: "(s, c, sl, b) \<in> set g \<Longrightarrow> c < demo_new g"
proof -
  have "e \<in> set g \<Longrightarrow> fst (snd e) \<le> foldr max (map (\<lambda>e. fst (snd e)) g) 0" for e by (induction g) auto
  then show "(s, c, sl, b) \<in> set g \<Longrightarrow> c < demo_new g" by (fastforce simp: demo_new_def)
qed

lemma ids_ok_unique:
  assumes "ids_ok conns g" and "(c, sl, b) \<in> set (conns s g)" and "(c, sl', b') \<in> set (conns s' g)"
  shows "s' = s \<and> sl' = sl \<and> b' = b"
proof -
  have "c \<in> fst ` set (conns s g) \<inter> fst ` set (conns s' g)" using assms(2,3) by force
  with assms(1) have s: "s' = s" unfolding ids_ok_def by blast
  have "distinct (map fst (conns s g))" using assms(1) by (simp add: ids_ok_def)
  with s assms(2,3) have "(sl, b) = (sl', b')" by (metis eq_key_imp_eq_value)
  with s show ?thesis by simp
qed

lemma demo_blocked:
  assumes "ids_ok demo_conns g" and "(c, sl, b) \<in> set (demo_conns s g)"
  shows "sg_blocked (demo_lib v0) c g = b"
proof -
  have same: "b' = b" if "(s', c, sl', b') \<in> set g" for s' sl' b'
  proof -
    from that have "(c, sl', b') \<in> set (demo_conns s' g)" by (force simp: demo_conns_def)
    with ids_ok_unique [OF assms] show ?thesis by blast
  qed
  have "(s, c, sl, b) \<in> set g" using assms(2) by (auto simp: demo_conns_def)
  with same have "(\<exists>e \<in> set g. case e of (s, d, sl, b) \<Rightarrow> d = c \<and> b) = b" by fast
  then show ?thesis unfolding demo_lib_def by (simp add: list_ex_iff)
qed

lemma demo_lib_laws: "signals_laws (demo_lib v0) demo_conns"
proof -
  have "connection_laws (demo_lib v0) demo_conns"
    unfolding connection_laws_def
  proof (intro conjI allI impI)
    fix c :: ptr and sl b s g
    assume "ids_ok demo_conns g" "(c, sl, b) \<in> set (demo_conns s g)"
    then show "sg_blocked (demo_lib v0) c g = b" by (rule demo_blocked)
  qed (auto simp: demo_lib_def demo_conns_def filter_map o_def case_prod_beta dest: demo_new_fresh
      intro!: arg_cong [of _ _ "map snd"] filter_cong)
  moreover have "emission_law (demo_lib v0) demo_conns" unfolding emission_law_def
    by (intro allI impI) (simp (no_asm) add: demo_lib_def)
  ultimately show ?thesis by (simp add: signals_laws_def)
qed

end
