(* ===== verification/CMT_Signal_Props.thy ===== *)
theory CMT_Signal_Props
  imports CMT_Signal
begin

text \<open>
  What emissions do: which slots are called, in which order, and that the guard leaves every
  connection as it found it, for the signals of objects with any number of signal members bound to
  them.
\<close>

section \<open>The laws as rewrite rules\<close>

lemma connect_conns:
  assumes "signals_laws L conns" and "sg_connect L s sl g = (c, g')"
  shows "conns s' g' = (if s' = s then conns s g @ [(c, sl, False)] else conns s' g)" "c \<notin> fst ` set (conns s' g)"
  using assms by (auto simp: signals_laws_def connection_laws_def Let_def split: prod.splits)

lemma lib_conns:
  assumes "signals_laws L conns"
  shows "conns s (sg_disconnect L c g) = filter (\<lambda>e. fst e \<noteq> c) (conns s g)"
    "conns s' (sg_disconnect_all L s g) = (if s' = s then [] else conns s' g)"
    "conns s (sg_block L c g) = map (\<lambda>(d, sl, b). (d, sl, b \<or> d = c)) (conns s g)"
    "conns s (sg_unblock L c g) = map (\<lambda>(d, sl, b). (d, sl, b \<and> d \<noteq> c)) (conns s g)"
    "sg_num_slots L s g = length (conns s g)"
  using assms by (simp_all add: signals_laws_def connection_laws_def)

lemma blocked_conns:
  "signals_laws L conns \<Longrightarrow> ids_ok conns g \<Longrightarrow> (c, sl, b) \<in> set (conns s g) \<Longrightarrow> sg_blocked L c g = b"
  unfolding signals_laws_def connection_laws_def by blast

lemma emit_conns:
  assumes "signals_laws L conns" and "I w" and "\<And>w1. I w1 \<Longrightarrow> conns s (g_lib w1) = conns s (g_lib w)"
    and "\<And>sl w1 r w2. sl \<in> set (active (conns s (g_lib w))) \<Longrightarrow> I w1 \<Longrightarrow> call sl w1 = Inr (r, w2) \<Longrightarrow> I w2"
  shows "sg_emit L call s w = combined (sg_combine L) (run_slots call (active (conns s (g_lib w))) [] w)"
proof -
  have "emission_law L conns" using assms(1) by (simp add: signals_laws_def)
  then show ?thesis unfolding emission_law_def using assms(2-4) by blast
qed

lemma map_fst_flags [simp]:
  "map fst (map (\<lambda>(d, sl, b). (d, sl, f d sl b)) es) = map fst es"
  by (induction es) auto

lemma ids_ok_cong: "(\<And>s. map fst (conns s g') = map fst (conns s g)) \<Longrightarrow> ids_ok conns g \<Longrightarrow> ids_ok conns g'"
  by (metis (no_types, lifting) ids_ok_def list.set_map)

section \<open>Emissions that reach only users\<close>

definition user_only :: "conn list \<Rightarrow> bool" where
  "user_only es = (\<forall>e \<in> set es. \<exists>f. fst (snd e) = User_Slot f)"

definition users :: "conn list \<Rightarrow> nat list" where
  "users es = List.map_filter (\<lambda>sl. case sl of User_Slot f \<Rightarrow> Some f | _ \<Rightarrow> None) (active es)"

text \<open>The functors called out of a list, up to the first one that throws.\<close>

fun until_throw :: "(nat \<Rightarrow> exn + 'v) \<Rightarrow> nat list \<Rightarrow> nat list \<times> exn option" where
  "until_throw r [] = ([], None)"
| "until_throw r (f # fs) =
     (case r f of Inl x \<Rightarrow> ([f], Some x) | Inr _ \<Rightarrow> (let (gs, x) = until_throw r fs in (f # gs, x)))"

lemma until_throw_append:
  "until_throw r (xs @ ys) =
     (case until_throw r xs of (cs, Some x) \<Rightarrow> (cs, Some x) | (cs, None) \<Rightarrow> (let (ds, x) = until_throw r ys in (cs @ ds, x)))"
  by (induction xs) (auto simp: Let_def split: sum.split prod.split option.split)

lemma until_throw_all: "(\<And>f. f \<in> set fs \<Longrightarrow> \<exists>v. r f = Inr v) \<Longrightarrow> until_throw r fs = (fs, None)"
proof (induction fs)
  case (Cons f fs)
  from Cons.prems [of f] obtain v where "r f = Inr v" by auto
  with Cons show ?case by simp
qed simp

text \<open>The world after the calls, when nothing but the log of calls changes.\<close>

definition logged :: "'v \<Rightarrow> nat list \<Rightarrow> ('g, 'v) sigsys \<Rightarrow> ('g, 'v) sigsys" where
  "logged v fs w = w\<lparr>g_calls := g_calls w @ map (\<lambda>f. (f, v)) fs\<rparr>"

lemma run_user_slots:
  "run_slots (call_slot L me res v0 n v) (map User_Slot fs) vs w =
     (let (cs, x) = until_throw (\<lambda>f. res f v) fs
      in Inr (case x of Some e \<Rightarrow> Inl e | None \<Rightarrow> Inr (vs @ map (\<lambda>f. projr (res f v)) fs), logged v cs w))"
proof (induction fs arbitrary: vs w)
  case (Cons f fs)
  then show ?case by (auto simp: Let_def logged_def split: sum.split prod.split option.split)
qed (simp add: logged_def)

lemma active_user_only: "user_only es \<Longrightarrow> active es = map User_Slot (users es)"
proof (induction es)
  case (Cons e es)
  then obtain d f b where "e = (d, User_Slot f, b)" by (cases e) (auto simp: user_only_def)
  with Cons show ?case by (auto simp: user_only_def active_def users_def List.map_filter_simps)
qed (simp add: active_def users_def List.map_filter_simps)

definition call_result :: "'v \<Rightarrow> exn option \<Rightarrow> exn + 'v" where
  "call_result v0 x = (case x of Some e \<Rightarrow> Inl e | None \<Rightarrow> Inr v0)"

lemma emit_user_only:
  assumes "signals_laws L conns" and "\<And>vs. sg_combine L vs = Inr v0" and "user_only (conns s (g_lib w))"
  shows "sg_emit L (call_slot L me res v0 n v) s w =
    (let (cs, x) = until_throw (\<lambda>f. res f v) (users (conns s (g_lib w))) in Inr (call_result v0 x, logged v cs w))"
proof -
  note a = active_user_only [OF assms(3)]
  have "sg_emit L (call_slot L me res v0 n v) s w =
    combined (sg_combine L) (run_slots (call_slot L me res v0 n v) (active (conns s (g_lib w))) [] w)"
    by (rule emit_conns [OF assms(1), where I = "\<lambda>w1. g_lib w1 = g_lib w"]) (auto simp: a)
  then show ?thesis by (auto simp: a run_user_slots Let_def combined_def assms(2) call_result_def split: prod.split option.split)
qed

section \<open>The guard\<close>

definition same_wiring :: "(ptr \<Rightarrow> 'g \<Rightarrow> conn list) \<Rightarrow> ('g, 'v) sigsys \<Rightarrow> ('g, 'v) sigsys \<Rightarrow> bool" where
  "same_wiring conns w w' = (g_mems w' = g_mems w \<and> (\<forall>s. conns s (g_lib w') = conns s (g_lib w)))"

text \<open>The calls an emission makes, the way it ends, and that it leaves the wiring alone.\<close>

definition emits :: "(ptr \<Rightarrow> 'g \<Rightarrow> conn list) \<Rightarrow> (nat \<Rightarrow> 'v \<Rightarrow> exn + 'v) \<Rightarrow> 'v \<Rightarrow> 'v \<Rightarrow> nat list
    \<Rightarrow> ('g, 'v) sigsys \<Rightarrow> exn + 'v \<Rightarrow> ('g, 'v) sigsys \<Rightarrow> bool" where
  "emits conns res v0 v fs w r w' =
     (r = call_result v0 (snd (until_throw (\<lambda>f. res f v) fs)) \<and>
      g_calls w' = g_calls w @ map (\<lambda>f. (f, v)) (fst (until_throw (\<lambda>f. res f v) fs)) \<and> same_wiring conns w w')"

lemma block_fields [simp]:
  "g_mems (on_lib f w) = g_mems w" "g_calls (on_lib f w) = g_calls w" "g_sys (on_lib f w) = g_sys w"
  "g_lib (on_lib f w) = f (g_lib w)" "g_counts (on_lib f w) = g_counts w"
  by (simp_all add: on_lib_def)

lemma flags_same: "(\<And>sl b. (c, sl, b) \<in> set es \<Longrightarrow> b) \<Longrightarrow> map (\<lambda>(d, sl, b). (d, sl, b \<or> d = c)) es = es"
  by (rule map_idI) auto

lemma flags_back:
  "(\<And>sl b. (c, sl, b) \<in> set es \<Longrightarrow> \<not> b) \<Longrightarrow>
   map (\<lambda>(d, sl, b). (d, sl, b \<and> d \<noteq> c)) (map (\<lambda>(d, sl, b). (d, sl, b \<or> d = c)) es) = es"
  unfolding map_map by (rule map_idI) auto

lemma scoped_block_effect:
  assumes laws: "signals_laws L conns" and ids: "ids_ok conns (g_lib w)" and c: "(c, sl, b) \<in> set (conns s (g_lib w))"
    and g: "scoped_block L (Some c) w = (u, w1)"
  shows "g_mems w1 = g_mems w" "g_calls w1 = g_calls w" "g_sys w1 = g_sys w" "ids_ok conns (g_lib w1)"
    "conns s' (g_lib w1) = map (\<lambda>(d, sl, b). (d, sl, b \<or> d = c)) (conns s' (g_lib w))"
    "s' \<noteq> s \<Longrightarrow> conns s' (g_lib w1) = conns s' (g_lib w)"
    "(\<And>s'. conns s' (g_lib w2) = conns s' (g_lib w1)) \<Longrightarrow>
       conns s' (g_lib (scoped_unblock L u (Some c) w2)) = conns s' (g_lib w)"
    "g_mems (scoped_unblock L u (Some c) w2) = g_mems w2" "g_calls (scoped_unblock L u (Some c) w2) = g_calls w2"
    "g_sys (scoped_unblock L u (Some c) w2) = g_sys w2"
proof -
  have bl: "sg_blocked L c (g_lib w) = b" by (rule blocked_conns [OF laws ids c])
  have same: "b' = b \<and> s' = s" if "(c, sl', b') \<in> set (conns s' (g_lib w))" for s' sl' b'
    using ids_ok_unique [OF ids c that] by blast
  have w1: "u = (\<not> b)" "g_lib w1 = (if b then g_lib w else sg_block L c (g_lib w))"
    "g_mems w1 = g_mems w" "g_calls w1 = g_calls w" "g_sys w1 = g_sys w"
    using g bl by (auto simp: scoped_block_def split: if_splits)
  show "g_mems w1 = g_mems w" "g_calls w1 = g_calls w" "g_sys w1 = g_sys w" by (rule w1)+
  show flags: "conns s' (g_lib w1) = map (\<lambda>(d, sl, b). (d, sl, b \<or> d = c)) (conns s' (g_lib w))" for s'
  proof (cases b)
    case True
    then have "map (\<lambda>(d, sl, b). (d, sl, b \<or> d = c)) (conns s' (g_lib w)) = conns s' (g_lib w)"
      by (intro flags_same) (use same in blast)
    with True show ?thesis by (simp add: w1(2))
  qed (simp add: w1(2) lib_conns [OF laws])
  show "conns s' (g_lib w1) = conns s' (g_lib w)" if "s' \<noteq> s" for s'
    unfolding flags by (rule flags_same) (use same that in blast)
  show "ids_ok conns (g_lib w1)" by (rule ids_ok_cong [OF _ ids]) (simp only: flags map_fst_flags)
  show "g_mems (scoped_unblock L u (Some c) w2) = g_mems w2" "g_calls (scoped_unblock L u (Some c) w2) = g_calls w2"
    "g_sys (scoped_unblock L u (Some c) w2) = g_sys w2" by (simp_all add: scoped_unblock_def)
  assume w2: "\<And>s'. conns s' (g_lib w2) = conns s' (g_lib w1)"
  show "conns s' (g_lib (scoped_unblock L u (Some c) w2)) = conns s' (g_lib w)"
  proof (cases b)
    case True
    then show ?thesis using w1(1,2) w2 by (simp add: scoped_unblock_def)
  next
    case False
    then have "conns s' (g_lib (scoped_unblock L u (Some c) w2)) =
        map (\<lambda>(d, sl, b). (d, sl, b \<and> d \<noteq> c)) (map (\<lambda>(d, sl, b). (d, sl, b \<or> d = c)) (conns s' (g_lib w)))"
      using w1(1) w2 flags by (simp add: scoped_unblock_def lib_conns [OF laws])
    also have "\<dots> = conns s' (g_lib w)" by (rule flags_back) (use same False in blast)
    finally show ?thesis .
  qed
qed

lemma as_future_effect:
  assumes "as_future r w = (q, w')"
  shows "g_lib w' = g_lib w" "g_mems w' = g_mems w" "g_calls w' = g_calls w"
    "(case r of Inl x \<Rightarrow> q = Inl x | Inr v \<Rightarrow> \<exists>p. q = Inr p \<and> s_proms (g_sys w') p = make_promise_value v)"
  using assms by (auto simp: as_future_def new_promise_value_def Let_def split: sum.splits)

text \<open>A reverse connection calls the users connected to its member, whatever signal it is on.\<close>

lemma call_reverse:
  assumes laws: "signals_laws L conns" and void: "\<And>vs. sg_combine L vs = Inr v0" and ids: "ids_ok conns (g_lib w)"
    and l: "user_only (conns (sm_signal (g_mems w m)) (g_lib w))" "sm_signal (g_mems w m) \<noteq> s"
    and c: "sm_reverse_con (g_mems w m) = Some c" "(c, sl, b) \<in> set (conns s (g_lib w))"
  shows "\<exists>r w'. call_slot L me res v0 (Suc n) v (Reverse_Slot m) w = Inr (r, w') \<and>
    emits conns res v0 v (users (conns (sm_signal (g_mems w m)) (g_lib w))) w r w'"
proof -
  let ?l = "sm_signal (g_mems w m)"
  obtain u w1 where g: "scoped_block L (Some c) w = (u, w1)" by fastforce
  note B = scoped_block_effect [OF laws ids c(2) g]
  have l1: "conns ?l (g_lib w1) = conns ?l (g_lib w)" by (rule B(6) [OF l(2)])
  obtain cs x where t: "until_throw (\<lambda>f. res f v) (users (conns ?l (g_lib w))) = (cs, x)" by fastforce
  have e: "sg_emit L (call_slot L me res v0 n v) ?l w1 = Inr (call_result v0 x, logged v cs w1)"
    using emit_user_only [OF laws void, of ?l w1 me res n v] l t by (simp add: l1)
  obtain q w2 where f: "as_future (call_result v0 x) (logged v cs w1) = (q, w2)" by fastforce
  note F = as_future_effect [OF f]
  let ?w = "scoped_unblock L u (Some c) w2"
  have c2: "conns s' (g_lib w2) = conns s' (g_lib w1)" for s' using F(1) by (simp add: logged_def)
  have ew: "emit_with L (call_slot L me res v0 n v) m w = Inr (q, ?w)"
    using c(1) g e f F(2) B(1) by (simp add: emit_with_def logged_def)
  have "\<exists>r. call_slot L me res v0 (Suc n) v (Reverse_Slot m) w = Inr (r, ?w) \<and> r = call_result v0 x"
    using ew F(4) B(10) [of w2] by (cases x) (auto simp: call_result_def wait_finish_def make_promise_value_def make_promise_def)
  moreover have "same_wiring conns w ?w" using B(7) [of w2, OF c2] B(1,8) F(2) by (simp add: same_wiring_def logged_def)
  ultimately show ?thesis using t B(2,9) F(3) by (auto simp: emits_def logged_def)
qed

section \<open>Emissions of the signals of objects\<close>

text \<open>
  A signal is wired when each of its slots is a user's or the reverse connection of a member that has
  users only on its own signal and whose recorded reverse connection is on this signal.
\<close>

definition wired :: "(ptr \<Rightarrow> 'g \<Rightarrow> conn list) \<Rightarrow> ('g, 'v) sigsys \<Rightarrow> ptr \<Rightarrow> bool" where
  "wired conns w s =
     (\<forall>e \<in> set (conns s (g_lib w)). case fst (snd e) of
        User_Slot _ \<Rightarrow> True
      | Promise_Slot _ \<Rightarrow> False
      | Reverse_Slot m \<Rightarrow>
          sm_signal (g_mems w m) \<noteq> s \<and> user_only (conns (sm_signal (g_mems w m)) (g_lib w)) \<and>
          (\<exists>c sl b. sm_reverse_con (g_mems w m) = Some c \<and> (c, sl, b) \<in> set (conns s (g_lib w))))"

text \<open>The functors of users that an emission reaches, directly or through a member, in order.\<close>

definition slot_users :: "(ptr \<Rightarrow> 'g \<Rightarrow> conn list) \<Rightarrow> ('g, 'v) sigsys \<Rightarrow> slot \<Rightarrow> nat list" where
  "slot_users conns w sl =
     (case sl of User_Slot f \<Rightarrow> [f] | Promise_Slot _ \<Rightarrow> []
      | Reverse_Slot m \<Rightarrow> users (conns (sm_signal (g_mems w m)) (g_lib w)))"

definition reached :: "(ptr \<Rightarrow> 'g \<Rightarrow> conn list) \<Rightarrow> ('g, 'v) sigsys \<Rightarrow> conn list \<Rightarrow> nat list" where
  "reached conns w es = concat (map (slot_users conns w) (active es))"

definition voided :: "'v \<Rightarrow> exn + 'a \<Rightarrow> exn + 'v" where
  "voided v0 r = (case r of Inl x \<Rightarrow> Inl x | Inr _ \<Rightarrow> Inr v0)"

lemma same_wiring_trans: "same_wiring conns w w1 \<Longrightarrow> same_wiring conns w1 w2 \<Longrightarrow> same_wiring conns w w2"
  by (simp add: same_wiring_def)

lemma same_wiring_refl [simp]: "same_wiring conns w w"
  by (simp add: same_wiring_def)

lemma emits_Nil [simp]: "emits conns res v0 v [] w (Inr v0) w"
  by (simp add: emits_def call_result_def)

lemma emits_throw: "emits conns res v0 v fs w (Inl x) w' \<Longrightarrow> emits conns res v0 v (fs @ gs) w (Inl x) w'"
  by (auto simp: emits_def call_result_def until_throw_append split: prod.splits option.splits)

lemma emits_append:
  "emits conns res v0 v fs w (Inr z) w1 \<Longrightarrow> emits conns res v0 v gs w1 r w2 \<Longrightarrow> emits conns res v0 v (fs @ gs) w r w2"
  by (auto simp: emits_def call_result_def until_throw_append Let_def split: prod.splits option.splits
      elim: same_wiring_trans)

lemma call_wired:
  assumes laws: "signals_laws L conns" and void: "\<And>vs. sg_combine L vs = Inr v0" and ids: "ids_ok conns (g_lib w)"
    and wi: "wired conns w s" and sl: "sl \<in> set (active (conns s (g_lib w)))" and same: "same_wiring conns w w1"
  shows "\<exists>r w2. call_slot L me res v0 (Suc n) v sl w1 = Inr (r, w2) \<and>
    emits conns res v0 v (slot_users conns w sl) w1 (voided v0 r) w2"
proof -
  from sl obtain d b where e: "(d, sl, b) \<in> set (conns s (g_lib w))" by (auto simp: active_def)
  show ?thesis
  proof (cases sl)
    case (User_Slot f)
    then show ?thesis
      by (auto simp: emits_def slot_users_def voided_def call_result_def same_wiring_def split: sum.split)
  next
    case (Promise_Slot p)
    with wi e show ?thesis by (fastforce simp: wired_def)
  next
    case (Reverse_Slot m)
    with wi e obtain c sl' b' where m: "sm_signal (g_mems w m) \<noteq> s" "user_only (conns (sm_signal (g_mems w m)) (g_lib w))"
      "sm_reverse_con (g_mems w m) = Some c" "(c, sl', b') \<in> set (conns s (g_lib w))" by (fastforce simp: wired_def)
    have eq: "g_mems w1 = g_mems w" "\<And>s. conns s (g_lib w1) = conns s (g_lib w)" using same by (simp_all add: same_wiring_def)
    have "ids_ok conns (g_lib w1)" by (rule ids_ok_cong [OF _ ids]) (simp add: eq)
    then obtain r w2 where "call_slot L me res v0 (Suc n) v (Reverse_Slot m) w1 = Inr (r, w2)"
      "emits conns res v0 v (users (conns (sm_signal (g_mems w m)) (g_lib w))) w1 r w2"
      using call_reverse [OF laws void, of w1 m s c sl' b' me res n v] m eq by auto
    moreover from this(2) have "voided v0 r = r" by (auto simp: emits_def call_result_def voided_def split: option.split)
    ultimately show ?thesis using Reverse_Slot by (auto simp: slot_users_def)
  qed
qed

lemma run_wired:
  assumes laws: "signals_laws L conns" and void: "\<And>vs. sg_combine L vs = Inr v0" and ids: "ids_ok conns (g_lib w)"
    and wi: "wired conns w s"
  shows "set sls \<subseteq> set (active (conns s (g_lib w))) \<Longrightarrow> same_wiring conns w w1 \<Longrightarrow>
    \<exists>q w2. run_slots (call_slot L me res v0 (Suc n) v) sls vs w1 = Inr (q, w2) \<and>
      emits conns res v0 v (concat (map (slot_users conns w) sls)) w1 (voided v0 q) w2"
proof (induction sls arbitrary: vs w1)
  case (Cons sl sls)
  obtain r w2 where c: "call_slot L me res v0 (Suc n) v sl w1 = Inr (r, w2)"
    "emits conns res v0 v (slot_users conns w sl) w1 (voided v0 r) w2"
    using call_wired [OF laws void ids wi, of sl w1 me res n v] Cons.prems by auto
  show ?case
  proof (cases r)
    case (Inl x)
    with c show ?thesis by (auto simp: voided_def intro: emits_throw)
  next
    case (Inr z)
    have s2: "same_wiring conns w w2" using c(2) Cons.prems(2) by (auto simp: emits_def elim: same_wiring_trans)
    obtain q w3 where "run_slots (call_slot L me res v0 (Suc n) v) sls (vs @ [z]) w2 = Inr (q, w3)"
      "emits conns res v0 v (concat (map (slot_users conns w) sls)) w2 (voided v0 q) w3"
      using Cons.IH [OF _ s2, of "vs @ [z]"] Cons.prems(1) by auto
    moreover have "emits conns res v0 v (slot_users conns w sl) w1 (Inr v0) w2" using c(2) Inr by (simp add: voided_def)
    ultimately show ?thesis using c(1) Inr by (auto intro: emits_append)
  qed
qed (simp add: voided_def)

lemma emit_wired:
  assumes laws: "signals_laws L conns" and void: "\<And>vs. sg_combine L vs = Inr v0" and ids: "ids_ok conns (g_lib w)"
    and wi: "wired conns w s"
  shows "\<exists>r w'. emit_signal L me res v0 (Suc n) v s w = Inr (r, w') \<and>
    emits conns res v0 v (reached conns w (conns s (g_lib w))) w r w'"
proof -
  let ?a = "active (conns s (g_lib w))" and ?c = "call_slot L me res v0 (Suc n) v"
  have "sg_emit L ?c s w = combined (sg_combine L) (run_slots ?c ?a [] w)"
  proof (rule emit_conns [OF laws, where I = "same_wiring conns w"])
    fix sl w1 r w2
    assume "sl \<in> set ?a" "same_wiring conns w w1" "?c sl w1 = Inr (r, w2)"
    with call_wired [OF laws void ids wi, of sl w1 me res n v] show "same_wiring conns w w2"
      by (auto simp: emits_def elim: same_wiring_trans)
  qed (simp_all add: same_wiring_def)
  moreover obtain q w2 where "run_slots ?c ?a [] w = Inr (q, w2)"
    "emits conns res v0 v (concat (map (slot_users conns w) ?a)) w (voided v0 q) w2"
    using run_wired [OF laws void ids wi, of ?a w me res n v "[]"] by auto
  ultimately show ?thesis
    by (cases q) (auto simp: emit_signal_def combined_def void voided_def reached_def)
qed

section \<open>The call operator of a signal member\<close>

text \<open>A member bound to the signal \<open>s\<close> of an object by the connection \<open>c\<close>.\<close>

definition bound_to :: "(ptr \<Rightarrow> 'g \<Rightarrow> conn list) \<Rightarrow> ('g, 'v) sigsys \<Rightarrow> ptr \<Rightarrow> ptr \<Rightarrow> ptr \<Rightarrow> bool" where
  "bound_to conns w m s c =
     (sm_reverse_con (g_mems w m) = Some c \<and> (c, Reverse_Slot m, False) \<in> set (conns s (g_lib w)) \<and>
      sm_delegate (g_mems w m) = Emit_Or_Throw s \<and> ids_ok conns (g_lib w) \<and> wired conns w s)"

lemma bound_own:
  assumes "bound_to conns w m s c"
  shows "user_only (conns (sm_signal (g_mems w m)) (g_lib w))" "sm_signal (g_mems w m) \<noteq> s"
  using assms by (fastforce simp: bound_to_def wired_def)+

lemma active_blocked:
  "active (map (\<lambda>(d, sl, b). (d, sl, b \<or> d = c)) es) = active (filter (\<lambda>e. fst e \<noteq> c) es)"
  by (induction es) (auto simp: active_def)

text \<open>Blocking one connection of a wired signal keeps it wired and takes that slot out of its reach.\<close>

lemma wired_blocked:
  assumes wi: "wired conns w s" and m: "g_mems w1 = g_mems w"
    and s: "conns s (g_lib w1) = map (\<lambda>(d, sl, b). (d, sl, b \<or> d = c)) (conns s (g_lib w))"
    and o: "\<And>s'. s' \<noteq> s \<Longrightarrow> conns s' (g_lib w1) = conns s' (g_lib w)"
  shows "wired conns w1 s"
    "reached conns w1 (conns s (g_lib w1)) = reached conns w (filter (\<lambda>e. fst e \<noteq> c) (conns s (g_lib w)))"
proof -
  have in1: "\<exists>b'. (d, sl, b') \<in> set (conns s (g_lib w1))" if "(d, sl, b) \<in> set (conns s (g_lib w))" for d sl b
  proof
    show "(d, sl, b \<or> d = c) \<in> set (conns s (g_lib w1))" unfolding s set_map by (rule image_eqI [OF _ that]) simp
  qed
  show "wired conns w1 s" unfolding wired_def
  proof
    fix e assume "e \<in> set (conns s (g_lib w1))"
    then obtain e' where e: "e' \<in> set (conns s (g_lib w))" "fst (snd e') = fst (snd e)" unfolding s by fastforce
    show "case fst (snd e) of User_Slot _ \<Rightarrow> True | Promise_Slot _ \<Rightarrow> False
      | Reverse_Slot m \<Rightarrow> sm_signal (g_mems w1 m) \<noteq> s \<and> user_only (conns (sm_signal (g_mems w1 m)) (g_lib w1)) \<and>
          (\<exists>c sl b. sm_reverse_con (g_mems w1 m) = Some c \<and> (c, sl, b) \<in> set (conns s (g_lib w1)))"
    proof (cases "fst (snd e)")
      case (Reverse_Slot x)
      with wi e obtain d sl b where x: "sm_signal (g_mems w x) \<noteq> s" "user_only (conns (sm_signal (g_mems w x)) (g_lib w))"
        "sm_reverse_con (g_mems w x) = Some d" "(d, sl, b) \<in> set (conns s (g_lib w))" by (fastforce simp: wired_def)
      with in1 [OF x(4)] o Reverse_Slot show ?thesis by (auto simp: m)
    next
      case (Promise_Slot p)
      with wi e show ?thesis by (auto simp: wired_def)
    qed simp
  qed
  have "slot_users conns w1 sl = slot_users conns w sl" if "sl \<in> set (active (filter (\<lambda>e. fst e \<noteq> c) (conns s (g_lib w))))" for sl
  proof -
    from that obtain e where "e \<in> set (conns s (g_lib w))" "fst (snd e) = sl" by (auto simp: active_def)
    with wi show ?thesis by (auto simp: wired_def slot_users_def m o split: slot.splits)
  qed
  then show "reached conns w1 (conns s (g_lib w1)) = reached conns w (filter (\<lambda>e. fst e \<noteq> c) (conns s (g_lib w)))"
    unfolding reached_def s active_blocked by (metis (mono_tags, lifting) map_cong)
qed

lemma more_than_one: "k < 2 ^ 31 \<Longrightarrow> (1 < to_int32 k) = (2 \<le> k)"
  by (auto simp: to_int32_small)

lemma emit_or_throw_effect:
  assumes laws: "signals_laws L conns" and void: "\<And>vs. sg_combine L vs = Inr v0" and ids: "ids_ok conns (g_lib w)"
    and wi: "wired conns w s" and n: "length (conns s (g_lib w)) < 2 ^ 31"
  shows "\<exists>r w'. emit_or_throw L me res v0 (Suc n) v s w = Inr (r, w') \<and>
    (if 2 \<le> length (conns s (g_lib w)) then emits conns res v0 v (reached conns w (conns s (g_lib w))) w r w'
     else r = Inl no_connected_slots \<and> w' = w)"
  using emit_wired [OF laws void ids wi, of me res n v] n
  by (auto simp: emit_or_throw_def lib_conns(5) [OF laws] more_than_one)

lemma member_call_own:
  assumes laws: "signals_laws L conns" and void: "\<And>vs. sg_combine L vs = Inr v0"
    and l: "user_only (conns l (g_lib w))" and n: "length (conns l (g_lib w)) < 2 ^ 31"
  shows "\<exists>r w'. call_own_slots L me res v0 k v l w = Inr (r, w') \<and>
    emits conns res v0 v (if 2 \<le> length (conns l (g_lib w)) then users (conns l (g_lib w)) else []) w r w' \<and> g_lib w' = g_lib w"
  using emit_user_only [OF laws void l, of me res k v] n
  by (auto simp: call_own_slots_def emit_signal_def lib_conns(5) [OF laws] more_than_one emits_def logged_def same_wiring_def
      call_result_def split: prod.splits)

text \<open>The slots a call of a bound member has to reach: its own, and those of the object but itself.\<close>

definition call_targets :: "(ptr \<Rightarrow> 'g \<Rightarrow> conn list) \<Rightarrow> ('g, 'v) sigsys \<Rightarrow> ptr \<Rightarrow> ptr \<Rightarrow> ptr \<Rightarrow> nat list" where
  "call_targets conns w m s c =
     (let own = conns (sm_signal (g_mems w m)) (g_lib w); obj = conns s (g_lib w) in
      (if 2 \<le> length own then users own else []) @
      (if 2 \<le> length obj then reached conns w (filter (\<lambda>e. fst e \<noteq> c) obj) else []))"

text \<open>The delegate of a bound member, called with the reverse connection blocked.\<close>

lemma delegate_effect:
  assumes laws: "signals_laws L conns" and void: "\<And>vs. sg_combine L vs = Inr v0" and b: "bound_to conns w m s c"
    and n: "length (conns s (g_lib w)) < 2 ^ 31" and g: "scoped_block L (Some c) w = (u, w1)"
    and w2: "g_mems w2 = g_mems w1" "g_lib w2 = g_lib w1"
  shows "\<exists>r w3. call_delegate L me res v0 (Suc k) v (sm_delegate (g_mems w2 m)) w2 = Inr (r, w3) \<and>
    same_wiring conns w1 w3 \<and>
    (if 2 \<le> length (conns s (g_lib w)) then emits conns res v0 v (reached conns w (filter (\<lambda>e. fst e \<noteq> c) (conns s (g_lib w)))) w2 r w3
     else r = Inl no_connected_slots \<and> w3 = w2)"
proof -
  have c: "(c, Reverse_Slot m, False) \<in> set (conns s (g_lib w))" and ids: "ids_ok conns (g_lib w)"
    and wi: "wired conns w s" and d: "sm_delegate (g_mems w m) = Emit_Or_Throw s" using b by (simp_all add: bound_to_def)
  note B = scoped_block_effect [OF laws ids c g]
  have "g_mems w2 = g_mems w" "conns s (g_lib w2) = map (\<lambda>(d, sl, b). (d, sl, b \<or> d = c)) (conns s (g_lib w))"
    "\<And>s'. s' \<noteq> s \<Longrightarrow> conns s' (g_lib w2) = conns s' (g_lib w)" using B(1,5,6) by (simp_all only: w2)
  note W = wired_blocked [OF wi this]
  have len: "length (conns s (g_lib w2)) = length (conns s (g_lib w))" unfolding w2(2) B(5) by simp
  obtain r w3 where "emit_or_throw L me res v0 (Suc k) v s w2 = Inr (r, w3)"
    "if 2 \<le> length (conns s (g_lib w2)) then emits conns res v0 v (reached conns w2 (conns s (g_lib w2))) w2 r w3
     else r = Inl no_connected_slots \<and> w3 = w2"
    using emit_or_throw_effect [OF laws void _ W(1), of me res k v] B(4) w2(2) n len by auto
  moreover from this(2) have "same_wiring conns w1 w3"
    using w2 by (auto simp: emits_def same_wiring_def split: if_splits)
  ultimately show ?thesis using d w2(1) B(1) W(2) len by (intro exI [of _ r] exI [of _ w3]) (auto simp: call_delegate_def)
qed

text \<open>Leaving the call operator: the future is made and the guard is undone.\<close>

lemma leave_call:
  assumes laws: "signals_laws L conns" and b: "bound_to conns w m s c" and g: "scoped_block L (Some c) w = (u, w1)"
    and same: "same_wiring conns w1 w3" and f: "as_future r w3 = (q, w4)"
  shows "same_wiring conns w (scoped_unblock L u (sm_reverse_con (g_mems w4 m)) w4)"
    "g_calls (scoped_unblock L u (sm_reverse_con (g_mems w4 m)) w4) = g_calls w3"
    "g_sys (scoped_unblock L u (sm_reverse_con (g_mems w4 m)) w4) = g_sys w4"
proof -
  have c: "(c, Reverse_Slot m, False) \<in> set (conns s (g_lib w))" and ids: "ids_ok conns (g_lib w)"
    and rc: "sm_reverse_con (g_mems w m) = Some c" using b by (simp_all add: bound_to_def)
  note B = scoped_block_effect [OF laws ids c g] and F = as_future_effect [OF f]
  have m4: "g_mems w4 = g_mems w" using F(2) same B(1) by (simp add: same_wiring_def)
  have c4: "conns s' (g_lib w4) = conns s' (g_lib w1)" for s' using F(1) same by (simp add: same_wiring_def)
  show "same_wiring conns w (scoped_unblock L u (sm_reverse_con (g_mems w4 m)) w4)"
    using B(7) [of w4, OF c4] B(8) m4 rc by (simp add: same_wiring_def)
  show "g_calls (scoped_unblock L u (sm_reverse_con (g_mems w4 m)) w4) = g_calls w3"
    "g_sys (scoped_unblock L u (sm_reverse_con (g_mems w4 m)) w4) = g_sys w4"
    using B(9,10) F(3) m4 rc by simp_all
qed

text \<open>How a call of the operator ends, as the caller sees it.\<close>

definition call_outcome :: "exn option \<Rightarrow> bool \<Rightarrow> exn + pptr \<Rightarrow> ('g, 'v) sigsys \<Rightarrow> bool" where
  "call_outcome x listeners r w =
     (case x of
        Some e \<Rightarrow> r = Inl e
      | None \<Rightarrow> if listeners then \<exists>p. r = Inr p \<and> promise_ready (s_proms (g_sys w) p) else r = Inl no_connected_slots)"

lemma as_future_outcome:
  assumes "as_future r w = (q, w')"
  shows "r = Inl x \<Longrightarrow> q = Inl x" "r = Inr v \<Longrightarrow> \<exists>p. q = Inr p \<and> promise_ready (s_proms (g_sys w') p)"
  using as_future_effect(4) [OF assms] by (auto simp: promise_ready_def make_promise_value_def)

lemma member_call_core:
  assumes laws: "signals_laws L conns" and void: "\<And>vs. sg_combine L vs = Inr v0" and b: "bound_to conns w m s c"
    and n: "length (conns s (g_lib w)) < 2 ^ 31" "length (conns (sm_signal (g_mems w m)) (g_lib w)) < 2 ^ 31"
  shows "\<exists>r w'. member_call_here L me res v0 (Suc k) v m w = Inr (r, w') \<and> same_wiring conns w w' \<and>
    g_calls w' = g_calls w @ map (\<lambda>f. (f, v)) (fst (until_throw (\<lambda>f. res f v) (call_targets conns w m s c))) \<and>
    call_outcome (snd (until_throw (\<lambda>f. res f v) (call_targets conns w m s c))) (2 \<le> length (conns s (g_lib w))) r w'"
proof -
  let ?l = "sm_signal (g_mems w m)" and ?many = "2 \<le> length (conns s (g_lib w))"
  define own where "own = (if 2 \<le> length (conns ?l (g_lib w)) then users (conns ?l (g_lib w)) else [])"
  define others where "others = (if ?many then reached conns w (filter (\<lambda>e. fst e \<noteq> c) (conns s (g_lib w))) else [])"
  have T: "call_targets conns w m s c = own @ others" by (simp add: call_targets_def own_def others_def Let_def)
  have rc: "sm_reverse_con (g_mems w m) = Some c" and c: "(c, Reverse_Slot m, False) \<in> set (conns s (g_lib w))"
    and ids: "ids_ok conns (g_lib w)" using b by (simp_all add: bound_to_def)
  obtain u w1 where g: "scoped_block L (Some c) w = (u, w1)" by fastforce
  note B = scoped_block_effect [OF laws ids c g]
  have l1: "conns ?l (g_lib w1) = conns ?l (g_lib w)" by (rule B(6) [OF bound_own(2) [OF b]])
  obtain r2 w2 where O: "call_own_slots L me res v0 (Suc k) v ?l w1 = Inr (r2, w2)" "emits conns res v0 v own w1 r2 w2" "g_lib w2 = g_lib w1"
    using member_call_own [OF laws void, of ?l w1 me res "Suc k" v] bound_own(1) [OF b] n(2) unfolding l1 own_def by blast
  have m2: "g_mems w2 = g_mems w1" using O(2) by (simp add: emits_def same_wiring_def)
  show ?thesis
  proof (cases r2)
    case (Inl x)
    let ?w = "scoped_unblock L u (sm_reverse_con (g_mems w2 m)) w2"
    have f: "as_future (Inl x) w2 = (Inl x, w2)" by (simp add: as_future_def)
    have "member_call_here L me res v0 (Suc k) v m w = Inr (Inl x, ?w)"
      using rc g O(1) Inl B(1) f by (simp add: member_call_here_def Let_def)
    moreover have "emits conns res v0 v (own @ others) w1 (Inl x) w2" using O(2) Inl by (auto intro: emits_throw)
    moreover have "same_wiring conns w1 w2" using O(2) by (simp add: emits_def)
    ultimately show ?thesis using leave_call [OF laws b g _ f] B(2) unfolding T
      by (auto simp: emits_def call_outcome_def call_result_def split: option.splits)
  next
    case (Inr z)
    obtain r3 w3 where D: "call_delegate L me res v0 (Suc k) v (sm_delegate (g_mems w2 m)) w2 = Inr (r3, w3)"
      "same_wiring conns w1 w3"
      "if ?many then emits conns res v0 v (reached conns w (filter (\<lambda>e. fst e \<noteq> c) (conns s (g_lib w)))) w2 r3 w3
       else r3 = Inl no_connected_slots \<and> w3 = w2"
      using delegate_effect [OF laws void b n(1) g m2 O(3), of me res k v] by auto
    obtain q w4 where f: "as_future r3 w3 = (q, w4)" by fastforce
    let ?w = "scoped_unblock L u (sm_reverse_con (g_mems w4 m)) w4"
    have "member_call_here L me res v0 (Suc k) v m w = Inr (q, ?w)"
      using rc g O(1) Inr B(1) D(1) f by (simp add: member_call_here_def Let_def)
    moreover have "emits conns res v0 v (own @ others) w1 (if ?many then r3 else Inr v0) w3"
      by (rule emits_append [OF O(2) [unfolded Inr]]) (use D(3) in \<open>auto simp: others_def\<close>)
    ultimately show ?thesis using leave_call [OF laws b g D(2) f] as_future_outcome [OF f] B(2) D(3) unfolding T
      by (auto simp: emits_def call_outcome_def call_result_def split: option.splits if_splits)
  qed
qed

section \<open>Calls and emissions reach the subscribers\<close>

text \<open>
  Signals for the examples: the object's signal is 7, the own signal of member \<open>m\<close> is \<open>100 + m\<close>; in
  \<open>demo_bound\<close> member 0, of an actor of thread 0, is bound to signal 7, to which the functor 30 is
  connected as well, and the functors \<open>fs\<close> are connected to the member.
\<close>

definition demo_signals :: "'v sys \<Rightarrow> (demo_state, 'v) sigsys" where
  "demo_signals sy =
     \<lparr>g_lib = [], g_mems = (\<lambda>m. \<lparr>sm_actor = None, sm_connect_delegate = None, sm_delegate = No_Delegate,
        sm_reverse_con = None, sm_signal = 100 + m\<rparr>), g_calls = [], g_counts = [], g_sys = sy\<rparr>"

definition demo_bound :: "demo_state \<Rightarrow> (demo_state, nat) sigsys" where
  "demo_bound own =
     (upd_mem 0 (\<lambda>mb. mb\<lparr>sm_actor := Some 0, sm_delegate := Emit_Or_Throw 7, sm_reverse_con := Some 1\<rparr>) (demo_signals init_sys))
       \<lparr>g_lib := [(7, 1, Reverse_Slot 0, False), (7, 2, User_Slot 30, False)] @ own\<rparr>"

lemmas demo_signal_defs = demo_signals_def demo_bound_def upd_mem_def demo_conns_def

lemma demo_void: "\<forall>vs. sg_combine (demo_lib v0) vs = Inr v0"
  by (simp add: demo_lib_def)

lemma demo_bound_ok:
  "bound_to demo_conns (demo_bound [(100, 3, User_Slot 10, False), (100, 4, User_Slot 20, False)]) 0 7 1"
  "bound_to demo_conns (demo_bound [(100, 3, User_Slot 10, False)]) 0 7 1"
  by (auto simp: bound_to_def ids_ok_def wired_def user_only_def demo_signal_defs)

text \<open>
  C16.  A signal member called on another thread than that of its actor calls nothing there: it posts
  itself to the thread of the actor and returns the future of that task.  Called on the thread of its
  actor (or without an actor), it calls the functors connected to it if there are at least two of
  them (a single one is left out, see \<open>single_subscriber_skipped\<close>), and then those connected to the
  signal of the object, itself left out; each once and in the order of connection, up to the first
  that throws, whose exception the caller gets.  If nothing but the member is connected to the object
  the caller gets \<open>no_connected_slots\<close>, otherwise a future that is ready.  On every way out the
  connections are as they were before, the blocked one included.
\<close>

theorem signal_member_call:
  assumes "signals_laws L conns" and "\<forall>vs. sg_combine L vs = Inr v0" and "bound_to conns w m s c"
    and "length (conns s (g_lib w)) < 2 ^ 31" and "length (conns (sm_signal (g_mems w m)) (g_lib w)) < 2 ^ 31"
  shows "(\<forall>ab. sm_actor (g_mems w m) = Some ab \<and> ab_thread (as ab) \<noteq> me \<longrightarrow>
      (\<exists>p sy. async_result (ab_thread (as ab)) (User_Fun k) default_priority [] (g_sys w) = (p, sy) \<and>
        member_call L as me res v0 (Suc n) k v m w = Inr (Inr p, w\<lparr>g_sys := sy\<rparr>))) \<and>
    ((\<forall>ab. sm_actor (g_mems w m) = Some ab \<longrightarrow> ab_thread (as ab) = me) \<longrightarrow>
      (\<exists>r w'. member_call L as me res v0 (Suc n) k v m w = Inr (r, w') \<and> same_wiring conns w w' \<and>
        g_calls w' = g_calls w @ map (\<lambda>f. (f, v)) (fst (until_throw (\<lambda>f. res f v) (call_targets conns w m s c))) \<and>
        call_outcome (snd (until_throw (\<lambda>f. res f v) (call_targets conns w m s c))) (2 \<le> length (conns s (g_lib w))) r w'))"
  using member_call_core [OF assms(1) assms(2) [rule_format] assms(3-5), of me res n v]
  by (auto simp: member_call_def split: option.split prod.split)

theorem signal_member_call_witness:
  "(\<exists>r w'. member_call (demo_lib 0) (\<lambda>_. \<lparr>ab_thread = 0\<rparr>) 0 (\<lambda>f v. Inr v) 0 1 5 42 0
      (demo_bound [(100, 3, User_Slot 10, False), (100, 4, User_Slot 20, False)]) = Inr (r, w') \<and>
    g_calls w' = [(10, 42), (20, 42), (30, 42)] \<and> (\<exists>p. r = Inr p)) \<and>
   (\<exists>p w'. member_call (demo_lib 0) (\<lambda>_. \<lparr>ab_thread = 0\<rparr>) 3 (\<lambda>f v. Inr v) 0 1 5 42 0
      (demo_bound [(100, 3, User_Slot 10, False), (100, 4, User_Slot 20, False)]) = Inr (Inr p, w') \<and> g_calls w' = [])"
proof
  show "\<exists>r w'. member_call (demo_lib 0) (\<lambda>_. \<lparr>ab_thread = 0\<rparr>) 0 (\<lambda>f v. Inr v) 0 1 5 42 0
      (demo_bound [(100, 3, User_Slot 10, False), (100, 4, User_Slot 20, False)]) = Inr (r, w') \<and>
    g_calls w' = [(10, 42), (20, 42), (30, 42)] \<and> (\<exists>p. r = Inr p)"
    using signal_member_call [OF demo_lib_laws demo_void demo_bound_ok(1), where as = "\<lambda>_. \<lparr>ab_thread = 0\<rparr>"
        and res = "\<lambda>f v. Inr v" and v = 42 and n = 0 and k = 5 and me = 0]
    by (fastforce simp: demo_signal_defs call_targets_def reached_def active_def users_def slot_users_def
        List.map_filter_simps call_outcome_def)
  show "\<exists>p w'. member_call (demo_lib 0) (\<lambda>_. \<lparr>ab_thread = 0\<rparr>) 3 (\<lambda>f v. Inr v) 0 1 5 42 0
      (demo_bound [(100, 3, User_Slot 10, False), (100, 4, User_Slot 20, False)]) = Inr (Inr p, w') \<and> g_calls w' = []"
    using signal_member_call [OF demo_lib_laws demo_void demo_bound_ok(1), where as = "\<lambda>_. \<lparr>ab_thread = 0\<rparr>"
        and res = "\<lambda>f v. Inr v" and v = 42 and n = 0 and k = 5 and me = 3]
    by (fastforce simp: demo_signal_defs)
qed

text \<open>
  C34.  The only subscriber of a signal member is not called: the count that decides whether the
  member's own slots are called takes off one for the reverse connection, which is not among them
  but on the signal of the object.
\<close>

theorem single_subscriber_skipped:
  assumes "signals_laws L conns" and "\<forall>vs. sg_combine L vs = Inr v0" and "bound_to conns w m s c"
    and "conns (sm_signal (g_mems w m)) (g_lib w) = [(d, User_Slot f, False)]"
    and "conns s (g_lib w) = [(c, Reverse_Slot m, False), (e, User_Slot h, False)]"
    and "res h v = Inr z" and "sm_actor (g_mems w m) = Some ab" and "ab_thread (as ab) = me"
  shows "\<exists>p w'. member_call L as me res v0 (Suc n) k v m w = Inr (Inr p, w') \<and> g_calls w' = g_calls w @ [(h, v)]"
proof -
  have ne: "e \<noteq> c" using assms(3,5) by (auto simp: bound_to_def ids_ok_def dest: spec [of _ s])
  have t: "call_targets conns w m s c = [h]"
    using assms(4,5) ne by (simp add: call_targets_def reached_def active_def slot_users_def)
  show ?thesis
    using member_call_core [OF assms(1) assms(2) [rule_format] assms(3), of me res n v] assms(4-8)
    by (auto simp: member_call_def t call_outcome_def)
qed

theorem single_subscriber_skipped_witness:
  "\<exists>p w'. member_call (demo_lib 0) (\<lambda>_. \<lparr>ab_thread = 0\<rparr>) 0 (\<lambda>f v. Inr v) 0 1 5 42 0
      (demo_bound [(100, 3, User_Slot 10, False)]) = Inr (Inr p, w') \<and> g_calls w' = [(30, 42)]"
  using single_subscriber_skipped [OF demo_lib_laws demo_void demo_bound_ok(2), where as = "\<lambda>_. \<lparr>ab_thread = 0\<rparr>"
      and res = "\<lambda>f v. Inr v" and v = 42 and n = 0 and k = 5 and d = 3 and f = 10 and e = 2 and h = 30 and z = 42]
  by (simp add: demo_signal_defs)

text \<open>
  C19.  When an object emits its signal, the functors connected to the signal and those connected to
  any member bound to it are all called, in the order of connection and with the arguments of the
  emission, as long as none throws; in particular every unblocked subscriber of a bound member.
\<close>

theorem signal_reaches_subscribers:
  assumes "signals_laws L conns" and "\<forall>vs. sg_combine L vs = Inr v0" and "bound_to conns w m s c"
    and "\<forall>f \<in> set (reached conns w (conns s (g_lib w))). \<exists>z. res f v = Inr z"
  shows "\<exists>w'. emit_signal L me res v0 (Suc n) v s w = Inr (Inr v0, w') \<and> same_wiring conns w w' \<and>
    g_calls w' = g_calls w @ map (\<lambda>f. (f, v)) (reached conns w (conns s (g_lib w))) \<and>
    set (users (conns (sm_signal (g_mems w m)) (g_lib w))) \<subseteq> set (reached conns w (conns s (g_lib w)))"
proof -
  have b: "ids_ok conns (g_lib w)" "wired conns w s" "(c, Reverse_Slot m, False) \<in> set (conns s (g_lib w))"
    using assms(3) by (simp_all add: bound_to_def)
  obtain r w' where "emit_signal L me res v0 (Suc n) v s w = Inr (r, w')"
    "emits conns res v0 v (reached conns w (conns s (g_lib w))) w r w'"
    using emit_wired [OF assms(1) assms(2) [rule_format] b(1,2), of me res n v] by blast
  moreover have "until_throw (\<lambda>f. res f v) (reached conns w (conns s (g_lib w))) = (reached conns w (conns s (g_lib w)), None)"
    using assms(4) by (intro until_throw_all) blast
  moreover have "Reverse_Slot m \<in> set (active (conns s (g_lib w)))" using b(3) by (force simp: active_def)
  then have "set (slot_users conns w (Reverse_Slot m)) \<subseteq> set (reached conns w (conns s (g_lib w)))"
    by (auto simp: reached_def)
  ultimately show ?thesis by (auto simp: emits_def call_result_def slot_users_def)
qed

theorem signal_reaches_subscribers_witness:
  "\<exists>w'. emit_signal (demo_lib 0) 0 (\<lambda>f v. Inr v) 0 1 42 7 (demo_bound [(100, 3, User_Slot 10, False)]) = Inr (Inr 0, w') \<and>
    g_calls w' = [(10, 42), (30, 42)]"
  using signal_reaches_subscribers [OF demo_lib_laws demo_void demo_bound_ok(2), of "\<lambda>f v. Inr v" 42 0 0]
  by (auto simp: demo_signal_defs reached_def active_def users_def slot_users_def List.map_filter_simps)

end
