(* ===== verification/CMT_Signal_Wiring.thy ===== *)
theory CMT_Signal_Wiring
  imports CMT_Signal_Props CMT_Roundtrip
begin

text \<open>
  The connections of signal members over time: what binding a member and connecting to it do, which
  slots refer to a member after any history of operations, and waiting for a signal from its
  beginning to its end.
\<close>

section \<open>Connections and their identities\<close>

lemma ids_ok_connect:
  assumes "signals_laws L conns" and "sg_connect L s sl g = (c, g')" and "ids_ok conns g"
  shows "ids_ok conns g'"
proof -
  note C = connect_conns [OF assms(1,2)]
  have "distinct (map fst (conns s' g'))" for s' using assms(3) C(2) [of s] by (simp add: C(1) ids_ok_def)
  moreover have "fst ` set (conns s1 g') \<inter> fst ` set (conns s2 g') = {}" if "s1 \<noteq> s2" for s1 s2
  proof -
    have "fst ` set (conns s1 g) \<inter> fst ` set (conns s2 g) = {}" using assms(3) that unfolding ids_ok_def by blast
    then show ?thesis using that C(2) [of s1] C(2) [of s2] by (auto simp: C(1))
  qed
  ultimately show ?thesis by (simp add: ids_ok_def)
qed

lemma ids_ok_sub:
  assumes "ids_ok conns g" and "\<And>s. \<exists>P. conns s g' = filter P (conns s g)"
  shows "ids_ok conns g'"
proof -
  have d: "distinct (map fst (conns s g'))" for s
  proof -
    obtain P where "conns s g' = filter P (conns s g)" using assms(2) by blast
    with assms(1) show ?thesis by (simp add: ids_ok_def distinct_map_filter)
  qed
  have sub: "set (conns s g') \<subseteq> set (conns s g)" for s using assms(2) [of s] by auto
  have "fst ` set (conns s1 g') \<inter> fst ` set (conns s2 g') = {}" if "s1 \<noteq> s2" for s1 s2
  proof -
    have "fst ` set (conns s1 g) \<inter> fst ` set (conns s2 g) = {}" using assms(1) that unfolding ids_ok_def by blast
    then show ?thesis using image_mono [OF sub, of fst s1] image_mono [OF sub, of fst s2] by blast
  qed
  with d show ?thesis by (simp add: ids_ok_def)
qed

text \<open>What binding a member to the signal \<open>s\<close> does; \<open>c\<close> is the new reverse connection.\<close>

definition delegate_set :: "(ptr \<Rightarrow> 'g \<Rightarrow> conn list) \<Rightarrow> ptr \<Rightarrow> ptr \<Rightarrow> ptr \<Rightarrow> ptr \<Rightarrow> ('g, 'v) sigsys \<Rightarrow> ('g, 'v) sigsys \<Rightarrow> bool" where
  "delegate_set conns s ab m c w w' =
     ((\<forall>s'. conns s' (g_lib w') =
         (if s' = sm_signal (g_mems w m) then []
          else if s' = s then conns s (g_lib w) @ [(c, Reverse_Slot m, False)] else conns s' (g_lib w))) \<and>
      g_mems w' = (g_mems w)(m := (g_mems w m)\<lparr>sm_actor := Some ab, sm_reverse_con := Some c, sm_delegate := Emit_Or_Throw s\<rparr>) \<and>
      g_calls w' = g_calls w \<and> (ids_ok conns (g_lib w) \<longrightarrow> ids_ok conns (g_lib w')))"

lemma set_delegate_effect:
  assumes laws: "signals_laws L conns" and s: "sm_signal (g_mems w m) \<noteq> s"
  shows "\<exists>c. delegate_set conns s ab m c w (set_signal_delegate L s ab m w)"
proof -
  let ?l = "sm_signal (g_mems w m)" let ?g = "sg_disconnect_all L ?l (g_lib w)"
  obtain c g' where C: "sg_connect L s (Reverse_Slot m) ?g = (c, g')" by fastforce
  have w': "g_lib (set_signal_delegate L s ab m w) = g'" "g_calls (set_signal_delegate L s ab m w) = g_calls w"
    "g_mems (set_signal_delegate L s ab m w) =
       (g_mems w)(m := (g_mems w m)\<lparr>sm_actor := Some ab, sm_reverse_con := Some c, sm_delegate := Emit_Or_Throw s\<rparr>)"
    using C by (simp_all add: set_signal_delegate_def upd_mem_def on_lib_def)
  note D = lib_conns(2) [OF laws, of _ ?l "g_lib w"]
  have "\<exists>P. conns s' ?g = filter P (conns s' (g_lib w))" for s'
    unfolding D by (rule exI [of _ "\<lambda>_. s' \<noteq> ?l"]) simp
  then have "ids_ok conns g'" if "ids_ok conns (g_lib w)"
    by (rule ids_ok_connect [OF laws C ids_ok_sub [OF that]])
  moreover have "conns s' g' = (if s' = ?l then []
      else if s' = s then conns s (g_lib w) @ [(c, Reverse_Slot m, False)] else conns s' (g_lib w))" for s'
    unfolding connect_conns(1) [OF laws C] D using s by simp
  ultimately show ?thesis unfolding delegate_set_def w' by blast
qed

lemma member_connect_effect:
  assumes laws: "signals_laws L conns" and C: "member_connect L cres f m w = (r, w')"
  obtains c where
    "\<And>s'. conns s' (g_lib w') = (if s' = sm_signal (g_mems w m) then conns s' (g_lib w) @ [(c, User_Slot f, False)] else conns s' (g_lib w))"
    "g_mems w' = g_mems w" "g_calls w' = g_calls w" "ids_ok conns (g_lib w) \<Longrightarrow> ids_ok conns (g_lib w')"
proof -
  obtain c g' where S: "sg_connect L (sm_signal (g_mems w m)) (User_Slot f) (g_lib w) = (c, g')" by fastforce
  have w': "g_lib w' = g'" "g_mems w' = g_mems w" "g_calls w' = g_calls w"
    using C S by (auto simp: member_connect_def tell_count_def Let_def split: prod.splits option.splits)
  show thesis
    by (rule that [of c]) (use w' connect_conns(1) [OF laws S] ids_ok_connect [OF laws S] in auto)
qed

text \<open>
  C35.  Binding a member to a signal a second time leaves the first reverse connection in place, out of
  reach of the member: from then on each subscriber of the member is called twice for every
  emission.
\<close>

theorem set_delegate_twice_duplicates:
  assumes laws: "signals_laws L conns" and void: "\<forall>vs. sg_combine L vs = Inr v0" and ids: "ids_ok conns (g_lib w)"
    and s: "sm_signal (g_mems w m) \<noteq> s" and empty: "conns s (g_lib w) = []"
    and C: "member_connect L cres f m (set_signal_delegate L s ab m (set_signal_delegate L s ab m w)) = (r, w')"
    and f: "res f v = Inr z"
  shows "\<exists>w''. emit_signal L me res v0 (Suc n) v s w' = Inr (Inr v0, w'') \<and> g_calls w'' = g_calls w' @ [(f, v), (f, v)]"
proof -
  let ?l = "sm_signal (g_mems w m)" and ?w1 = "set_signal_delegate L s ab m w"
  let ?w2 = "set_signal_delegate L s ab m ?w1"
  obtain c1 where "delegate_set conns s ab m c1 w ?w1" using set_delegate_effect [OF laws s] by blast
  then have E1: "\<And>s'. conns s' (g_lib ?w1) = (if s' = ?l then [] else if s' = s then [(c1, Reverse_Slot m, False)] else conns s' (g_lib w))"
    "sm_signal (g_mems ?w1 m) = ?l" "ids_ok conns (g_lib ?w1)" using ids empty by (simp_all add: delegate_set_def)
  obtain c2 where "delegate_set conns s ab m c2 ?w1 ?w2" using set_delegate_effect [OF laws, of ?w1 m s] E1(2) s by auto
  then have E2: "\<And>s'. conns s' (g_lib ?w2) = (if s' = ?l then [] else if s' = s then [(c1, Reverse_Slot m, False), (c2, Reverse_Slot m, False)] else conns s' (g_lib w))"
    "sm_signal (g_mems ?w2 m) = ?l" "sm_reverse_con (g_mems ?w2 m) = Some c2" "ids_ok conns (g_lib ?w2)"
    using E1 s by (simp_all add: delegate_set_def)
  obtain d where E3: "\<And>s'. conns s' (g_lib w') = (if s' = ?l then [(d, User_Slot f, False)] else conns s' (g_lib ?w2))"
    "g_mems w' = g_mems ?w2" "ids_ok conns (g_lib w')"
    using member_connect_effect [OF laws C] E2 by (metis append_Nil)
  have cs: "conns s (g_lib w') = [(c1, Reverse_Slot m, False), (c2, Reverse_Slot m, False)]" "conns ?l (g_lib w') = [(d, User_Slot f, False)]"
    using E3(1) E2(1) s by simp_all
  have "wired conns w' s" using E2(2,3) E3(2) s by (auto simp: wired_def cs user_only_def)
  moreover have "reached conns w' (conns s (g_lib w')) = [f, f]"
    using E2(2) E3(2) by (simp add: reached_def active_def slot_users_def users_def List.map_filter_simps cs)
  ultimately show ?thesis
    using emit_wired [OF laws void [rule_format] E3(3), of s me res n v] f by (auto simp: emits_def call_result_def)
qed

theorem set_delegate_twice_duplicates_witness:
  "\<exists>w' w''. snd (member_connect (demo_lib 0) (\<lambda>_ _. None) 10 0
      (set_signal_delegate (demo_lib 0) 7 0 0 (set_signal_delegate (demo_lib 0) 7 0 0 (demo_signals init_sys)))) = w' \<and>
    emit_signal (demo_lib 0) 0 (\<lambda>f v. Inr v) 0 1 42 7 w' = Inr (Inr (0 :: nat), w'') \<and>
    drop (length (g_calls w')) (g_calls w'') = [(10, 42), (10, 42)]"
proof -
  let ?w2 = "set_signal_delegate (demo_lib 0) 7 0 0 (set_signal_delegate (demo_lib 0) 7 0 0 (demo_signals (init_sys :: nat sys)))"
  obtain r w' where C: "member_connect (demo_lib 0) (\<lambda>_ _. None) 10 0 ?w2 = (r, w')" by fastforce
  have "ids_ok demo_conns (g_lib (demo_signals (init_sys :: nat sys)))" "sm_signal (g_mems (demo_signals (init_sys :: nat sys)) 0) \<noteq> 7"
    "demo_conns 7 (g_lib (demo_signals (init_sys :: nat sys))) = []"
    by (simp_all add: demo_signal_defs ids_ok_def)
  with C set_delegate_twice_duplicates [OF demo_lib_laws demo_void _ _ _ C, of "\<lambda>f v. Inr v" 42 42 0 0] show ?thesis
    by fastforce
qed

section \<open>Members and signals over time\<close>

text \<open>
  What happens to signals, in any order: the operations of members; users connecting to a signal,
  waiting for it, cutting a connection; the blocking and unblocking of a connection by a guard.
\<close>

datatype sig_event =
    Sv_Connect nat ptr
  | Sv_Disconnect ptr ptr
  | Sv_Set_Delegate ptr ptr ptr
  | Sv_Assign nat ptr
  | Sv_Set_Connect_Delegate nat ptr
  | Sv_Destroy ptr
  | Sv_User_Connects ptr nat
  | Sv_Wait ptr
  | Sv_Cut ptr
  | Sv_Block ptr
  | Sv_Unblock ptr

fun sig_exec :: "('g, 'v) signal_lib \<Rightarrow> (nat \<Rightarrow> int \<Rightarrow> exn option) \<Rightarrow> sig_event \<Rightarrow> ('g, 'v) sigsys \<Rightarrow> ('g, 'v) sigsys" where
  "sig_exec L cres (Sv_Connect f m) w = snd (member_connect L cres f m w)"
| "sig_exec L cres (Sv_Disconnect c m) w = snd (member_disconnect L cres c m w)"
| "sig_exec L cres (Sv_Set_Delegate s ab m) w = set_signal_delegate L s ab m w"
| "sig_exec L cres (Sv_Assign f m) w = member_assign f m w"
| "sig_exec L cres (Sv_Set_Connect_Delegate f m) w = set_connect_delegate f m w"
| "sig_exec L cres (Sv_Destroy m) w = member_destroy L m w"
| "sig_exec L cres (Sv_User_Connects s f) w = on_lib (\<lambda>g. snd (sg_connect L s (User_Slot f) g)) w"
| "sig_exec L cres (Sv_Wait s) w = snd (snd (signal_wait_connect L s w))"
| "sig_exec L cres (Sv_Cut c) w = on_lib (sg_disconnect L c) w"
| "sig_exec L cres (Sv_Block c) w = on_lib (sg_block L c) w"
| "sig_exec L cres (Sv_Unblock c) w = on_lib (sg_unblock L c) w"

definition sig_run :: "('g, 'v) signal_lib \<Rightarrow> (nat \<Rightarrow> int \<Rightarrow> exn option) \<Rightarrow> sig_event list \<Rightarrow> ('g, 'v) sigsys \<Rightarrow> ('g, 'v) sigsys" where
  "sig_run L cres es w = fold (sig_exec L cres) es w"

text \<open>Binding the member \<open>m\<close>, and how often a history does it.\<close>

definition binds :: "ptr \<Rightarrow> sig_event \<Rightarrow> bool" where
  "binds m e = (case e of Sv_Set_Delegate s ab m' \<Rightarrow> m' = m | _ \<Rightarrow> False)"

definition bindings :: "ptr \<Rightarrow> sig_event list \<Rightarrow> nat" where
  "bindings m es = length (filter (binds m) es)"

text \<open>Every slot that refers to the member is the reverse connection that it records.\<close>

definition recorded :: "(ptr \<Rightarrow> 'g \<Rightarrow> conn list) \<Rightarrow> ptr \<Rightarrow> ('g, 'v) sigsys \<Rightarrow> bool" where
  "recorded conns m w =
     (\<forall>s d b. (d, Reverse_Slot m, b) \<in> set (conns s (g_lib w)) \<longrightarrow> sm_reverse_con (g_mems w m) = Some d)"

lemma recorded_none:
  assumes "sm_reverse_con (g_mems w m) = None"
  shows "recorded conns m w \<longleftrightarrow> (\<forall>s d b. (d, Reverse_Slot m, b) \<notin> set (conns s (g_lib w)))"
  using assms by (auto simp: recorded_def)

lemma recorded_sub:
  assumes "recorded conns m w" and "sm_reverse_con (g_mems w' m) = sm_reverse_con (g_mems w m)"
    and "\<And>s d b. (d, Reverse_Slot m, b) \<in> set (conns s (g_lib w')) \<Longrightarrow> \<exists>s' b'. (d, Reverse_Slot m, b') \<in> set (conns s' (g_lib w))"
  shows "recorded conns m w'"
  using assms unfolding recorded_def by metis

text \<open>A new connection; only that of a binding refers to a member.\<close>

lemma recorded_connect:
  assumes laws: "signals_laws L conns" and "recorded conns m w" and "sl \<noteq> Reverse_Slot m"
    and "sg_connect L s sl (g_lib w) = (c, g_lib w')" and "sm_reverse_con (g_mems w' m) = sm_reverse_con (g_mems w m)"
  shows "recorded conns m w'"
  using assms(3) connect_conns(1) [OF laws assms(4)]
  by (intro recorded_sub [OF assms(2,5)]) (auto split: if_splits)

lemma member_destroy_effect:
  assumes "signals_laws L conns"
  shows "conns s (g_lib (member_destroy L m w)) =
      filter (\<lambda>e. s \<noteq> sm_signal (g_mems w m) \<and> Some (fst e) \<noteq> sm_reverse_con (g_mems w m)) (conns s (g_lib w))"
    "g_mems (member_destroy L m w) = g_mems w"
  by (auto simp: member_destroy_def Let_def lib_conns [OF assms] split: option.split)

text \<open>The effect of a binding on the connections, whatever the signal is.\<close>

lemma bind_effect:
  assumes laws: "signals_laws L conns"
  obtains c where
    "\<And>s'. conns s' (g_lib (set_signal_delegate L s ab m w)) =
       (if s' = sm_signal (g_mems w m) then [] else conns s' (g_lib w)) @ (if s' = s then [(c, Reverse_Slot m, False)] else [])"
    "sm_reverse_con (g_mems (set_signal_delegate L s ab m w) m) = Some c"
    "\<And>m'. m' \<noteq> m \<Longrightarrow> g_mems (set_signal_delegate L s ab m w) m' = g_mems w m'"
proof -
  let ?g = "sg_disconnect_all L (sm_signal (g_mems w m)) (g_lib w)"
  obtain c g' where C: "sg_connect L s (Reverse_Slot m) ?g = (c, g')" by fastforce
  then show thesis using connect_conns(1) [OF laws C] lib_conns(2) [OF laws]
    by (intro that [of c]) (simp_all add: set_signal_delegate_def upd_mem_def on_lib_def)
qed

lemma event_recorded:
  assumes laws: "signals_laws L conns" and r: "recorded conns m w"
    and b: "binds m e \<Longrightarrow> sm_reverse_con (g_mems w m) = None"
  shows "recorded conns m (sig_exec L cres e w)"
    "\<not> binds m e \<Longrightarrow> sm_reverse_con (g_mems (sig_exec L cres e w) m) = sm_reverse_con (g_mems w m)"
proof -
  have "recorded conns m (sig_exec L cres e w) \<and>
    (\<not> binds m e \<longrightarrow> sm_reverse_con (g_mems (sig_exec L cres e w) m) = sm_reverse_con (g_mems w m))"
  proof (cases e)
    case (Sv_Connect f x)
    obtain c g where C: "sg_connect L (sm_signal (g_mems w x)) (User_Slot f) (g_lib w) = (c, g)" by fastforce
    have "g_lib (sig_exec L cres e w) = g" "g_mems (sig_exec L cres e w) = g_mems w"
      using Sv_Connect C by (auto simp: member_connect_def tell_count_def Let_def split: prod.splits option.splits)
    with recorded_connect [OF laws r _ C [folded this(1)]] show ?thesis by simp
  next
    case (Sv_Disconnect c x)
    then have "g_lib (sig_exec L cres e w) = sg_disconnect L c (g_lib w)" "g_mems (sig_exec L cres e w) = g_mems w"
      by (auto simp: member_disconnect_def tell_count_def Let_def split: option.splits)
    then show ?thesis using r by (auto simp: recorded_def lib_conns [OF laws])
  next
    case (Sv_Set_Delegate s ab x)
    obtain c where B: "\<And>s'. conns s' (g_lib (set_signal_delegate L s ab x w)) =
        (if s' = sm_signal (g_mems w x) then [] else conns s' (g_lib w)) @ (if s' = s then [(c, Reverse_Slot x, False)] else [])"
      "sm_reverse_con (g_mems (set_signal_delegate L s ab x w) x) = Some c"
      "\<And>m'. m' \<noteq> x \<Longrightarrow> g_mems (set_signal_delegate L s ab x w) m' = g_mems w m'"
      by (rule bind_effect [OF laws]) (rule that; assumption)
    show ?thesis
    proof (cases "x = m")
      case True
      then have "\<forall>s d b. (d, Reverse_Slot m, b) \<notin> set (conns s (g_lib w))"
        using b r Sv_Set_Delegate recorded_none [of w m conns] by (simp add: binds_def)
      with B True Sv_Set_Delegate show ?thesis by (auto simp: recorded_def binds_def split: if_splits)
    next
      case False
      then have "g_mems (set_signal_delegate L s ab x w) m = g_mems w m" using B(3) by simp
      moreover from this have "recorded conns m (set_signal_delegate L s ab x w)"
        by (intro recorded_sub [OF r]) (use False B(1) in \<open>auto split: if_splits\<close>)
      ultimately show ?thesis using Sv_Set_Delegate by simp
    qed
  next
    case (Sv_Assign f x)
    then show ?thesis using r by (auto simp: recorded_def member_assign_def upd_mem_def)
  next
    case (Sv_Set_Connect_Delegate f x)
    then show ?thesis using r by (auto simp: recorded_def set_connect_delegate_def upd_mem_def)
  next
    case (Sv_Destroy x)
    then show ?thesis using r by (auto simp: recorded_def member_destroy_effect [OF laws])
  next
    case (Sv_User_Connects s f)
    obtain c g where C: "sg_connect L s (User_Slot f) (g_lib w) = (c, g)" by fastforce
    with Sv_User_Connects have "g_lib (sig_exec L cres e w) = g" "g_mems (sig_exec L cres e w) = g_mems w" by simp_all
    with recorded_connect [OF laws r _ C [folded this(1)]] show ?thesis by simp
  next
    case (Sv_Wait s)
    obtain p sy where P: "new_promise (g_sys w) = (p, sy)" by fastforce
    obtain c g where C: "sg_connect L s (Promise_Slot p) (g_lib w) = (c, g)" by fastforce
    with Sv_Wait P have "g_lib (sig_exec L cres e w) = g" "g_mems (sig_exec L cres e w) = g_mems w"
      by (simp_all add: signal_wait_connect_def)
    with recorded_connect [OF laws r _ C [folded this(1)]] show ?thesis by simp
  qed (use r in \<open>auto simp: recorded_def lib_conns [OF laws]\<close>)
  then show "recorded conns m (sig_exec L cres e w)"
    "\<not> binds m e \<Longrightarrow> sm_reverse_con (g_mems (sig_exec L cres e w) m) = sm_reverse_con (g_mems w m)" by blast+
qed

lemma run_recorded:
  assumes laws: "signals_laws L conns" and "recorded conns m w"
    and "bindings m es = 0 \<or> (bindings m es = 1 \<and> sm_reverse_con (g_mems w m) = None)"
  shows "recorded conns m (sig_run L cres es w)"
  using assms(2,3)
proof (induction es arbitrary: w)
  case (Cons e es)
  let ?w = "sig_exec L cres e w"
  have b: "binds m e \<Longrightarrow> sm_reverse_con (g_mems w m) = None" using Cons.prems(2) by (auto simp: bindings_def split: if_splits)
  note E = event_recorded [OF laws Cons.prems(1) b]
  have "recorded conns m (sig_run L cres es ?w)"
    using Cons.prems(2) E(2) by (intro Cons.IH E(1)) (auto simp: bindings_def split: if_splits)
  then show ?case by (simp add: sig_run_def)
qed (simp add: sig_run_def)

text \<open>
  C18.  Signals never call a destroyed member that was bound at most once: whatever sequence of
  operations on any members and signals has gone before, from signals without connections on, if
  \<open>set_delegate\<close> was called on the member at most once, then after its destructor no signal has a
  slot that refers to it.  The code does not enforce the condition, and it is needed: a second
  \<open>set_delegate\<close> forgets the first reverse connection (\<open>set_delegate_twice_duplicates\<close>), and the
  destructor cuts the last one only.
\<close>

theorem no_slot_outlives_member:
  assumes "signals_laws L conns" and "\<forall>s. conns s (g_lib w) = []" and "sm_reverse_con (g_mems w m) = None"
    and "bindings m es \<le> 1"
  shows "\<forall>s d b. (d, Reverse_Slot m, b) \<notin> set (conns s (g_lib (member_destroy L m (sig_run L cres es w))))"
proof -
  have "recorded conns m w" using assms(2) by (simp add: recorded_def)
  then have "recorded conns m (sig_run L cres es w)"
    using assms(3,4) by (intro run_recorded [OF assms(1)]) (auto simp: le_Suc_eq)
  then show ?thesis by (auto simp: recorded_def member_destroy_effect [OF assms(1)])
qed

theorem no_slot_outlives_member_witness:
  "\<forall>s d b. (d, Reverse_Slot 0, b) \<notin> set (demo_conns s (g_lib (member_destroy (demo_lib (0 :: nat)) 0
     (sig_run (demo_lib 0) (\<lambda>_ _. None) [Sv_Set_Delegate 7 0 0, Sv_Connect 10 0, Sv_Set_Delegate 7 0 1] (demo_signals init_sys)))))"
  by (rule no_slot_outlives_member [OF demo_lib_laws]) (simp_all add: demo_signal_defs bindings_def binds_def)

text \<open>With two bindings of the member a slot is left behind.\<close>

lemma slot_outlives_rebound_member:
  "\<exists>d. (d, Reverse_Slot 0, False) \<in> set (demo_conns 7 (g_lib (member_destroy (demo_lib (0 :: nat)) 0
     (sig_run (demo_lib 0) (\<lambda>_ _. None) [Sv_Set_Delegate 7 0 0, Sv_Set_Delegate 7 0 0] (demo_signals init_sys)))))"
  by (simp add: sig_run_def set_signal_delegate_def member_destroy_def demo_lib_def demo_new_def demo_signal_defs on_lib_def)

section \<open>Waiting for a signal\<close>

lemma run_slots_append:
  "run_slots call xs vs w = Inr (Inr us, w1) \<Longrightarrow> run_slots call (xs @ ys) vs w = run_slots call ys us w1"
  by (induction xs arbitrary: vs w) (auto split: sum.splits prod.splits)

lemma active_append: "active (xs @ ys) = active xs @ active ys"
  by (simp add: active_def)

text \<open>An emission that ends at a waiting promise: the functors are called, then the value is stored.\<close>

lemma emit_to_promise:
  assumes laws: "signals_laws L conns" and void: "\<And>vs. sg_combine L vs = Inr v0"
    and cs: "conns s (g_lib w) = es @ [(d, Promise_Slot p, False)]" "user_only es"
    and ok: "\<And>f. f \<in> set (users es) \<Longrightarrow> \<exists>z. res f v = Inr z" and sv: "set_value u p v (g_sys w) = Inr s1"
  shows "emit_signal L u res v0 n v s w = Inr (Inr v0, (logged v (users es) w)\<lparr>g_sys := s1\<rparr>)"
proof -
  let ?c = "call_slot L u res v0 n v"
  have a: "active (conns s (g_lib w)) = map User_Slot (users es) @ [Promise_Slot p]"
    using active_user_only [OF cs(2)] by (simp add: cs(1) active_append) (simp add: active_def)
  have "sg_emit L ?c s w = combined (sg_combine L) (run_slots ?c (active (conns s (g_lib w))) [] w)"
    by (rule emit_conns [OF laws, where I = "\<lambda>w1. g_lib w1 = g_lib w"]) (auto simp: a split: sum.splits)
  moreover have "until_throw (\<lambda>f. res f v) (users es) = (users es, None)" using ok by (rule until_throw_all)
  then have "run_slots ?c (map User_Slot (users es)) [] w =
      Inr (Inr (map (\<lambda>f. projr (res f v)) (users es)), logged v (users es) w)"
    by (simp add: run_user_slots)
  then have "run_slots ?c (active (conns s (g_lib w))) [] w =
      run_slots ?c [Promise_Slot p] (map (\<lambda>f. projr (res f v)) (users es)) (logged v (users es) w)"
    unfolding a by (rule run_slots_append)
  ultimately show ?thesis using sv by (simp add: emit_signal_def combined_def void logged_def)
qed

lemma wait_connect_effect:
  assumes laws: "signals_laws L conns" and q: "quiet t c (g_sys w)" and C: "signal_wait_connect L s w = (p, d, w1)"
  shows "quiet t c (g_sys w1)" "s_proms (g_sys w1) p = make_promise" "g_calls w1 = g_calls w"
    "conns s (g_lib w1) = conns s (g_lib w) @ [(d, Promise_Slot p, False)]" "d \<notin> fst ` set (conns s (g_lib w))"
proof -
  obtain g where S: "sg_connect L s (Promise_Slot p) (g_lib w) = (d, g)" "g_lib w1 = g" "p = s_next_prom (g_sys w)"
    "g_sys w1 = snd (new_promise (g_sys w))" "g_calls w1 = g_calls w"
    using C by (auto simp: signal_wait_connect_def new_promise_def Let_def split: prod.splits)
  show "quiet t c (g_sys w1)" "s_proms (g_sys w1) p = make_promise" using q S(3,4)
    by (simp_all add: quiet_def new_promise_def thread_inv_def ready_list_def blocked_list_def is_heap_def)
  show "conns s (g_lib w1) = conns s (g_lib w) @ [(d, Promise_Slot p, False)]" "d \<notin> fst ` set (conns s (g_lib w))"
    "g_calls w1 = g_calls w"
    using connect_conns [OF laws S(1), of s] S(2,5) by simp_all
qed

text \<open>
  C17.  Waiting for a signal: the only fiber of a thread that waits for a signal is switched away
  from; when another thread emits the signal, the functors connected before are called and one task
  is posted to the waiter's thread; when that task has run, the waiter is ready, its wait returns the
  argument of the emission, and the signal has the connections it had before the wait.
\<close>

theorem signal_wait_returns_emitted:
  assumes laws: "signals_laws L conns" and void: "\<forall>vs. sg_combine L vs = Inr v0"
    and us: "user_only (conns s (g_lib w))" "\<forall>f \<in> set (users (conns s (g_lib w))). \<exists>z. res f v = Inr z"
    and q: "quiet t c (g_sys w)" and C: "signal_wait_connect L s w = (p, d, w1)" and now: "now1 \<le> time_max" and u: "u \<noteq> t"
  shows "\<exists>w2 w3 k s4 w5. signal_wait_block L t p d time_max now0 now1 now2 w1 = Inr (Inl (Switched c), w2) \<and>
    emit_signal L u res v0 n v s w2 = Inr (Inr v0, w3) \<and>
    g_calls w3 = g_calls w @ map (\<lambda>f. (f, v)) (users (conns s (g_lib w))) \<and>
    th_task_in_queue (s_thrs (g_sys w3) t) = Some k \<and> run_one t fres v0 k (g_sys w3) = Inr s4 \<and>
    th_ready_head (s_thrs s4 t) = Some c \<and>
    signal_wait_end L t c p d (w3\<lparr>g_sys := s4\<rparr>) = (Inr v, w5) \<and> conns s (g_lib w5) = conns s (g_lib w)"
proof -
  note E = wait_connect_effect [OF laws q C]
  note Q = E(1) [unfolded quiet_def]
  obtain s2 where W: "promise_wait_begin t p time_max now1 now2 (g_sys w1) = Inr (Inl (Switched c), s2)"
    "thread_inv t s2 [] [c]" "c_prom (s_ctxs s2 c) = Some p" "c_canceled (s_ctxs s2 c) = c_canceled (s_ctxs (g_sys w1) c)"
    "s_proms s2 = (s_proms (g_sys w1))(p := enqueue_thread t (s_proms (g_sys w1) p))"
    by (rule wait_enters_fresh_context [of t "g_sys w1" c p now1 now2])
      (use Q E(2) now in \<open>simp_all add: promise_ready_def make_promise_def\<close>)
  let ?w2 = "w1\<lparr>g_sys := s2\<rparr>"
  have b: "signal_wait_block L t p d time_max now0 now1 now2 w1 = Inr (Inl (Switched c), ?w2)"
    using W(1) by (simp add: signal_wait_block_def timeout_point_def)
  have F: "c \<in> set [c]" "m_error (s_proms s2 p) = None" "\<not> c_canceled (s_ctxs s2 c)"
    using W(4,5) E(2) Q by (simp_all add: enqueue_thread_def make_promise_def)
  obtain s3 s4 bs' where R: "set_value u p v s2 = Inr s3" "th_task_in_queue (s_thrs s3 t) = Some (s_next_task s2)"
    "run_one t fres v0 (s_next_task s2) s3 = Inr s4" "thread_inv t s4 [c] bs'" "fst (promise_wait_end t c p s4) = Inr v"
    using foreign_result_core [OF W(2) F(1) W(3) F(2,3) u, of "Inr v" fres v0] by auto
  let ?us = "users (conns s (g_lib w))" let ?w3 = "(logged v ?us ?w2)\<lparr>g_sys := s3\<rparr>"
  have e: "emit_signal L u res v0 n v s ?w2 = Inr (Inr v0, ?w3)"
    by (rule emit_to_promise [OF laws void [rule_format] _ us(1)]) (use E(4) us(2) R(1) in auto)
  obtain s5 where fin: "promise_wait_end t c p s4 = (Inr v, s5)" using R(5) by (cases "promise_wait_end t c p s4") auto
  let ?w5 = "on_lib (sg_disconnect L d) (?w3\<lparr>g_sys := s5\<rparr>)"
  have "signal_wait_end L t c p d (?w3\<lparr>g_sys := s4\<rparr>) = (Inr v, ?w5)" using fin by (simp add: signal_wait_end_def)
  moreover have "conns s (g_lib ?w5) = conns s (g_lib w)"
    using E(4,5) by (simp add: lib_conns [OF laws] logged_def) (force intro: filter_True)
  moreover have "th_ready_head (s_thrs s4 t) = Some c" using thread_invD(1) [OF R(4)] by (simp add: ready_list_def)
  ultimately show ?thesis using b e R(2,3) E(3)
    by (intro exI [of _ ?w2] exI [of _ ?w3] exI [of _ "s_next_task s2"] exI [of _ s4] exI [of _ ?w5]) (simp add: logged_def)
qed

theorem signal_wait_returns_emitted_witness:
  "\<exists>p d w1 w2 w3 k s4 w5. signal_wait_connect (demo_lib 0) 7 (demo_signals lone_fiber) = (p, d, w1) \<and>
    signal_wait_block (demo_lib 0) 0 p d time_max 9 10 10 w1 = Inr (Inl (Switched 0), w2) \<and>
    emit_signal (demo_lib 0) 1 (\<lambda>f v. Inr v) 0 0 42 7 w2 = Inr (Inr 0, w3) \<and>
    run_one 0 (\<lambda>_. Inr 0) 0 k (g_sys w3) = Inr s4 \<and>
    signal_wait_end (demo_lib 0) 0 0 p d (w3\<lparr>g_sys := s4\<rparr>) = (Inr 42, w5) \<and> demo_conns 7 (g_lib w5) = []"
proof -
  obtain p d w1 where C: "signal_wait_connect (demo_lib 0) 7 (demo_signals lone_fiber) = (p, d, w1)"
    by (metis prod.exhaust)
  have s: "demo_conns 7 (g_lib (demo_signals lone_fiber)) = []" "quiet 0 0 (g_sys (demo_signals lone_fiber))"
    using lone_fiber_quiet by (simp_all add: demo_signal_defs)
  have "user_only (demo_conns 7 (g_lib (demo_signals lone_fiber)))" "users (demo_conns 7 (g_lib (demo_signals lone_fiber))) = []"
    "10 \<le> time_max" unfolding s(1) by (simp_all add: user_only_def users_def active_def List.map_filter_simps time_max_def)
  with C s signal_wait_returns_emitted [OF demo_lib_laws demo_void _ _ s(2) C, of "\<lambda>f v. Inr v" 42 10 1 9 10 0 "\<lambda>_. Inr 0"]
  show ?thesis by fastforce
qed

end
