(* ===== verification/CMT_Tcp.thy ===== *)
theory CMT_Tcp
  imports CMT_Task
begin

text \<open>
  The buffered socket of \<open>src/asio/tcp/socket.cpp\<close>.  The read side keeps the bytes that were
  available beyond a request in \<open>read_buf\<close>; the write side fills one of two buffers while a task,
  \<open>write_loop\<close>, sends the other.

  The operations of \<open>boost::asio\<close> on the underlying socket are the fields of a record \<open>net\<close>, over
  a network state of any type: a read returns the bytes it has stored, in order, an error code
  (zero: success) and the new network state.
\<close>

section \<open>Data\<close>

type_synonym byte = "8 word"

record 'n net =
  net_available :: "'n \<Rightarrow> nat"
  net_read :: "nat \<Rightarrow> 'n \<Rightarrow> byte list \<times> int \<times> 'n"
  net_async_read :: "nat \<Rightarrow> 'n \<Rightarrow> byte list \<times> int \<times> 'n"
  net_async_read_some :: "nat \<Rightarrow> 'n \<Rightarrow> byte list \<times> int \<times> 'n"

text \<open>The future of the write task: null, pending, ready or holding an exception.\<close>

datatype write_future = Fut_Null | Fut_Pending | Fut_Ready | Fut_Error exn

record tcp_socket =
  read_buf :: "byte list"
  write_buf :: "8 word \<Rightarrow> byte list"
  cur_write_buf :: "8 word option"
  cur_wbuf_idx :: "8 word"
  read_pos :: nat
  last_avail :: nat
  write_complete :: write_future

definition make_socket :: tcp_socket where
  "make_socket = \<lparr>read_buf = [], write_buf = (\<lambda>_. []), cur_write_buf = None, cur_wbuf_idx = 0,
     read_pos = 0, last_avail = 0, write_complete = Fut_Null\<rparr>"

section \<open>Arithmetic of the C++ types\<close>

text \<open>Subtraction of \<open>size_t\<close>.\<close>

definition size_sub :: "nat \<Rightarrow> nat \<Rightarrow> nat" where
  "size_sub a b = nat ((int a - int b) mod 2 ^ 64)"

definition resize :: "nat \<Rightarrow> byte list \<Rightarrow> byte list" where
  "resize n xs = take n xs @ replicate (n - length xs) 0"

text \<open>\<open>memcpy( buf, &v[pos], s )\<close>: a negative \<open>s\<close> is a count beyond every array.\<close>

definition memcpy_from :: "byte list \<Rightarrow> nat \<Rightarrow> int \<Rightarrow> fault + byte list" where
  "memcpy_from v pos s =
     (if s < 0 \<or> length v < pos + nat s then Inl Out_Of_Bounds else Inr (take (nat s) (drop pos v)))"

section \<open>Reading\<close>

text \<open>
  A call returns its result (an exception, or the number of bytes), the bytes it has stored at
  \<open>buf\<close>, and the new state.

  \<open>scatter\<close> is a read into the two buffers \<open>buf\<close> (of \<open>sz\<close> bytes) and \<open>read_buf\<close>: what does not
  fit the first overwrites the front of the second.
\<close>

definition scatter :: "nat \<Rightarrow> byte list \<Rightarrow> byte list \<Rightarrow> byte list \<times> byte list" where
  "scatter sz bs rb = (take sz bs, drop sz bs @ drop (length bs - sz) rb)"

definition read_result :: "int \<Rightarrow> nat \<Rightarrow> exn + nat" where
  "read_result ec n = (if ec = 0 then Inr n else Inl (System_Error ec))"

text \<open>The part of \<open>read\<close> after the buffered bytes are used up, \<open>r\<close> of them copied.\<close>

definition tcp_read_rest :: "'n net \<Rightarrow> nat \<Rightarrow> byte list \<Rightarrow> nat \<Rightarrow> tcp_socket \<Rightarrow> 'n
    \<Rightarrow> (exn + nat) \<times> byte list \<times> tcp_socket \<times> 'n" where
  "tcp_read_rest net r got sz sk w =
     (let sk = sk\<lparr>last_avail := net_available net w\<rparr> in
      if sz \<le> last_avail sk then
        let rb = resize (last_avail sk - sz) (read_buf sk);
            (bs, ec, w) = net_read net (sz + length rb) w;
            (here, rb) = scatter sz bs rb
        in (read_result ec (r + sz), got @ here, sk\<lparr>read_buf := rb\<rparr>, w)
      else
        let (bs, ec, w) = net_async_read net sz w
        in (read_result ec (r + length bs), got @ bs, sk, w))"

definition tcp_read :: "'n net \<Rightarrow> nat \<Rightarrow> tcp_socket \<Rightarrow> 'n
    \<Rightarrow> fault + ((exn + nat) \<times> byte list \<times> tcp_socket \<times> 'n)" where
  "tcp_read net sz sk w =
     (let left = size_sub (length (read_buf sk)) (read_pos sk) in
      if left \<noteq> 0 then
        let s = to_int32 (min left sz) in
        case memcpy_from (read_buf sk) (read_pos sk) s of
          Inl f \<Rightarrow> Inl f
        | Inr got \<Rightarrow>
            let sz = sz - nat s;
                pos = read_pos sk + nat s;
                sk = (if pos = length (read_buf sk) then sk\<lparr>read_buf := [], read_pos := 0\<rparr>
                      else sk\<lparr>read_pos := pos\<rparr>)
            in if sz = 0 then Inr (Inr (nat s), got, sk, w)
               else Inr (tcp_read_rest net (nat s) got sz sk w)
      else Inr (tcp_read_rest net 0 [] sz sk w))"

text \<open>
  \<open>read_some\<close>.  The second test of its first condition is the same as that of \<open>read\<close>; the new
  position and the emptiness test are not.  The result of the blocking read is an \<open>int\<close>.
\<close>

definition tcp_read_some_rest :: "'n net \<Rightarrow> byte list \<Rightarrow> nat \<Rightarrow> tcp_socket \<Rightarrow> 'n
    \<Rightarrow> (exn + nat) \<times> byte list \<times> tcp_socket \<times> 'n" where
  "tcp_read_some_rest net got sz sk w =
     (let sk = sk\<lparr>last_avail := net_available net w\<rparr> in
      if sz \<le> last_avail sk then
        let rb = resize (last_avail sk - sz) (read_buf sk);
            (bs, ec, w) = net_read net (sz + length rb) w;
            (here, rb) = scatter sz bs rb;
            r = to_int32 (length bs);
            sk = sk\<lparr>read_buf := rb\<rparr>;
            sk = (if ec = 0 then sk\<lparr>last_avail := nat ((int (last_avail sk) - r) mod 2 ^ 64)\<rparr> else sk)
        in (read_result ec (nat (r mod 2 ^ 64)), got @ here, sk, w)
      else
        let (bs, ec, w) = net_async_read_some net sz w
        in (read_result ec (length bs), got @ bs, sk, w))"

definition tcp_read_some :: "'n net \<Rightarrow> nat \<Rightarrow> tcp_socket \<Rightarrow> 'n
    \<Rightarrow> fault + ((exn + nat) \<times> byte list \<times> tcp_socket \<times> 'n)" where
  "tcp_read_some net sz sk w =
     (let left = size_sub (length (read_buf sk)) (read_pos sk) in
      if read_buf sk \<noteq> [] \<and> left \<noteq> 0 then
        let s = to_int32 (min left sz) in
        case memcpy_from (read_buf sk) (read_pos sk) s of
          Inl f \<Rightarrow> Inl f
        | Inr got \<Rightarrow>
            let sz = sz - nat s;
                new_rbs = size_sub (length (read_buf sk)) (nat s) mod 2 ^ 32;
                sk = (if new_rbs \<noteq> 0 then sk\<lparr>read_pos := nat s\<rparr> else sk\<lparr>read_buf := []\<rparr>)
            in if sz = 0 then Inr (Inr (nat s), got, sk, w)
               else Inr (tcp_read_some_rest net got sz sk w)
      else Inr (tcp_read_some_rest net [] sz sk w))"

text \<open>
  The input iterator: the byte it shows and the socket, null at the end.  Advancing reads one
  byte; a null iterator must not be advanced.
\<close>

record sock_iter =
  it_value :: byte
  it_open :: bool

definition iter_incr :: "'n net \<Rightarrow> sock_iter \<Rightarrow> tcp_socket \<Rightarrow> 'n
    \<Rightarrow> fault + (exn option \<times> sock_iter \<times> tcp_socket \<times> 'n)" where
  "iter_incr net it sk w =
     (if \<not> it_open it then Inl Null_Deref
      else case tcp_read net 1 sk w of
             Inl f \<Rightarrow> Inl f
           | Inr (r, bs, sk, w) \<Rightarrow>
               let it = (case bs of [] \<Rightarrow> it | b # _ \<Rightarrow> it\<lparr>it_value := b\<rparr>) in
               (case r of
                  Inl e \<Rightarrow> Inr (Some e, it, sk, w)
                | Inr n \<Rightarrow> Inr (None, if n \<noteq> 1 then it\<lparr>it_open := False\<rparr> else it, sk, w)))"

section \<open>What the code relies on\<close>

text \<open>
  The documented behaviour of the stream operations, with \<open>incoming w\<close> the bytes the peer sends
  from state \<open>w\<close> on: each operation consumes a prefix of them, no longer than the buffers it is
  given, \<open>read\<close> and \<open>async_read\<close> succeed only with the buffers full, and \<open>available\<close> returns a
  \<open>size_t\<close>.
\<close>

definition reads_prefix :: "('n \<Rightarrow> byte list) \<Rightarrow> (nat \<Rightarrow> 'n \<Rightarrow> byte list \<times> int \<times> 'n) \<Rightarrow> bool" where
  "reads_prefix incoming rd \<longleftrightarrow> (\<forall>n w bs ec w'. rd n w = (bs, ec, w') \<longrightarrow>
     incoming w = bs @ incoming w' \<and> length bs \<le> n)"

definition reads_full :: "(nat \<Rightarrow> 'n \<Rightarrow> byte list \<times> int \<times> 'n) \<Rightarrow> bool" where
  "reads_full rd \<longleftrightarrow> (\<forall>n w bs w'. rd n w = (bs, 0, w') \<longrightarrow> length bs = n)"

definition stream_net :: "'n net \<Rightarrow> ('n \<Rightarrow> byte list) \<Rightarrow> bool" where
  "stream_net net incoming \<longleftrightarrow>
     reads_prefix incoming (net_read net) \<and> reads_full (net_read net) \<and>
     reads_prefix incoming (net_async_read net) \<and> reads_full (net_async_read net) \<and>
     reads_prefix incoming (net_async_read_some net) \<and> (\<forall>w. net_available net w < 2 ^ 64)"

text \<open>The bytes the program has still to get, and the invariant of the read buffer.\<close>

definition pending :: "('n \<Rightarrow> byte list) \<Rightarrow> tcp_socket \<Rightarrow> 'n \<Rightarrow> byte list" where
  "pending incoming sk w = drop (read_pos sk) (read_buf sk) @ incoming w"

definition rbuf_ok :: "tcp_socket \<Rightarrow> bool" where
  "rbuf_ok sk \<longleftrightarrow> read_pos sk \<le> length (read_buf sk) \<and> length (read_buf sk) < 2 ^ 64 \<and>
     (read_pos sk = length (read_buf sk) \<longrightarrow> read_pos sk = 0)"

lemma size_sub_le: "b \<le> a \<Longrightarrow> a < 2 ^ 64 \<Longrightarrow> size_sub a b = a - b"
  by (simp add: size_sub_def nat_diff_distrib)

lemma length_resize [simp]: "length (resize n xs) = n"
  by (simp add: resize_def)

section \<open>Reads deliver the stream in order\<close>

lemma tcp_read_rest_ok:
  assumes net: "stream_net net incoming" and e: "read_buf sk = []" "read_pos sk = 0"
    and r: "tcp_read_rest net r got sz sk w = (Inr n, out, sk', w')"
  shows "n = r + sz \<and> length out = length got + sz \<and> rbuf_ok sk' \<and>
    got @ incoming w = out @ pending incoming sk' w'"
proof (cases "sz \<le> net_available net w")
  case True
  let ?k = "net_available net w - sz"
  obtain bs ec w2 where rd: "net_read net (net_available net w) w = (bs, ec, w2)" by (metis prod_cases3)
  have ec: "ec = 0" and out: "out = got @ take sz bs" and n: "n = r + sz" and w': "w' = w2"
    and sk': "read_buf sk' = drop sz bs @ drop (length bs - sz) (resize ?k [])" "read_pos sk' = 0"
    using r True rd e by (auto simp: tcp_read_rest_def scatter_def read_result_def Let_def split: if_splits)
  have "length bs = net_available net w" using net rd unfolding ec stream_net_def reads_full_def by blast
  moreover have "incoming w = bs @ incoming w2" using net rd unfolding stream_net_def reads_prefix_def by blast
  moreover have "net_available net w < 2 ^ 64" using net by (simp add: stream_net_def)
  ultimately show ?thesis using True n out w' sk' by (simp add: pending_def rbuf_ok_def)
next
  case False
  obtain bs ec w2 where rd: "net_async_read net sz w = (bs, ec, w2)" by (metis prod_cases3)
  have ec: "ec = 0" and out: "out = got @ bs" and n: "n = r + length bs" and w': "w' = w2"
    and sk': "read_buf sk' = []" "read_pos sk' = 0"
    using r False rd e by (auto simp: tcp_read_rest_def read_result_def Let_def split: if_splits)
  have "length bs = sz" using net rd unfolding ec stream_net_def reads_full_def by blast
  moreover have "incoming w = bs @ incoming w2" using net rd unfolding stream_net_def reads_prefix_def by blast
  ultimately show ?thesis using n out w' sk' by (simp add: pending_def rbuf_ok_def)
qed

text \<open>The buffered part: either it satisfies the request, or the rest starts with an empty buffer.\<close>

lemma tcp_read_buffered:
  assumes ok: "rbuf_ok sk" and sz: "sz < 2 ^ 31"
  shows "tcp_read net sz sk w =
    (let have = drop (read_pos sk) (read_buf sk) in
     if have = [] then Inr (tcp_read_rest net 0 [] sz sk w)
     else if sz < length have then Inr (Inr sz, take sz have, sk\<lparr>read_pos := read_pos sk + sz\<rparr>, w)
     else if sz = length have then Inr (Inr sz, have, sk\<lparr>read_buf := [], read_pos := 0\<rparr>, w)
     else Inr (tcp_read_rest net (length have) have (sz - length have) (sk\<lparr>read_buf := [], read_pos := 0\<rparr>) w))"
proof -
  have left: "size_sub (length (read_buf sk)) (read_pos sk) = length (read_buf sk) - read_pos sk"
    using ok by (simp add: rbuf_ok_def size_sub_le)
  have i: "to_int32 (min (length (read_buf sk) - read_pos sk) sz) = int (min (length (read_buf sk) - read_pos sk) sz)"
    using sz by (simp add: to_int32_small)
  show ?thesis using ok unfolding tcp_read_def left Let_def i memcpy_from_def nat_int
    by (auto simp: rbuf_ok_def)
qed

lemma tcp_read_ok:
  assumes net: "stream_net net incoming" and ok: "rbuf_ok sk" and sz: "sz < 2 ^ 31"
  obtains r out sk' w' where "tcp_read net sz sk w = Inr (r, out, sk', w')"
    "\<And>n. r = Inr n \<Longrightarrow> n = sz \<and> length out = sz \<and> rbuf_ok sk' \<and> pending incoming sk w = out @ pending incoming sk' w'"
proof -
  let ?h = "drop (read_pos sk) (read_buf sk)"
  let ?e = "sk\<lparr>read_buf := [], read_pos := 0\<rparr>"
  note B = tcp_read_buffered [OF ok sz, of net w]
  consider "?h = []" | "?h \<noteq> []" "sz < length ?h" | "?h \<noteq> []" "sz = length ?h" | "?h \<noteq> []" "length ?h < sz" by linarith
  then show thesis
  proof cases
    case 1
    then have e: "read_buf sk = []" "read_pos sk = 0" using ok by (auto simp: rbuf_ok_def)
    obtain r out sk' w' where R: "tcp_read_rest net 0 [] sz sk w = (r, out, sk', w')" by (metis prod_cases4)
    show thesis
    proof (rule that)
      show "tcp_read net sz sk w = Inr (r, out, sk', w')" unfolding B using 1 R by (simp add: Let_def)
    next
      fix n assume "r = Inr n"
      then show "n = sz \<and> length out = sz \<and> rbuf_ok sk' \<and> pending incoming sk w = out @ pending incoming sk' w'"
        using tcp_read_rest_ok [OF net e R [unfolded \<open>r = Inr n\<close>]] e by (simp add: pending_def)
    qed
  next
    case 2
    show thesis
    proof (rule that)
      show "tcp_read net sz sk w = Inr (Inr sz, take sz ?h, sk\<lparr>read_pos := read_pos sk + sz\<rparr>, w)"
        unfolding B using 2 by (simp add: Let_def)
      show "n = sz \<and> length (take sz ?h) = sz \<and> rbuf_ok (sk\<lparr>read_pos := read_pos sk + sz\<rparr>) \<and>
          pending incoming sk w = take sz ?h @ pending incoming (sk\<lparr>read_pos := read_pos sk + sz\<rparr>) w"
        if "Inr sz = (Inr n :: exn + nat)" for n
        using that 2 ok append_take_drop_id [of sz ?h]
        by (auto simp: rbuf_ok_def pending_def add.commute simp flip: append_assoc)
    qed
  next
    case 3
    show thesis
    proof (rule that)
      show "tcp_read net sz sk w = Inr (Inr sz, ?h, ?e, w)" unfolding B using 3 by (simp add: Let_def)
    qed (use 3 in \<open>auto simp: rbuf_ok_def pending_def\<close>)
  next
    case 4
    obtain r out sk' w' where R: "tcp_read_rest net (length ?h) ?h (sz - length ?h) ?e w = (r, out, sk', w')"
      by (metis prod_cases4)
    show thesis
    proof (rule that)
      show "tcp_read net sz sk w = Inr (r, out, sk', w')" unfolding B using 4 R by (simp add: Let_def)
    next
      fix n assume r: "r = Inr n"
      have "n = length ?h + (sz - length ?h) \<and> length out = length ?h + (sz - length ?h) \<and> rbuf_ok sk' \<and>
        ?h @ incoming w = out @ pending incoming sk' w'"
        by (rule tcp_read_rest_ok [OF net _ _ R [unfolded r]]) simp_all
      then show "n = sz \<and> length out = sz \<and> rbuf_ok sk' \<and> pending incoming sk w = out @ pending incoming sk' w'"
        using 4 by (simp add: pending_def)
    qed
  qed
qed

text \<open>A program that reads blocks of the given sizes one after the other, up to an exception.\<close>

fun tcp_reads :: "'n net \<Rightarrow> nat list \<Rightarrow> tcp_socket \<Rightarrow> 'n \<Rightarrow> fault + (exn option \<times> byte list list \<times> tcp_socket \<times> 'n)" where
  "tcp_reads net [] sk w = Inr (None, [], sk, w)"
| "tcp_reads net (sz # szs) sk w =
     (case tcp_read net sz sk w of
        Inl f \<Rightarrow> Inl f
      | Inr (Inl e, bs, sk, w) \<Rightarrow> Inr (Some e, [], sk, w)
      | Inr (Inr n, bs, sk, w) \<Rightarrow>
          (case tcp_reads net szs sk w of
             Inl f \<Rightarrow> Inl f
           | Inr (x, bss, sk, w) \<Rightarrow> Inr (x, bs # bss, sk, w)))"

lemma tcp_reads_ok:
  assumes net: "stream_net net incoming" and ok: "rbuf_ok sk" and szs: "\<forall>sz\<in>set szs. sz < 2 ^ 31"
  shows "\<exists>x bss sk' w'. tcp_reads net szs sk w = Inr (x, bss, sk', w') \<and>
    (\<exists>rest. pending incoming sk w = concat bss @ rest \<and> (x = None \<longrightarrow> rest = pending incoming sk' w' \<and> rbuf_ok sk')) \<and>
    map length bss = take (length bss) szs \<and> (x = None \<longrightarrow> length bss = length szs)"
  using ok szs
proof (induction szs arbitrary: sk w)
  case Nil
  then show ?case by simp
next
  case (Cons sz szs)
  have sz: "sz < 2 ^ 31" using Cons.prems(2) by simp
  obtain r out sk1 w1 where R: "tcp_read net sz sk w = Inr (r, out, sk1, w1)" and
    P: "\<And>n. r = Inr n \<Longrightarrow> n = sz \<and> length out = sz \<and> rbuf_ok sk1 \<and> pending incoming sk w = out @ pending incoming sk1 w1"
    by (rule tcp_read_ok [OF net Cons.prems(1) sz, of w]) (rule that; assumption)
  show ?case
  proof (cases r)
    case (Inl e)
    then show ?thesis using R by simp
  next
    case (Inr n)
    note Q = P [OF Inr]
    obtain x bss sk' w' rest where I: "tcp_reads net szs sk1 w1 = Inr (x, bss, sk', w')"
      "pending incoming sk1 w1 = concat bss @ rest" "x = None \<longrightarrow> rest = pending incoming sk' w' \<and> rbuf_ok sk'"
      "map length bss = take (length bss) szs" "x = None \<longrightarrow> length bss = length szs"
      using Cons.IH [of sk1 w1] Q Cons.prems(2) by auto
    have "tcp_reads net (sz # szs) sk w = Inr (x, out # bss, sk', w')" using R Inr I(1) by simp
    moreover have "pending incoming sk w = concat (out # bss) @ rest" using Q I(2) by simp
    moreover have "map length (out # bss) = take (length (out # bss)) (sz # szs)" using Q I(4) by simp
    ultimately show ?thesis using I(3,5) by (metis length_Cons)
  qed
qed

text \<open>
  C13.  The read buffer is transparent: whatever the sizes of the reads, below \<open>2 ^ 31\<close>, they run without fault
  and what they store, block after block, is the stream the peer sent from the first byte on, in
  order, without loss or repetition; each completed read stores exactly as many bytes as asked,
  and if no read fails all are completed and what remains is the rest of the stream.
\<close>

theorem tcp_read_stream:
  assumes "stream_net net incoming" and "\<forall>sz\<in>set szs. sz < 2 ^ 31"
  shows "\<exists>x bss sk w'. tcp_reads net szs make_socket w = Inr (x, bss, sk, w') \<and>
    (\<exists>rest. incoming w = concat bss @ rest \<and> (x = None \<longrightarrow> rest = pending incoming sk w')) \<and>
    map length bss = take (length bss) szs \<and> (x = None \<longrightarrow> length bss = length szs)"
proof -
  have "rbuf_ok make_socket" "pending incoming make_socket w = incoming w"
    by (simp_all add: rbuf_ok_def pending_def make_socket_def)
  then show ?thesis using tcp_reads_ok [OF assms(1) _ assms(2), of make_socket w] by metis
qed

text \<open>A network for examples: the stream and the number of bytes that have arrived.\<close>

definition demo_take :: "nat \<Rightarrow> byte list \<times> nat \<Rightarrow> byte list \<times> int \<times> (byte list \<times> nat)" where
  "demo_take n = (\<lambda>(bs, a). if n \<le> length bs then (take n bs, 0, (drop n bs, a - n)) else (bs, 2, ([], 0)))"

definition demo_net :: "(byte list \<times> nat) net" where
  "demo_net = \<lparr>net_available = (\<lambda>(bs, a). min a (2 ^ 31)), net_read = demo_take, net_async_read = demo_take,
     net_async_read_some = demo_take\<rparr>"

lemma demo_net_stream: "stream_net demo_net fst"
  by (auto simp: stream_net_def demo_net_def reads_prefix_def reads_full_def demo_take_def split: if_splits)

theorem tcp_read_stream_witness:
  "stream_net demo_net fst \<and>
   (case tcp_reads demo_net [1, 2, 3] make_socket ([1, 2, 3, 4, 5, 6, 7], 4) of
      Inr (None, bss, sk, w) \<Rightarrow> bss = [[1], [2, 3], [4, 5, 6]] \<and> pending fst sk w = [7] | _ \<Rightarrow> False)"
  using demo_net_stream tcp_read_stream [OF demo_net_stream, of "[1, 2, 3]" "([1, 2, 3, 4, 5, 6, 7], 4)"]
  by (auto simp: tcp_read_def tcp_read_rest_def make_socket_def size_sub_def to_int32_def memcpy_from_def
      demo_net_def demo_take_def resize_def scatter_def read_result_def pending_def)

section \<open>The input iterator\<close>

text \<open>The values an iterator shows when it is advanced \<open>k\<close> times.\<close>

fun iter_run :: "'n net \<Rightarrow> nat \<Rightarrow> sock_iter \<Rightarrow> tcp_socket \<Rightarrow> 'n \<Rightarrow> fault + (exn option \<times> byte list \<times> sock_iter)" where
  "iter_run net 0 it sk w = Inr (None, [], it)"
| "iter_run net (Suc k) it sk w =
     (case iter_incr net it sk w of
        Inl f \<Rightarrow> Inl f
      | Inr (Some e, it, sk, w) \<Rightarrow> Inr (Some e, [], it)
      | Inr (None, it, sk, w) \<Rightarrow>
          (case iter_run net k it sk w of Inl f \<Rightarrow> Inl f | Inr (x, vs, it') \<Rightarrow> Inr (x, it_value it # vs, it')))"

lemma iter_incr_ok:
  assumes net: "stream_net net incoming" and ok: "rbuf_ok sk" and it: "it_open it"
  obtains x it' sk' w' where "iter_incr net it sk w = Inr (x, it', sk', w')" "it_open it'"
    "x = None \<Longrightarrow> rbuf_ok sk' \<and> pending incoming sk w = it_value it' # pending incoming sk' w'"
proof -
  have one: "(1 :: nat) < 2 ^ 31" by simp
  obtain r out sk1 w1 where R: "tcp_read net 1 sk w = Inr (r, out, sk1, w1)" and
    P: "\<And>n. r = Inr n \<Longrightarrow> n = 1 \<and> length out = 1 \<and> rbuf_ok sk1 \<and> pending incoming sk w = out @ pending incoming sk1 w1"
    by (rule tcp_read_ok [OF net ok one, of w]) (rule that; assumption)
  show thesis
  proof (cases r)
    case (Inl e)
    show thesis
      by (rule that [of "Some e" "case out of [] \<Rightarrow> it | b # _ \<Rightarrow> it\<lparr>it_value := b\<rparr>" sk1 w1])
        (use it R Inl in \<open>auto simp: iter_incr_def Let_def split: list.split\<close>)
  next
    case (Inr n)
    obtain b where b: "out = [b]" using P [OF Inr] by (auto simp: length_Suc_conv)
    show thesis
      by (rule that [of None "it\<lparr>it_value := b\<rparr>" sk1 w1])
        (use it R Inr b P [OF Inr] in \<open>auto simp: iter_incr_def\<close>)
  qed
qed

text \<open>
  An iterator over a fresh socket (its constructor advances it once) shows the bytes of the
  stream one by one in order.  It never becomes equal to the end iterator: the end of the stream
  arrives as an exception of the read.
\<close>

lemma iterator_yields_stream:
  assumes net: "stream_net net incoming" and ok: "rbuf_ok sk" and it: "it_open it"
  shows "\<exists>x vs it' rest. iter_run net k it sk w = Inr (x, vs, it') \<and> it_open it' \<and>
    pending incoming sk w = vs @ rest \<and> (x = None \<longrightarrow> length vs = k)"
  using ok it
proof (induction k arbitrary: it sk w)
  case 0
  then show ?case by simp
next
  case (Suc k)
  obtain x it1 sk1 w1 where R: "iter_incr net it sk w = Inr (x, it1, sk1, w1)" "it_open it1"
    "x = None \<Longrightarrow> rbuf_ok sk1 \<and> pending incoming sk w = it_value it1 # pending incoming sk1 w1"
    by (rule iter_incr_ok [OF net Suc.prems, of w]) (rule that; assumption)
  show ?case
  proof (cases x)
    case None
    obtain y vs it' rest where "iter_run net k it1 sk1 w1 = Inr (y, vs, it')" "it_open it'"
      "pending incoming sk1 w1 = vs @ rest" "y = None \<longrightarrow> length vs = k"
      using Suc.IH R None by blast
    then show ?thesis using R None by simp
  next
    case (Some e)
    then show ?thesis using R by simp
  qed
qed

lemma iterator_yields_stream_example:
  "rbuf_ok make_socket \<and>
   (\<exists>it'. iter_run demo_net 3 \<lparr>it_value = 0, it_open = True\<rparr> make_socket ([7, 8, 9], 2) = Inr (None, [7, 8, 9], it'))"
proof -
  have ok: "rbuf_ok make_socket" by (simp add: rbuf_ok_def make_socket_def)
  then show ?thesis
    using iterator_yields_stream [OF demo_net_stream ok, of "\<lparr>it_value = 0, it_open = True\<rparr>" 3 "([7, 8, 9], 2)"]
    by (auto simp: pending_def make_socket_def numeral_3_eq_3 iter_incr_def tcp_read_def tcp_read_rest_def
        size_sub_def to_int32_def memcpy_from_def demo_net_def demo_take_def resize_def scatter_def read_result_def)
qed

section \<open>\<open>read_some\<close>\<close>

text \<open>
  C38.  \<open>read_some\<close> does not advance through its buffer: it sets \<open>read_pos\<close> to the length of the
  block it has copied instead of adding it.  Reading a buffer in blocks of \<open>k\<close> bytes gives the
  first block, then the second, and from then on the second again and again, the socket being
  left exactly as it was.
\<close>

theorem read_some_repeats:
  assumes "read_pos sk = 0" and "0 < k" and "2 * k \<le> length (read_buf sk)" and "length (read_buf sk) < 2 ^ 31"
  shows "tcp_read_some net k sk w = Inr (Inr k, take k (read_buf sk), sk\<lparr>read_pos := k\<rparr>, w) \<and>
    tcp_read_some net k (sk\<lparr>read_pos := k\<rparr>) w =
      Inr (Inr k, take k (drop k (read_buf sk)), sk\<lparr>read_pos := k\<rparr>, w)"
proof -
  have "read_buf sk \<noteq> []" using assms by auto
  then show ?thesis
    using assms by (simp add: tcp_read_some_def size_sub_le to_int32_small memcpy_from_def min_absorb2)
qed

theorem read_some_repeats_witness:
  "tcp_read_some demo_net 2 (make_socket\<lparr>read_buf := [1, 2, 3, 4, 5, 6], read_pos := 2\<rparr>) ([], 0) =
     Inr (Inr 2, [3, 4], make_socket\<lparr>read_buf := [1, 2, 3, 4, 5, 6], read_pos := 2\<rparr>, ([], 0))"
  using read_some_repeats [of "make_socket\<lparr>read_buf := [1, 2, 3, 4, 5, 6]\<rparr>" 2 demo_net "([], 0)"]
  by (simp add: make_socket_def)

text \<open>
  With an empty buffer and more bytes available than asked for, \<open>read_some\<close> stores the first
  \<open>sz\<close> bytes of the stream and keeps the others for later, but it reports all the available bytes
  as read.
\<close>

lemma read_some_overreports:
  assumes net: "stream_net net incoming" and e: "read_buf sk = []" "read_pos sk = 0"
    and a: "sz \<le> net_available net w" "net_available net w < 2 ^ 31"
    and rd: "net_read net (net_available net w) w = (bs, 0, w')"
  shows "\<exists>sk'. tcp_read_some net sz sk w = Inr (Inr (net_available net w), take sz bs, sk', w') \<and>
    incoming w = take sz bs @ pending incoming sk' w' \<and> length (take sz bs) = sz"
proof -
  have l: "length bs = net_available net w" using net rd unfolding stream_net_def reads_full_def by blast
  have "incoming w = bs @ incoming w'" using net rd unfolding stream_net_def reads_prefix_def by blast
  moreover have "tcp_read_some net sz sk w = Inr (Inr (net_available net w), take sz bs,
      sk\<lparr>last_avail := 0, read_buf := drop sz bs\<rparr>, w')"
    using a rd l e by (simp add: tcp_read_some_def tcp_read_some_rest_def Let_def scatter_def read_result_def
        to_int32_small)
  ultimately show ?thesis using e a l by (auto simp: pending_def)
qed

lemma read_some_overreports_example:
  "\<exists>sk'. tcp_read_some demo_net 2 make_socket ([1, 2, 3, 4, 5], 5) = Inr (Inr 5, [1, 2], sk', ([], 0)) \<and>
     pending fst sk' ([], 0 :: nat) = [3, 4, 5]"
  using read_some_overreports [OF demo_net_stream, of make_socket 2 "([1, 2, 3, 4, 5], 5)" "[1, 2, 3, 4, 5]" "([], 0)"]
  by (auto simp: make_socket_def demo_net_def demo_take_def)

end
