(* ===== verification/CMT_Tcp_Write.thy ===== *)
theory CMT_Tcp_Write
  imports CMT_Tcp "HOL-Library.Sublist"
begin

unbundle bit_operations_syntax

text \<open>
  The write side of the buffered socket of \<open>src/asio/tcp/socket.cpp\<close>: \<open>write\<close> appends to one of
  the two buffers while the task \<open>write_loop\<close> sends the other.  The fibers of one thread interleave
  only where \<open>write_loop\<close> waits for \<open>boost::asio\<close>, so a step of the system is a whole call of
  \<open>write\<close>, or the part of \<open>write_loop\<close> between two such waits.  The abstract channel it implements
  is a queue of bytes.
\<close>

section \<open>Operations\<close>

definition flip :: "8 word \<Rightarrow> 8 word" where
  "flip i = (i + 1) AND 1"

text \<open>
  \<open>write\<close>.  The result is the exception of an earlier failed send, or the number of bytes; the last
  component says which buffer a \<open>write_loop\<close> was posted for.
\<close>

definition tcp_write :: "byte list \<Rightarrow> tcp_socket \<Rightarrow> (exn + nat) \<times> tcp_socket \<times> 8 word option" where
  "tcp_write data sk =
     (case write_complete sk of
        Fut_Error e \<Rightarrow> (Inl e, sk, None)
      | _ \<Rightarrow>
          if data = [] then (Inr 0, sk, None)
          else
            let (first, sk, cur) =
                  (case cur_write_buf sk of
                     None \<Rightarrow> (True, sk\<lparr>cur_wbuf_idx := 0, cur_write_buf := Some 0\<rparr>, 0)
                   | Some i \<Rightarrow> (False, sk, i));
                sk = sk\<lparr>write_buf := (write_buf sk)(cur := write_buf sk cur @ data)\<rparr>
            in if first then
                 let idx = cur_wbuf_idx sk;
                     sk = sk\<lparr>write_complete := Fut_Pending, cur_wbuf_idx := flip idx,
                             cur_write_buf := Some (flip idx)\<rparr>
                 in (Inr (length data), sk, Some idx)
               else (Inr (length data), sk, None))"

text \<open>
  Where \<open>write_loop\<close> stands: not running, posted but not started, or inside the \<open>asio::write\<close> of
  buffer \<open>i\<close> with \<open>total_wrote\<close> bytes of it behind.  \<open>Wl_Failed\<close>: its last send threw.
\<close>

datatype wl_pc = Wl_Idle | Wl_Posted "8 word" | Wl_Sending "8 word" nat | Wl_Failed "8 word" nat

text \<open>
  Entering the outer loop for buffer \<open>i\<close>: \<open>front()\<close> needs a byte.  After a send of \<open>wrote\<close> bytes
  the inner loop goes on, or the buffer is emptied and the buffers change roles, or all is written
  and the task ends, which makes its future ready.
\<close>

definition write_loop_enter :: "8 word \<Rightarrow> tcp_socket \<Rightarrow> fault + (wl_pc \<times> tcp_socket)" where
  "write_loop_enter i sk =
     (if write_buf sk i = [] then Inl Out_Of_Bounds else Inr (Wl_Sending i 0, sk))"

definition write_loop_sent :: "8 word \<Rightarrow> nat \<Rightarrow> nat \<Rightarrow> tcp_socket \<Rightarrow> fault + (wl_pc \<times> tcp_socket)" where
  "write_loop_sent i total_wrote wrote sk =
     (let total_wrote = total_wrote + wrote in
      if total_wrote < length (write_buf sk i) then Inr (Wl_Sending i total_wrote, sk)
      else
        let sk = sk\<lparr>write_buf := (write_buf sk)(i := [])\<rparr> in
        case cur_write_buf sk of
          None \<Rightarrow> Inl Null_Deref
        | Some j \<Rightarrow>
            if write_buf sk j \<noteq> [] then
              let idx = flip (cur_wbuf_idx sk)
              in write_loop_enter (flip i) (sk\<lparr>cur_wbuf_idx := idx, cur_write_buf := Some idx\<rparr>)
            else Inr (Wl_Idle, sk\<lparr>cur_wbuf_idx := 0, cur_write_buf := None, write_complete := Fut_Ready\<rparr>))"

text \<open>An exception of \<open>asio::write\<close> leaves \<open>write_loop\<close> and is stored in the task's promise.\<close>

definition write_loop_threw :: "8 word \<Rightarrow> nat \<Rightarrow> exn \<Rightarrow> tcp_socket \<Rightarrow> wl_pc \<times> tcp_socket" where
  "write_loop_threw i total_wrote e sk = (Wl_Failed i total_wrote, sk\<lparr>write_complete := Fut_Error e\<rparr>)"

text \<open>
  \<open>flush\<close>: it waits for the future of the write task, if there is one.  The call returns or throws
  at once when the promise is set; otherwise (\<open>None\<close>) its fiber blocks, and the second half of
  \<open>promise::wait\<close> runs when it is woken: an exception is taken out of the promise, which is then as
  if it had never been set.  The destructor flushes and swallows the exception.
\<close>

definition tcp_flush_begin :: "tcp_socket \<Rightarrow> (exn + unit) option" where
  "tcp_flush_begin sk =
     (case write_complete sk of
        Fut_Null \<Rightarrow> Some (Inr ()) | Fut_Pending \<Rightarrow> None | Fut_Ready \<Rightarrow> Some (Inr ()) | Fut_Error e \<Rightarrow> Some (Inl e))"

definition tcp_flush_end :: "tcp_socket \<Rightarrow> (exn + unit) \<times> tcp_socket" where
  "tcp_flush_end sk =
     (case write_complete sk of
        Fut_Error e \<Rightarrow> (Inl e, sk\<lparr>write_complete := Fut_Pending\<rparr>)
      | Fut_Ready \<Rightarrow> (Inr (), sk)
      | _ \<Rightarrow> (Inl (Future_Error Future_Value_Not_Ready), sk))"

definition tcp_destroy :: "tcp_socket \<Rightarrow> unit option" where
  "tcp_destroy sk = (case tcp_flush_begin sk of None \<Rightarrow> None | Some _ \<Rightarrow> Some ())"

section \<open>The system\<close>

text \<open>
  \<open>ws_wrote\<close> and \<open>ws_sent\<close> record the bytes accepted by \<open>write\<close> and the bytes handed to the
  network.
\<close>

record write_sys =
  ws_sock :: tcp_socket
  ws_loop :: wl_pc
  ws_wrote :: "byte list"
  ws_sent :: "byte list"

definition ws_init :: write_sys where
  "ws_init = \<lparr>ws_sock = make_socket, ws_loop = Wl_Idle, ws_wrote = [], ws_sent = []\<rparr>"

definition chunk :: "8 word \<Rightarrow> nat \<Rightarrow> nat \<Rightarrow> tcp_socket \<Rightarrow> byte list" where
  "chunk i from n sk = take n (drop from (write_buf sk i))"

text \<open>
  The steps of the program and the network, as a function on events.  \<open>W_Sent n\<close>: the send under
  way ends with \<open>n\<close> bytes, at most what it was given; \<open>W_Failed n e\<close>: it throws \<open>e\<close> after \<open>n\<close>
  bytes.  Events that cannot happen are \<open>None\<close>.
\<close>

datatype w_event = W_Write "byte list" | W_Start | W_Sent nat | W_Fail nat exn

fun ws_step :: "w_event \<Rightarrow> write_sys \<Rightarrow> (fault + write_sys) option" where
  "ws_step (W_Write data) s =
     (let (r, sk, posted) = tcp_write data (ws_sock s) in
      Some (Inr (s\<lparr>ws_sock := sk,
        ws_loop := (case posted of None \<Rightarrow> ws_loop s | Some i \<Rightarrow> Wl_Posted i),
        ws_wrote := (case r of Inl _ \<Rightarrow> ws_wrote s | Inr _ \<Rightarrow> ws_wrote s @ data)\<rparr>)))"
| "ws_step W_Start s =
     (case ws_loop s of
        Wl_Posted i \<Rightarrow>
          Some (case write_loop_enter i (ws_sock s) of
                  Inl f \<Rightarrow> Inl f | Inr (pc, sk) \<Rightarrow> Inr (s\<lparr>ws_sock := sk, ws_loop := pc\<rparr>))
      | _ \<Rightarrow> None)"
| "ws_step (W_Sent n) s =
     (case ws_loop s of
        Wl_Sending i m \<Rightarrow>
          if m + n \<le> length (write_buf (ws_sock s) i) then
            Some (case write_loop_sent i m n (ws_sock s) of
                    Inl f \<Rightarrow> Inl f
                  | Inr (pc, sk) \<Rightarrow>
                      Inr (s\<lparr>ws_sock := sk, ws_loop := pc, ws_sent := ws_sent s @ chunk i m n (ws_sock s)\<rparr>))
          else None
      | _ \<Rightarrow> None)"
| "ws_step (W_Fail n e) s =
     (case ws_loop s of
        Wl_Sending i m \<Rightarrow>
          if m + n \<le> length (write_buf (ws_sock s) i) then
            let (pc, sk) = write_loop_threw i (m + n) e (ws_sock s)
            in Some (Inr (s\<lparr>ws_sock := sk, ws_loop := pc, ws_sent := ws_sent s @ chunk i m n (ws_sock s)\<rparr>))
          else None
      | _ \<Rightarrow> None)"

inductive ws_reach :: "write_sys \<Rightarrow> bool" where
  init: "ws_reach ws_init"
| step: "ws_reach s \<Longrightarrow> ws_step e s = Some (Inr s') \<Longrightarrow> ws_reach s'"

section \<open>The abstract channel\<close>

text \<open>A queue of bytes: writes append, sends take from the front, after a failure nothing is accepted.\<close>

record channel =
  ch_queue :: "byte list"
  ch_out :: "byte list"
  ch_broken :: bool

definition ch_send :: "nat \<Rightarrow> channel \<Rightarrow> channel" where
  "ch_send n c = c\<lparr>ch_queue := drop n (ch_queue c), ch_out := ch_out c @ take n (ch_queue c)\<rparr>"

fun ch_step :: "w_event \<Rightarrow> channel \<Rightarrow> channel" where
  "ch_step (W_Write data) c = (if ch_broken c then c else c\<lparr>ch_queue := ch_queue c @ data\<rparr>)"
| "ch_step W_Start c = c"
| "ch_step (W_Sent n) c = ch_send n c"
| "ch_step (W_Fail n e) c = (ch_send n c)\<lparr>ch_broken := True\<rparr>"

text \<open>A run of events, \<open>None\<close> if one of them cannot happen; and the bytes its writes add to a channel.\<close>

fun ev_run :: "(w_event \<Rightarrow> 's \<Rightarrow> (fault + 's) option) \<Rightarrow> w_event list \<Rightarrow> 's \<Rightarrow> (fault + 's) option" where
  "ev_run step [] s = Some (Inr s)"
| "ev_run step (e # es) s = (case step e s of Some (Inr s') \<Rightarrow> ev_run step es s' | r \<Rightarrow> r)"

fun accepted :: "w_event list \<Rightarrow> byte list" where
  "accepted [] = []"
| "accepted (W_Write data # es) = data @ accepted es"
| "accepted (W_Fail n e # es) = []"
| "accepted (_ # es) = accepted es"

definition ch_empty :: channel where
  "ch_empty = \<lparr>ch_queue = [], ch_out = [], ch_broken = False\<rparr>"

lemma ch_broken_run:
  "ch_broken c \<Longrightarrow> ch_out (fold ch_step es c) @ ch_queue (fold ch_step es c) = ch_out c @ ch_queue c"
proof (induction es arbitrary: c)
  case (Cons e es)
  then show ?case by (cases e) (simp_all add: ch_send_def)
qed simp

lemma ch_run_conserves:
  "\<not> ch_broken c \<Longrightarrow>
     ch_out (fold ch_step es c) @ ch_queue (fold ch_step es c) = ch_out c @ ch_queue c @ accepted es"
proof (induction es arbitrary: c)
  case (Cons e es)
  then show ?case by (cases e) (simp_all add: ch_send_def ch_broken_run)
qed simp

text \<open>The contract of an implementation of the channel, and what it gives for whole runs.\<close>

locale channel_impl =
  fixes start :: 's and step :: "w_event \<Rightarrow> 's \<Rightarrow> (fault + 's) option" and abs_of :: "'s \<Rightarrow> channel"
    and inv :: "'s \<Rightarrow> bool"
  assumes start_inv: "inv start" and start_abs: "abs_of start = ch_empty"
    and step_inv: "inv s \<Longrightarrow> step e s = Some r \<Longrightarrow> \<exists>s'. r = Inr s' \<and> inv s' \<and> abs_of s' = ch_step e (abs_of s)"
begin

lemma run_from:
  assumes "inv s" and "ev_run step es s = Some r"
  shows "\<exists>s'. r = Inr s' \<and> inv s' \<and> abs_of s' = fold ch_step es (abs_of s)"
  using assms
proof (induction es arbitrary: s)
  case (Cons e es)
  obtain r1 where r1: "step e s = Some r1" using Cons.prems(2) by (cases "step e s") auto
  obtain s1 where "r1 = Inr s1" "inv s1" "abs_of s1 = ch_step e (abs_of s)" using step_inv [OF Cons.prems(1) r1] by blast
  then show ?case using Cons.IH [of s1] Cons.prems(2) r1 by simp
qed auto

lemma run_refines:
  assumes "ev_run step es start = Some r"
  shows "\<exists>s. r = Inr s \<and> abs_of s = fold ch_step es ch_empty"
  using run_from [OF start_inv assms] start_abs by auto

lemma run_conserves:
  assumes "ev_run step es start = Some r"
  shows "\<exists>s. r = Inr s \<and> ch_out (abs_of s) @ ch_queue (abs_of s) = accepted es"
  using run_refines [OF assms] ch_run_conserves [of ch_empty es] by (auto simp: ch_empty_def)

end

text \<open>What the state stands for: the rest of the buffer being sent, then the other buffer.\<close>

fun unsent_of :: "wl_pc \<Rightarrow> tcp_socket \<Rightarrow> byte list" where
  "unsent_of Wl_Idle sk = []"
| "unsent_of (Wl_Posted i) sk = write_buf sk i @ write_buf sk (flip i)"
| "unsent_of (Wl_Sending i m) sk = drop m (write_buf sk i) @ write_buf sk (flip i)"
| "unsent_of (Wl_Failed i m) sk = drop m (write_buf sk i) @ write_buf sk (flip i)"

fun wl_broken :: "wl_pc \<Rightarrow> bool" where
  "wl_broken (Wl_Failed i m) = True"
| "wl_broken _ = False"

definition ws_abs :: "write_sys \<Rightarrow> channel" where
  "ws_abs s = \<lparr>ch_queue = unsent_of (ws_loop s) (ws_sock s), ch_out = ws_sent s, ch_broken = wl_broken (ws_loop s)\<rparr>"

section \<open>The invariant\<close>

definition writing :: "8 word \<Rightarrow> tcp_socket \<Rightarrow> bool" where
  "writing i sk \<longleftrightarrow> (i = 0 \<or> i = 1) \<and> cur_write_buf sk = Some (flip i) \<and> cur_wbuf_idx sk = flip i"

fun wl_inv :: "wl_pc \<Rightarrow> tcp_socket \<Rightarrow> bool" where
  "wl_inv Wl_Idle sk = (cur_write_buf sk = None \<and> write_buf sk 0 = [] \<and> write_buf sk 1 = [] \<and>
     (write_complete sk = Fut_Null \<or> write_complete sk = Fut_Ready))"
| "wl_inv (Wl_Posted i) sk = (writing i sk \<and> write_buf sk i \<noteq> [] \<and> write_complete sk = Fut_Pending)"
| "wl_inv (Wl_Sending i m) sk = (writing i sk \<and> m < length (write_buf sk i) \<and> write_complete sk = Fut_Pending)"
| "wl_inv (Wl_Failed i m) sk = (writing i sk \<and> m \<le> length (write_buf sk i) \<and> (\<exists>e. write_complete sk = Fut_Error e))"

lemma flip_01 [simp]: "flip 0 = 1" "flip 1 = 0"
  by (simp_all add: flip_def)

lemma flip_neq: "i = 0 \<or> i = 1 \<Longrightarrow> flip i \<noteq> i" and flip_flip: "i = 0 \<or> i = 1 \<Longrightarrow> flip (flip i) = i"
  by auto

text \<open>Each kind of step keeps the invariant and does what the channel does.\<close>

lemma write_step:
  assumes inv: "wl_inv (ws_loop s) (ws_sock s)"
  obtains s' where "ws_step (W_Write data) s = Some (Inr s')" "wl_inv (ws_loop s') (ws_sock s')"
    "ws_abs s' = ch_step (W_Write data) (ws_abs s)"
    "ws_wrote s' = (if wl_broken (ws_loop s) then ws_wrote s else ws_wrote s @ data)"
proof -
  obtain s' where st: "ws_step (W_Write data) s = Some (Inr s')" by (simp add: split_def Let_def)
  moreover have "wl_inv (ws_loop s') (ws_sock s') \<and> ws_abs s' = ch_step (W_Write data) (ws_abs s) \<and>
      ws_wrote s' = (if wl_broken (ws_loop s) then ws_wrote s else ws_wrote s @ data)"
    using st inv by (cases "data = []"; cases "ws_loop s")
      (auto simp: tcp_write_def Let_def ws_abs_def writing_def)
  ultimately show thesis using that by blast
qed

lemma sent_step:
  assumes inv: "wl_inv (Wl_Sending i m) sk" and n: "m + n \<le> length (write_buf sk i)"
  obtains pc sk' where "write_loop_sent i m n sk = Inr (pc, sk')" "wl_inv pc sk'" "\<not> wl_broken pc"
    "unsent_of (Wl_Sending i m) sk = chunk i m n sk @ unsent_of pc sk'"
proof -
  have i: "i = 0 \<or> i = 1" and cur: "cur_write_buf sk = Some (flip i)" "cur_wbuf_idx sk = flip i"
    and wc: "write_complete sk = Fut_Pending" using inv by (auto simp: writing_def)
  let ?cleared = "sk\<lparr>write_buf := (write_buf sk)(i := [])\<rparr>"
  have split: "drop m (write_buf sk i) = chunk i m n sk @ drop (m + n) (write_buf sk i)"
    by (metis append_take_drop_id chunk_def drop_drop add.commute)
  consider "m + n < length (write_buf sk i)" | "m + n = length (write_buf sk i)" "write_buf sk (flip i) \<noteq> []"
    | "m + n = length (write_buf sk i)" "write_buf sk (flip i) = []" using n by linarith
  then show thesis
  proof cases
    case 1
    show thesis
      by (rule that [of "Wl_Sending i (m + n)" sk])
        (use 1 inv split in \<open>auto simp: write_loop_sent_def\<close>)
  next
    case 2
    show thesis
      by (rule that [of "Wl_Sending (flip i) 0" "?cleared\<lparr>cur_wbuf_idx := i, cur_write_buf := Some i\<rparr>"])
        (use 2 i cur wc split in \<open>auto simp: write_loop_sent_def write_loop_enter_def writing_def Let_def\<close>)
  next
    case 3
    show thesis
      by (rule that [of Wl_Idle "?cleared\<lparr>cur_wbuf_idx := 0, cur_write_buf := None, write_complete := Fut_Ready\<rparr>"])
        (use 3 i cur split in \<open>auto simp: write_loop_sent_def Let_def\<close>)
  qed
qed

lemma chunk_eq: "m + n \<le> length (write_buf sk i) \<Longrightarrow> chunk i m n sk = take n (unsent_of (Wl_Sending i m) sk)"
  by (simp add: chunk_def)

lemma step_refines:
  assumes inv: "wl_inv (ws_loop s) (ws_sock s)" and st: "ws_step e s = Some r"
  obtains s' where "r = Inr s'" "wl_inv (ws_loop s') (ws_sock s')" "ws_abs s' = ch_step e (ws_abs s)"
    "ws_wrote s' = (case e of W_Write d \<Rightarrow> if wl_broken (ws_loop s) then ws_wrote s else ws_wrote s @ d | _ \<Rightarrow> ws_wrote s)"
proof (cases e)
  case (W_Write data)
  obtain s' where S: "ws_step (W_Write data) s = Some (Inr s')" "wl_inv (ws_loop s') (ws_sock s')"
    "ws_abs s' = ch_step (W_Write data) (ws_abs s)"
    "ws_wrote s' = (if wl_broken (ws_loop s) then ws_wrote s else ws_wrote s @ data)"
    by (rule write_step [OF inv, of data]) (rule that; assumption)
  show thesis by (rule that [of s']) (use S st W_Write in auto)
next
  case W_Start
  then obtain i where l: "ws_loop s = Wl_Posted i" using st by (cases "ws_loop s") auto
  show thesis
    by (rule that [of "s\<lparr>ws_loop := Wl_Sending i 0\<rparr>"])
      (use st W_Start l inv in \<open>auto simp: write_loop_enter_def ws_abs_def\<close>)
next
  case (W_Sent n)
  then obtain i m where l: "ws_loop s = Wl_Sending i m" and n: "m + n \<le> length (write_buf (ws_sock s) i)"
    using st by (auto split: wl_pc.splits if_splits)
  obtain pc sk where P: "write_loop_sent i m n (ws_sock s) = Inr (pc, sk)" "wl_inv pc sk" "\<not> wl_broken pc"
    "unsent_of (Wl_Sending i m) (ws_sock s) = chunk i m n (ws_sock s) @ unsent_of pc sk"
    by (rule sent_step [OF inv [unfolded l] n]) (rule that; assumption)
  have "length (chunk i m n (ws_sock s)) = n" using n by (simp add: chunk_def)
  then have q: "take n (unsent_of (Wl_Sending i m) (ws_sock s)) = chunk i m n (ws_sock s)"
    "drop n (unsent_of (Wl_Sending i m) (ws_sock s)) = unsent_of pc sk" unfolding P(4) by simp_all
  show thesis
    by (rule that [of "s\<lparr>ws_sock := sk, ws_loop := pc, ws_sent := ws_sent s @ chunk i m n (ws_sock s)\<rparr>"])
      (use st W_Sent l n P(1-3) in \<open>auto simp: ws_abs_def ch_send_def q simp del: unsent_of.simps\<close>)
next
  case (W_Fail n x)
  then obtain i m where l: "ws_loop s = Wl_Sending i m" and n: "m + n \<le> length (write_buf (ws_sock s) i)"
    using st by (auto split: wl_pc.splits if_splits)
  show thesis
    by (rule that [of "s\<lparr>ws_sock := (ws_sock s)\<lparr>write_complete := Fut_Error x\<rparr>, ws_loop := Wl_Failed i (m + n),
          ws_sent := ws_sent s @ chunk i m n (ws_sock s)\<rparr>"])
      (use st W_Fail l n inv in \<open>auto simp: ws_abs_def ch_send_def write_loop_threw_def writing_def chunk_def add.commute\<close>)
qed

interpretation dbl: channel_impl ws_init ws_step ws_abs "\<lambda>s. wl_inv (ws_loop s) (ws_sock s)"
proof unfold_locales
  show "wl_inv (ws_loop ws_init) (ws_sock ws_init)" "ws_abs ws_init = ch_empty"
    by (simp_all add: ws_init_def make_socket_def ws_abs_def ch_empty_def)
next
  fix s e r assume "wl_inv (ws_loop s) (ws_sock s)" "ws_step e s = Some r"
  then show "\<exists>s'. r = Inr s' \<and> wl_inv (ws_loop s') (ws_sock s') \<and> ws_abs s' = ch_step e (ws_abs s)"
    by (rule step_refines) blast
qed

lemma ws_reach_inv:
  assumes "ws_reach s"
  shows "wl_inv (ws_loop s) (ws_sock s) \<and> ws_wrote s = ws_sent s @ unsent_of (ws_loop s) (ws_sock s)"
  using assms
proof induction
  case init
  then show ?case by (simp add: ws_init_def make_socket_def)
next
  case (step s e s')
  obtain t where T: "(Inr s' :: fault + write_sys) = Inr t" "wl_inv (ws_loop t) (ws_sock t)" "ws_abs t = ch_step e (ws_abs s)"
    "ws_wrote t = (case e of W_Write d \<Rightarrow> if wl_broken (ws_loop s) then ws_wrote s else ws_wrote s @ d | _ \<Rightarrow> ws_wrote s)"
    by (rule step_refines [OF conjunct1 [OF step.IH] step.hyps(2)]) (rule that; assumption)
  then show ?case using step.IH by (cases e) (auto simp: ws_abs_def ch_send_def)
qed

section \<open>Properties\<close>

text \<open>
  C12.  The double buffer implements the byte queue: from every reachable state, whatever happens
  next (a write, the start of the write task, a complete or partial send, a failed send), no
  access leaves a buffer and no null pointer is used, and the state reached stands for the queue
  that the same event gives.  (A flush is not among the events: it changes the socket only when it
  waited through a failed send, see \<open>flush_takes_error\<close>.)
\<close>

theorem double_buffer_refines_channel:
  assumes "ws_reach s" and "ws_step e s = Some r"
  shows "\<exists>s'. r = Inr s' \<and> ws_abs s' = ch_step e (ws_abs s)"
  by (rule step_refines [OF conjunct1 [OF ws_reach_inv [OF assms(1)]] assms(2)]) blast

lemma run_reach: "ws_reach s \<Longrightarrow> ev_run ws_step es s = Some (Inr s') \<Longrightarrow> ws_reach s'"
  by (induction es arbitrary: s) (auto split: option.splits sum.splits intro: ws_reach.step)

definition mid_write :: write_sys where
  "mid_write = \<lparr>ws_sock = make_socket\<lparr>write_buf := (\<lambda>_. [])(0 := [1, 2, 3], 1 := [4, 5]),
     cur_write_buf := Some 1, cur_wbuf_idx := 1, write_complete := Fut_Pending\<rparr>,
     ws_loop = Wl_Sending 0 2, ws_wrote = [1, 2, 3, 4, 5], ws_sent = [1, 2]\<rparr>"

lemma mid_write_reach: "ws_reach mid_write"
  by (rule run_reach [OF ws_reach.init, of "[W_Write [1, 2, 3], W_Start, W_Sent 2, W_Write [4, 5]]"])
    (simp add: mid_write_def ws_init_def make_socket_def tcp_write_def write_loop_enter_def write_loop_sent_def chunk_def
      numeral_2_eq_2 fun_eq_iff)

theorem double_buffer_refines_channel_witness:
  "ws_reach mid_write \<and>
   (case ws_step (W_Sent 1) mid_write of
      Some (Inr s') \<Rightarrow> ws_abs s' = \<lparr>ch_queue = [4, 5], ch_out = [1, 2, 3], ch_broken = False\<rparr> | _ \<Rightarrow> False)"
proof -
  have "ws_step (W_Sent 1) mid_write \<noteq> None" by (simp add: mid_write_def)
  then show ?thesis using mid_write_reach double_buffer_refines_channel [OF mid_write_reach, of "W_Sent 1"]
    by (auto simp: ws_abs_def ch_send_def mid_write_def)
qed

text \<open>
  C22.  A whole history of writes and sends keeps every byte: whatever the order in which writes, the
  write task and the answers of the network interleave, the run is free of faults, and what has
  been sent followed by what is still queued is the concatenation of the data written before the
  first failed send.
\<close>

theorem write_history_conserved:
  assumes "ev_run ws_step es ws_init = Some r"
  shows "\<exists>s. r = Inr s \<and> ws_sent s @ ch_queue (ws_abs s) = accepted es"
  using dbl.run_conserves [OF assms] by (auto simp: ws_abs_def)

theorem write_history_conserved_witness:
  "\<exists>s. ev_run ws_step [W_Write [1, 2, 3], W_Start, W_Write [4], W_Sent 2, W_Fail 1 (System_Error 32), W_Write [5]] ws_init =
     Some (Inr s) \<and> ws_sent s @ ch_queue (ws_abs s) = [1, 2, 3, 4]"
proof -
  let ?es = "[W_Write [1, 2, 3], W_Start, W_Write [4], W_Sent 2, W_Fail 1 (System_Error 32), W_Write [5]]"
  have "ev_run ws_step ?es ws_init \<noteq> None"
    by (simp add: ws_init_def make_socket_def tcp_write_def write_loop_enter_def write_loop_sent_def write_loop_threw_def)
  then show ?thesis using write_history_conserved [of ?es] by auto
qed

text \<open>
  C24.  A failed send is reported once and then forgotten, if a fiber was waiting in \<open>flush\<close>: the
  waiting fiber takes the exception out of the promise.  As long as nobody does, every later \<open>write\<close>
  and \<open>flush\<close> throws it.  Afterwards every \<open>write\<close> is accepted and posts no write task, so that its
  bytes are never sent, and every further \<open>flush\<close> blocks.
\<close>

definition write_all :: "byte list list \<Rightarrow> tcp_socket \<Rightarrow> tcp_socket" where
  "write_all datas sk = fold (\<lambda>data sk. fst (snd (tcp_write data sk))) datas sk"

definition deaf :: "tcp_socket \<Rightarrow> bool" where
  "deaf sk = (write_complete sk = Fut_Pending \<and> cur_write_buf sk \<noteq> None)"

lemma deaf_write:
  assumes "deaf sk"
  shows "\<exists>sk'. tcp_write data sk = (Inr (length data), sk', None) \<and> deaf sk'"
  using assms by (auto simp: deaf_def tcp_write_def Let_def)

lemma deaf_writes: "deaf sk \<Longrightarrow> deaf (write_all datas sk)"
proof (induction datas arbitrary: sk)
  case (Cons data datas)
  from deaf_write [OF Cons.prems, of data] Cons.IH show ?case by (auto simp: write_all_def)
qed (simp add: write_all_def)

theorem flush_takes_error:
  assumes "ws_reach s" and "ws_step (W_Fail n e) s = Some (Inr s1)"
  shows "tcp_flush_begin (ws_sock s) = None \<and>
    (\<forall>data. tcp_write data (ws_sock s1) = (Inl e, ws_sock s1, None)) \<and> tcp_flush_begin (ws_sock s1) = Some (Inl e) \<and>
    (\<exists>sk. tcp_flush_end (ws_sock s1) = (Inl e, sk) \<and>
      (\<forall>datas data. tcp_flush_begin (write_all datas sk) = None \<and>
        (\<exists>sk'. tcp_write data (write_all datas sk) = (Inr (length data), sk', None))))"
proof -
  obtain i m where l: "ws_loop s = Wl_Sending i m" using assms(2) by (auto split: wl_pc.splits)
  then have w: "writing i (ws_sock s)" "write_complete (ws_sock s) = Fut_Pending" using ws_reach_inv [OF assms(1)] by auto
  have s1: "ws_sock s1 = (ws_sock s)\<lparr>write_complete := Fut_Error e\<rparr>"
    using assms(2) l by (auto simp: write_loop_threw_def split: if_splits)
  let ?sk = "ws_sock s"
  have "tcp_flush_end (ws_sock s1) = (Inl e, ?sk)" using w(2) s1 by (simp add: tcp_flush_end_def)
  moreover have d: "deaf (write_all datas ?sk)" for datas using w by (intro deaf_writes) (simp add: deaf_def writing_def)
  have "tcp_flush_begin (write_all datas ?sk) = None" for datas using d [of datas] by (simp add: deaf_def tcp_flush_begin_def)
  moreover have "\<exists>sk'. tcp_write data (write_all datas ?sk) = (Inr (length data), sk', None)" for datas data
    using deaf_write [OF d [of datas], of data] by blast
  ultimately show ?thesis using w(2) by (auto simp: s1 tcp_write_def tcp_flush_begin_def)
qed

theorem flush_takes_error_witness:
  "\<exists>s1 sk sk'. ws_step (W_Fail 0 (System_Error 32)) mid_write = Some (Inr s1) \<and>
    tcp_flush_end (ws_sock s1) = (Inl (System_Error 32), sk) \<and>
    tcp_write [9] (write_all [[6], [7, 8]] sk) = (Inr 1, sk', None) \<and> tcp_flush_begin (write_all [[6], [7, 8]] sk) = None"
proof -
  obtain s1 where s1: "ws_step (W_Fail 0 (System_Error 32)) mid_write = Some (Inr s1)"
    by (simp add: mid_write_def write_loop_threw_def)
  from flush_takes_error [OF mid_write_reach s1] obtain sk where "tcp_flush_end (ws_sock s1) = (Inl (System_Error 32), sk)"
    "\<And>datas data. tcp_flush_begin (write_all datas sk) = None \<and>
      (\<exists>sk'. tcp_write data (write_all datas sk) = (Inr (length data), sk', None))" by blast
  from this(1) this(2) [of "[[6], [7, 8]]" "[9]"] s1 show ?thesis by auto
qed

section \<open>Progress\<close>

text \<open>
  One turn of the write task, with the send complete, as \<open>async_write\<close> sends unless it fails; and a
  sequence of turns with any writes of other fibers before each of them.
\<close>

definition loop_turn :: "write_sys \<Rightarrow> (fault + write_sys) option" where
  "loop_turn s =
     (case ws_loop s of
        Wl_Posted i \<Rightarrow> ws_step W_Start s
      | Wl_Sending i m \<Rightarrow> ws_step (W_Sent (length (write_buf (ws_sock s) i) - m)) s
      | _ \<Rightarrow> Some (Inr s))"

fun ws_serve :: "byte list list list \<Rightarrow> write_sys \<Rightarrow> (fault + write_sys) option" where
  "ws_serve [] s = Some (Inr s)"
| "ws_serve (datas # dss) s =
     (case ev_run ws_step (map W_Write datas) s of
        Some (Inr s) \<Rightarrow> (case loop_turn s of Some (Inr s) \<Rightarrow> ws_serve dss s | r \<Rightarrow> r)
      | r \<Rightarrow> r)"

definition ws_ok :: "write_sys \<Rightarrow> bool" where
  "ws_ok s = (wl_inv (ws_loop s) (ws_sock s) \<and> \<not> wl_broken (ws_loop s) \<and>
     ws_wrote s = ws_sent s @ unsent_of (ws_loop s) (ws_sock s))"

text \<open>The bytes \<open>xs\<close> are out after at most \<open>k\<close> turns.\<close>

definition due_in :: "nat \<Rightarrow> byte list \<Rightarrow> write_sys \<Rightarrow> bool" where
  "due_in k xs s =
     (prefix xs (ws_sent s) \<or>
      (case ws_loop s of
         Wl_Sending i m \<Rightarrow>
           0 < k \<and> prefix xs (ws_sent s @ drop m (write_buf (ws_sock s) i)) \<or> 1 < k \<and> prefix xs (ws_wrote s)
       | Wl_Posted i \<Rightarrow> 2 < k \<and> prefix xs (ws_wrote s)
       | _ \<Rightarrow> False))"

text \<open>The task is over after at most \<open>k\<close> turns if nothing more is written.\<close>

definition over_in :: "nat \<Rightarrow> write_sys \<Rightarrow> bool" where
  "over_in k s =
     (case ws_loop s of
        Wl_Idle \<Rightarrow> True
      | Wl_Sending i m \<Rightarrow> 0 < k \<and> write_buf (ws_sock s) (flip i) = [] \<or> 1 < k
      | Wl_Posted i \<Rightarrow> 2 < k
      | _ \<Rightarrow> False)"

lemma write_due:
  assumes ok: "ws_ok s" and due: "due_in k xs s"
  obtains s' where "ws_step (W_Write data) s = Some (Inr s')" "ws_ok s'" "due_in k xs s'"
proof -
  have inv: "wl_inv (ws_loop s) (ws_sock s)" "\<not> wl_broken (ws_loop s)" using ok by (auto simp: ws_ok_def)
  obtain s' where S: "ws_step (W_Write data) s = Some (Inr s')" "wl_inv (ws_loop s') (ws_sock s')"
    "ws_abs s' = ch_step (W_Write data) (ws_abs s)" "ws_wrote s' = (if wl_broken (ws_loop s) then ws_wrote s else ws_wrote s @ data)"
    by (rule write_step [OF inv(1), of data]) (rule that; assumption)
  have "ws_ok s'" using S(2-4) ok by (auto simp: ws_ok_def ws_abs_def)
  moreover have "due_in k xs s'"
    using due S(1) inv by (cases "ws_loop s"; cases "data = []")
      (auto simp: due_in_def tcp_write_def writing_def Let_def)
  ultimately show thesis using that S(1) by blast
qed

lemma writes_due:
  assumes "ws_ok s" and "due_in k xs s"
  obtains s' where "ev_run ws_step (map W_Write datas) s = Some (Inr s')" "ws_ok s'" "due_in k xs s'"
  using assms
proof (induction datas arbitrary: s thesis)
  case (Cons data datas)
  obtain s1 where S: "ws_step (W_Write data) s = Some (Inr s1)" "ws_ok s1" "due_in k xs s1"
    by (rule write_due [OF Cons.prems(2,3), of data]) (rule that; assumption)
  obtain s' where "ev_run ws_step (map W_Write datas) s1 = Some (Inr s')" "ws_ok s'" "due_in k xs s'"
    by (rule Cons.IH [OF _ S(2,3)]) (rule that; assumption)
  then show ?case using Cons.prems(1) [of s'] S(1) by simp
qed simp

lemma turn_due:
  assumes ok: "ws_ok s"
  obtains s' where "loop_turn s = Some (Inr s')" "ws_ok s'" "ws_wrote s' = ws_wrote s"
    "due_in (Suc k) xs s \<Longrightarrow> due_in k xs s'" "over_in (Suc k) s \<Longrightarrow> over_in k s'"
proof (cases "ws_loop s")
  case Wl_Idle
  show thesis by (rule that [of s]) (use Wl_Idle ok in \<open>simp_all add: loop_turn_def due_in_def over_in_def\<close>)
next
  case (Wl_Posted i)
  show thesis
    by (rule that [of "s\<lparr>ws_loop := Wl_Sending i 0\<rparr>"])
      (use Wl_Posted ok in \<open>auto simp: loop_turn_def write_loop_enter_def ws_ok_def due_in_def over_in_def\<close>)
next
  case (Wl_Sending i m)
  let ?n = "length (write_buf (ws_sock s) i) - m"
  have inv: "wl_inv (Wl_Sending i m) (ws_sock s)" using ok Wl_Sending by (simp add: ws_ok_def)
  then have n: "m + ?n = length (write_buf (ws_sock s) i)" by simp
  obtain pc sk where P: "write_loop_sent i m ?n (ws_sock s) = Inr (pc, sk)" "wl_inv pc sk" "\<not> wl_broken pc"
    "unsent_of (Wl_Sending i m) (ws_sock s) = chunk i m ?n (ws_sock s) @ unsent_of pc sk"
    by (rule sent_step [OF inv eq_imp_le [OF n]]) (rule that; assumption)
  have c: "chunk i m ?n (ws_sock s) = drop m (write_buf (ws_sock s) i)" by (simp add: chunk_def)
  have cur: "cur_write_buf (ws_sock s) = Some (flip i)" and i: "i = 0 \<or> i = 1" using inv by (auto simp: writing_def)
  have pc: "pc = Wl_Idle \<or> pc = Wl_Sending (flip i) 0 \<and> write_buf sk i = [] \<and> write_buf (ws_sock s) (flip i) \<noteq> []"
    using P(1) n cur i by (auto simp: write_loop_sent_def write_loop_enter_def Let_def split: if_splits)
  have fl: "flip (flip i) = i" using i by auto
  let ?s = "s\<lparr>ws_sock := sk, ws_loop := pc, ws_sent := ws_sent s @ chunk i m ?n (ws_sock s)\<rparr>"
  have w: "ws_wrote s = ws_sent s @ drop m (write_buf (ws_sock s) i) @ unsent_of pc sk"
    using ok Wl_Sending P(4) unfolding c by (simp add: ws_ok_def)
  have "due_in k xs ?s" if "due_in (Suc k) xs s"
    using that Wl_Sending pc w c by (auto simp: due_in_def fl intro: prefix_prefix)
  moreover have "over_in k ?s" if "over_in (Suc k) s" using that Wl_Sending pc fl by (auto simp: over_in_def)
  moreover have "ws_ok ?s" using P w c by (simp add: ws_ok_def)
  moreover have "loop_turn s = Some (Inr ?s)" using Wl_Sending P(1) n by (simp add: loop_turn_def)
  ultimately show thesis using that by simp
next
  case (Wl_Failed i m)
  with ok show thesis by (simp add: ws_ok_def)
qed

lemma serve_due:
  assumes "ws_ok s" and "due_in (length dss) xs s"
  shows "\<exists>s'. ws_serve dss s = Some (Inr s') \<and> ws_ok s' \<and> prefix xs (ws_sent s')"
  using assms
proof (induction dss arbitrary: s)
  case Nil
  then show ?case by (auto simp: due_in_def split: wl_pc.splits)
next
  case (Cons datas dss)
  obtain s1 where S: "ev_run ws_step (map W_Write datas) s = Some (Inr s1)" "ws_ok s1" "due_in (length (datas # dss)) xs s1"
    by (rule writes_due [OF Cons.prems, of datas]) (rule that; assumption)
  obtain s2 where T: "loop_turn s1 = Some (Inr s2)" "ws_ok s2" "due_in (Suc (length dss)) xs s1 \<Longrightarrow> due_in (length dss) xs s2"
    by (rule turn_due [OF S(2)]) (rule that; assumption)
  from Cons.IH [OF T(2)] T(1,3) S(1,3) show ?case by simp
qed

lemma serve_over:
  assumes "ws_ok s" and "over_in (length dss) s" and "\<forall>datas \<in> set dss. datas = []" and "ws_serve dss s = Some (Inr s')"
  shows "ws_loop s' = Wl_Idle \<and> ws_wrote s' = ws_wrote s \<and> ws_ok s'"
  using assms
proof (induction dss arbitrary: s)
  case Nil
  then show ?case by (auto simp: over_in_def split: wl_pc.splits)
next
  case (Cons datas dss)
  obtain s2 where T: "loop_turn s = Some (Inr s2)" "ws_ok s2" "ws_wrote s2 = ws_wrote s"
    "over_in (Suc (length dss)) s \<Longrightarrow> over_in (length dss) s2"
    by (rule turn_due [OF Cons.prems(1)]) (rule that; assumption)
  from Cons.IH [OF T(2)] T(1,3,4) Cons.prems show ?case by simp
qed

text \<open>
  C23.  The write task makes progress against any writers: from every reachable state without a failed
  send, after three turns of the task with complete sends (its start, and one for each buffer), or
  more, whatever other fibers write before and between them, everything accepted up to that state has
  been sent, in order and first.  If nothing is written meanwhile, the task has ended by then, a
  \<open>flush\<close> returns at once, and exactly the accepted bytes have been sent.
\<close>

theorem write_loop_drains:
  assumes "ws_reach s" and "\<not> wl_broken (ws_loop s)" and "3 \<le> length dss"
  shows "\<exists>s'. ws_serve dss s = Some (Inr s') \<and> prefix (ws_wrote s) (ws_sent s') \<and>
    ((\<forall>datas \<in> set dss. datas = []) \<longrightarrow> tcp_flush_begin (ws_sock s') = Some (Inr ()) \<and> ws_sent s' = ws_wrote s)"
proof -
  have ok: "ws_ok s" using ws_reach_inv [OF assms(1)] assms(2) by (simp add: ws_ok_def)
  have d: "due_in (length dss) (ws_wrote s) s" "over_in (length dss) s"
    using assms(3) ok by (cases "ws_loop s"; auto simp: due_in_def over_in_def ws_ok_def)+
  from serve_due [OF ok d(1)] obtain s' where S: "ws_serve dss s = Some (Inr s')" "prefix (ws_wrote s) (ws_sent s')" by blast
  have "tcp_flush_begin (ws_sock s') = Some (Inr ()) \<and> ws_sent s' = ws_wrote s" if "\<forall>datas \<in> set dss. datas = []"
    using serve_over [OF ok d(2) that S(1)] by (auto simp: ws_ok_def tcp_flush_begin_def)
  with S show ?thesis by blast
qed

theorem write_loop_drains_witness:
  "\<exists>s' rest. ws_serve [[[6]], [[7], [8]], [[9]]] mid_write = Some (Inr s') \<and> ws_sent s' = [1, 2, 3, 4, 5] @ rest"
proof -
  have "\<not> wl_broken (ws_loop mid_write)" "ws_wrote mid_write = [1, 2, 3, 4, 5]" by (simp_all add: mid_write_def)
  then show ?thesis
    using write_loop_drains [OF mid_write_reach, of "[[[6]], [[7], [8]], [[9]]]"] by (auto simp: prefix_def)
qed

end
