(* ===== verification/CMT_Streambuf.thy ===== *)
theory CMT_Streambuf
  imports CMT_Tcp
begin

text \<open>
  The stream buffer over a socket, \<open>basic_socket_streambuf\<close>
  (\<open>include/boost/cmt/asio/basic_socket_streambuf.hpp\<close>), the members of \<open>std::streambuf\<close> through
  which programs use it, and the connecting and closing members of \<open>basic_socket_iostream\<close>.

  The network is given by what it answers: a list of results \<open>(n, ec)\<close> for the successive sends,
  \<open>n\<close> bytes taken and the error code the waiting fiber reads, and a list of results \<open>(bs, ec)\<close> for
  the receives.  An operation that needs one more answer than there is blocks: its value is
  \<open>None\<close>.
\<close>

section \<open>State\<close>

text \<open>
  \<open>int_type\<close> and its end-of-file value.  The positions are offsets: those of the get area from
  \<open>get_buffer_.begin()\<close>, those of the put area from \<open>pbase()\<close>, so that \<open>setp(0, 0)\<close> makes both
  zero.
\<close>

definition eof :: int where
  "eof = - 1"

definition not_eof :: "int \<Rightarrow> int" where
  "not_eof c = (if c = eof then 0 else c)"

definition to_int_type :: "byte \<Rightarrow> int" where
  "to_int_type b = uint b"

definition to_char_type :: "int \<Rightarrow> byte" where
  "to_char_type c = word_of_int c"

definition putback_max :: nat where
  "putback_max = 8"

definition buffer_size :: nat where
  "buffer_size = 512"

record streambuf =
  sb_get_buffer :: "byte list"
  sb_gptr :: nat
  sb_egptr :: nat
  sb_put_buffer :: "byte list"
  sb_pptr :: nat
  sb_epptr :: nat
  sb_unbuffered :: bool

definition setg :: "nat \<Rightarrow> nat \<Rightarrow> streambuf \<Rightarrow> streambuf" where
  "setg g e sb = sb\<lparr>sb_gptr := g, sb_egptr := e\<rparr>"

definition setp_null :: "streambuf \<Rightarrow> streambuf" where
  "setp_null sb = sb\<lparr>sb_pptr := 0, sb_epptr := 0\<rparr>"

definition setp_all :: "streambuf \<Rightarrow> streambuf" where
  "setp_all sb = sb\<lparr>sb_pptr := 0, sb_epptr := buffer_size\<rparr>"

definition init_buffers :: "streambuf \<Rightarrow> streambuf" where
  "init_buffers sb =
     (let sb = setg putback_max putback_max sb
      in if sb_unbuffered sb then setp_null sb else setp_all sb)"

text \<open>The constructor, on the uninitialised contents of the two arrays.\<close>

definition make_streambuf :: "byte list \<Rightarrow> byte list \<Rightarrow> streambuf" where
  "make_streambuf g p = init_buffers \<lparr>sb_get_buffer = g, sb_gptr = 0, sb_egptr = 0, sb_put_buffer = p,
     sb_pptr = 0, sb_epptr = 0, sb_unbuffered = False\<rparr>"

section \<open>Output\<close>

type_synonym sends = "(nat \<times> int) list"

text \<open>
  The loop of \<open>overflow\<close> over the buffer that is left: whether it got to the end, the bytes the
  network took, and the answers left.
\<close>

fun send_all :: "byte list \<Rightarrow> sends \<Rightarrow> (bool \<times> byte list \<times> sends) option" where
  "send_all [] ns = Some (True, [], ns)"
| "send_all (b # bs) [] = None"
| "send_all (b # bs) ((n, ec) # ns) =
     (if ec \<noteq> 0 then Some (False, take n (b # bs), ns)
      else case send_all (drop n (b # bs)) ns of
             None \<Rightarrow> None
           | Some (ok, out, ns) \<Rightarrow> Some (ok, take n (b # bs) @ out, ns))"

definition overflow :: "int \<Rightarrow> streambuf \<Rightarrow> sends \<Rightarrow> (int \<times> byte list \<times> streambuf \<times> sends) option" where
  "overflow c sb ns =
     (if sb_unbuffered sb then
        if c = eof then Some (not_eof c, [], sb, ns)
        else (case ns of
                [] \<Rightarrow> None
              | (n, ec) # ns \<Rightarrow> Some (if ec \<noteq> 0 then eof else c, take n [to_char_type c], sb, ns))
      else
        case send_all (take (sb_pptr sb) (sb_put_buffer sb)) ns of
          None \<Rightarrow> None
        | Some (ok, out, ns) \<Rightarrow>
            if \<not> ok then Some (eof, out, sb, ns)
            else
              let sb = setp_all sb in
              if c = eof then Some (not_eof c, out, sb, ns)
              else
                let sb = sb\<lparr>sb_put_buffer := (sb_put_buffer sb)[sb_pptr sb := to_char_type c],
                            sb_pptr := sb_pptr sb + 1\<rparr>
                in Some (c, out, sb, ns))"

definition sync :: "streambuf \<Rightarrow> sends \<Rightarrow> (int \<times> byte list \<times> streambuf \<times> sends) option" where
  "sync sb ns = overflow eof sb ns"

definition sb_destroy :: "streambuf \<Rightarrow> sends \<Rightarrow> (byte list \<times> sends) option" where
  "sb_destroy sb ns =
     (if sb_pptr sb \<noteq> 0 then case overflow eof sb ns of None \<Rightarrow> None | Some (_, out, _, ns) \<Rightarrow> Some (out, ns)
      else Some ([], ns))"

text \<open>\<open>setbuf(s, n)\<close>; the result says whether the returned pointer is non-null.\<close>

definition setbuf :: "bool \<Rightarrow> nat \<Rightarrow> streambuf \<Rightarrow> bool \<times> streambuf" where
  "setbuf s_null n sb =
     (if sb_pptr sb = 0 \<and> s_null \<and> n = 0 then (True, setp_null (sb\<lparr>sb_unbuffered := True\<rparr>)) else (False, sb))"

text \<open>\<open>std::streambuf::sputc\<close>.\<close>

definition sputc :: "byte \<Rightarrow> streambuf \<Rightarrow> sends \<Rightarrow> (int \<times> byte list \<times> streambuf \<times> sends) option" where
  "sputc b sb ns =
     (if sb_pptr sb < sb_epptr sb then
        Some (to_int_type b, [], sb\<lparr>sb_put_buffer := (sb_put_buffer sb)[sb_pptr sb := b], sb_pptr := sb_pptr sb + 1\<rparr>, ns)
      else overflow (to_int_type b) sb ns)"

section \<open>Input\<close>

type_synonym recvs = "(byte list \<times> int) list"

text \<open>A receive stores at most the \<open>buffer_size - putback_max\<close> bytes it is given room for.\<close>

definition underflow :: "streambuf \<Rightarrow> recvs \<Rightarrow> (int \<times> streambuf \<times> recvs) option" where
  "underflow sb rs =
     (if sb_gptr sb = sb_egptr sb then
        case rs of
          [] \<Rightarrow> None
        | (bs, ec) # rs \<Rightarrow>
            let sb = sb\<lparr>sb_get_buffer := take putback_max (sb_get_buffer sb) @ bs @
                         drop (putback_max + length bs) (sb_get_buffer sb)\<rparr> in
            if ec \<noteq> 0 then Some (eof, sb, rs)
            else
              let sb = setg putback_max (putback_max + length bs) sb
              in Some (to_int_type (sb_get_buffer sb ! sb_gptr sb), sb, rs)
      else Some (eof, sb, rs))"

text \<open>\<open>std::streambuf::sbumpc\<close>, with the default \<open>uflow\<close>.\<close>

definition bump :: "streambuf \<Rightarrow> int \<times> streambuf" where
  "bump sb = (to_int_type (sb_get_buffer sb ! sb_gptr sb), sb\<lparr>sb_gptr := sb_gptr sb + 1\<rparr>)"

definition sbumpc :: "streambuf \<Rightarrow> recvs \<Rightarrow> (int \<times> streambuf \<times> recvs) option" where
  "sbumpc sb rs =
     (if sb_gptr sb < sb_egptr sb then let (c, sb) = bump sb in Some (c, sb, rs)
      else case underflow sb rs of
             None \<Rightarrow> None
           | Some (c, sb, rs) \<Rightarrow>
               if c = eof then Some (eof, sb, rs) else let (c, sb) = bump sb in Some (c, sb, rs))"

section \<open>Connecting and closing\<close>

text \<open>
  \<open>connect\<close> to an endpoint: the code of the asynchronous connect decides.  \<open>close\<close> flushes first,
  whatever comes of it.  The boolean result is whether the returned pointer is non-null.
\<close>

definition sb_connect :: "int \<Rightarrow> streambuf \<Rightarrow> bool \<times> streambuf" where
  "sb_connect ec sb = (ec = 0, init_buffers sb)"

definition sb_close :: "int \<Rightarrow> streambuf \<Rightarrow> sends \<Rightarrow> (bool \<times> byte list \<times> streambuf \<times> sends) option" where
  "sb_close ec sb ns =
     (case sync sb ns of
        None \<Rightarrow> None
      | Some (_, out, sb, ns) \<Rightarrow> Some (ec = 0, out, if ec = 0 then init_buffers sb else sb, ns))"

text \<open>
  The loop of \<open>resolve_and_connect\<close> over the resolved endpoints, each with the codes of the
  \<open>close()\<close> and of the \<open>connect\<close> made for it: the endpoints tried and the final code, or the
  exception of a \<open>close()\<close> that failed.
\<close>

definition host_not_found :: int where
  "host_not_found = 1"

fun try_endpoints :: "int \<Rightarrow> ('e \<times> int \<times> int) list \<Rightarrow> 'e list \<times> (exn + int)" where
  "try_endpoints ec [] = ([], Inr ec)"
| "try_endpoints ec ((ep, close_ec, connect_ec) # i) =
     (if ec = 0 then ([], Inr ec)
      else if close_ec \<noteq> 0 then ([], Inl (System_Error close_ec))
      else let (tried, r) = try_endpoints connect_ec i in (ep # tried, r))"

definition resolve_and_connect :: "int \<Rightarrow> ('e \<times> int \<times> int) list \<Rightarrow> 'e list \<times> (exn + int)" where
  "resolve_and_connect ec i = (if ec = 0 then try_endpoints host_not_found i else ([], Inr ec))"

text \<open>\<open>connect\<close> by name, the macro-generated overloads.\<close>

definition sb_connect_query :: "int \<Rightarrow> ('e \<times> int \<times> int) list \<Rightarrow> streambuf \<Rightarrow> 'e list \<times> (exn + bool) \<times> streambuf" where
  "sb_connect_query ec i sb =
     (let (tried, r) = resolve_and_connect ec i
      in (tried, case r of Inl e \<Rightarrow> Inl e | Inr ec \<Rightarrow> Inr (ec = 0), init_buffers sb))"

text \<open>The stream's own \<open>connect\<close> and \<open>close\<close> set \<open>failbit\<close> when the buffer's return null.\<close>

record iostream =
  io_buf :: streambuf
  io_failbit :: bool
  io_badbit :: bool
  io_tied :: bool

definition io_note :: "bool \<Rightarrow> iostream \<Rightarrow> iostream" where
  "io_note ok io = (if ok then io else io\<lparr>io_failbit := True\<rparr>)"

definition io_connect :: "int \<Rightarrow> iostream \<Rightarrow> iostream" where
  "io_connect ec io = (let (ok, sb) = sb_connect ec (io_buf io) in io_note ok (io\<lparr>io_buf := sb\<rparr>))"

definition io_close :: "int \<Rightarrow> iostream \<Rightarrow> sends \<Rightarrow> (byte list \<times> iostream \<times> sends) option" where
  "io_close ec io ns =
     (case sb_close ec (io_buf io) ns of
        None \<Rightarrow> None
      | Some (ok, out, sb, ns) \<Rightarrow> Some (out, io_note ok (io\<lparr>io_buf := sb\<rparr>), ns))"

lemmas sb_consts [simp] = putback_max_def buffer_size_def
lemmas sb_ptr_defs = setg_def setp_null_def setp_all_def

section \<open>The areas stay inside the arrays\<close>

definition sb_ok :: "streambuf \<Rightarrow> bool" where
  "sb_ok sb \<longleftrightarrow> length (sb_get_buffer sb) = buffer_size \<and> length (sb_put_buffer sb) = buffer_size \<and>
     putback_max \<le> sb_gptr sb \<and> sb_gptr sb \<le> sb_egptr sb \<and> sb_egptr sb \<le> buffer_size \<and>
     sb_pptr sb \<le> sb_epptr sb \<and> sb_epptr sb = (if sb_unbuffered sb then 0 else buffer_size)"

lemma to_int_not_eof [simp]: "to_int_type b \<noteq> eof"
proof -
  have "0 \<le> uint b" by simp
  then show ?thesis unfolding to_int_type_def eof_def by linarith
qed

lemma to_char_to_int [simp]: "to_char_type (to_int_type b) = b"
  by (simp add: to_char_type_def to_int_type_def)

lemma init_buffers_ok: "sb_ok sb \<Longrightarrow> sb_ok (init_buffers sb)"
  by (simp add: sb_ok_def init_buffers_def sb_ptr_defs Let_def)

lemma make_streambuf_ok: "length g = buffer_size \<Longrightarrow> length p = buffer_size \<Longrightarrow> sb_ok (make_streambuf g p)"
  by (simp add: sb_ok_def make_streambuf_def init_buffers_def sb_ptr_defs Let_def)

lemma overflow_ok: "sb_ok sb \<Longrightarrow> overflow c sb ns = Some (r, out, sb', ns') \<Longrightarrow> sb_ok sb'"
  by (auto simp: overflow_def sb_ok_def sb_ptr_defs Let_def split: if_splits option.splits list.splits)

lemma sputc_ok: "sb_ok sb \<Longrightarrow> sputc b sb ns = Some (r, out, sb', ns') \<Longrightarrow> sb_ok sb'"
  by (auto simp: sputc_def sb_ok_def dest: overflow_ok [unfolded sb_ok_def, rotated] split: if_splits)

lemma underflow_ok:
  assumes "sb_ok sb" and "\<forall>r\<in>set rs. length (fst r) \<le> buffer_size - putback_max" and "underflow sb rs = Some (c, sb', rs')"
  shows "sb_ok sb' \<and> set rs' \<subseteq> set rs"
  using assms by (auto simp: underflow_def sb_ok_def sb_ptr_defs Let_def split: if_splits list.splits)

text \<open>An operation of a program on the buffer, with the answers of the network threaded through.\<close>

datatype sb_op = Op_Put byte | Op_Sync | Op_Get | Op_Connect int | Op_Close int | Op_Setbuf bool nat

fun sb_exec :: "sb_op \<Rightarrow> streambuf \<times> sends \<times> recvs \<Rightarrow> (streambuf \<times> sends \<times> recvs) option" where
  "sb_exec (Op_Put b) (sb, ns, rs) = (case sputc b sb ns of None \<Rightarrow> None | Some (_, _, sb, ns) \<Rightarrow> Some (sb, ns, rs))"
| "sb_exec Op_Sync (sb, ns, rs) = (case sync sb ns of None \<Rightarrow> None | Some (_, _, sb, ns) \<Rightarrow> Some (sb, ns, rs))"
| "sb_exec Op_Get (sb, ns, rs) = (case sbumpc sb rs of None \<Rightarrow> None | Some (_, sb, rs) \<Rightarrow> Some (sb, ns, rs))"
| "sb_exec (Op_Connect ec) (sb, ns, rs) = Some (snd (sb_connect ec sb), ns, rs)"
| "sb_exec (Op_Close ec) (sb, ns, rs) = (case sb_close ec sb ns of None \<Rightarrow> None | Some (_, _, sb, ns) \<Rightarrow> Some (sb, ns, rs))"
| "sb_exec (Op_Setbuf z n) (sb, ns, rs) = Some (snd (setbuf z n sb), ns, rs)"

fun sb_run :: "sb_op list \<Rightarrow> streambuf \<times> sends \<times> recvs \<Rightarrow> (streambuf \<times> sends \<times> recvs) option" where
  "sb_run [] x = Some x"
| "sb_run (op # ops) x = (case sb_exec op x of None \<Rightarrow> None | Some x \<Rightarrow> sb_run ops x)"

lemma bump_nonempty_ok: "sb_ok sb \<Longrightarrow> sb_gptr sb < sb_egptr sb \<Longrightarrow> sb_ok (snd (bump sb))"
  by (simp add: sb_ok_def bump_def)

text \<open>After a successful \<open>underflow\<close> there is a byte, provided that a receive without error has one.\<close>

definition recv_ok :: "byte list \<times> int \<Rightarrow> bool" where
  "recv_ok r \<longleftrightarrow> length (fst r) \<le> buffer_size - putback_max \<and> (snd r = 0 \<longrightarrow> fst r \<noteq> [])"

lemma sbumpc_ok:
  assumes ok: "sb_ok sb" and rs: "\<forall>r\<in>set rs. recv_ok r" and b: "sbumpc sb rs = Some (c, sb', rs')"
  shows "sb_ok sb' \<and> set rs' \<subseteq> set rs"
proof (cases "sb_gptr sb < sb_egptr sb")
  case True
  then show ?thesis using b bump_nonempty_ok [OF ok True] by (auto simp: sbumpc_def Let_def split_def)
next
  case False
  then have e: "sb_gptr sb = sb_egptr sb" using ok by (simp add: sb_ok_def)
  obtain d sb1 rs1 where u: "underflow sb rs = Some (d, sb1, rs1)" using b False by (auto simp: sbumpc_def split: option.splits)
  have ok1: "sb_ok sb1 \<and> set rs1 \<subseteq> set rs"
    by (rule underflow_ok [OF ok _ u]) (use rs in \<open>auto simp: recv_ok_def\<close>)
  show ?thesis
  proof (cases "d = eof")
    case True
    then show ?thesis using b False u ok1 by (auto simp: sbumpc_def)
  next
    case d: False
    then have "sb_gptr sb1 < sb_egptr sb1"
      using u e rs by (auto simp: underflow_def recv_ok_def sb_ptr_defs Let_def split: list.splits if_splits)
    then show ?thesis using b False u d bump_nonempty_ok ok1 by (auto simp: sbumpc_def Let_def split_def)
  qed
qed

lemma exec_ok:
  assumes ok: "sb_ok sb" and rs: "\<forall>r\<in>set rs. recv_ok r" and x: "sb_exec op (sb, ns, rs) = Some (sb', ns', rs')"
  shows "sb_ok sb' \<and> set rs' \<subseteq> set rs"
proof (cases op)
  case (Op_Close ec)
  then show ?thesis using x ok
    by (auto simp: sb_close_def sync_def split: option.splits if_splits dest!: overflow_ok [OF ok] intro: init_buffers_ok)
next
  case (Op_Setbuf z n)
  then show ?thesis using x ok by (auto simp: setbuf_def sb_ok_def sb_ptr_defs split: if_splits)
qed (use x ok sbumpc_ok [OF ok rs] in \<open>auto simp: sync_def sb_connect_def init_buffers_ok
    split: option.splits dest: overflow_ok [OF ok] sputc_ok [OF ok]\<close>)

text \<open>
  Without that proviso: the fiber can read an empty receive with the code still zero, because the
  handler wakes it before it stores the code.  Then \<open>underflow\<close> returns the byte that happens to stand
  behind the putback area, \<open>sbumpc\<close> steps over it, and \<open>gptr\<close> is one beyond \<open>egptr\<close>.  From then on
  every read is at the end of the stream.
\<close>

definition sb_in :: "streambuf \<Rightarrow> bool" where
  "sb_in sb \<longleftrightarrow> length (sb_get_buffer sb) = buffer_size \<and> length (sb_put_buffer sb) = buffer_size \<and>
     putback_max \<le> sb_gptr sb \<and> sb_egptr sb \<le> buffer_size \<and>
     (sb_gptr sb \<le> sb_egptr sb \<or> sb_egptr sb = putback_max \<and> sb_gptr sb = putback_max + 1) \<and>
     sb_pptr sb \<le> sb_epptr sb \<and> sb_epptr sb = (if sb_unbuffered sb then 0 else buffer_size)"

lemma empty_receive_stale:
  assumes "sb_gptr sb = sb_egptr sb" and "length (sb_get_buffer sb) = buffer_size"
  shows "\<exists>sb'. sbumpc sb (([], 0) # rs) = Some (to_int_type (sb_get_buffer sb ! putback_max), sb', rs) \<and>
    sb_gptr sb' = sb_egptr sb' + 1 \<and> sbumpc sb' rs' = Some (eof, sb', rs')"
  using assms by (simp add: sbumpc_def underflow_def bump_def sb_ptr_defs Let_def)

lemma overflow_in: "sb_in sb \<Longrightarrow> overflow c sb ns = Some (r, out, sb', ns') \<Longrightarrow> sb_in sb'"
  by (auto simp: overflow_def sb_in_def sb_ptr_defs Let_def split: if_splits option.splits list.splits)

lemma sputc_in: "sb_in sb \<Longrightarrow> sputc b sb ns = Some (r, out, sb', ns') \<Longrightarrow> sb_in sb'"
  by (auto simp: sputc_def sb_in_def dest: overflow_in [unfolded sb_in_def, rotated] split: if_splits)

lemma init_buffers_in: "sb_in sb \<Longrightarrow> sb_in (init_buffers sb)"
  by (simp add: sb_in_def init_buffers_def sb_ptr_defs Let_def)

lemma sbumpc_in:
  assumes ok: "sb_in sb" and rs: "\<forall>r\<in>set rs. length (fst r) \<le> buffer_size - putback_max"
    and b: "sbumpc sb rs = Some (c, sb', rs')"
  shows "sb_in sb' \<and> set rs' \<subseteq> set rs"
  using assms
  by (auto simp: sbumpc_def underflow_def bump_def sb_in_def sb_ptr_defs Let_def Suc_le_eq split: if_splits list.splits)

lemma exec_in:
  assumes ok: "sb_in sb" and rs: "\<forall>r\<in>set rs. length (fst r) \<le> buffer_size - putback_max"
    and x: "sb_exec op (sb, ns, rs) = Some (sb', ns', rs')"
  shows "sb_in sb' \<and> set rs' \<subseteq> set rs"
proof (cases op)
  case (Op_Close ec)
  then show ?thesis using x ok
    by (auto simp: sb_close_def sync_def split: option.splits if_splits dest!: overflow_in [OF ok] intro: init_buffers_in)
next
  case (Op_Setbuf z n)
  then show ?thesis using x ok by (auto simp: setbuf_def sb_in_def sb_ptr_defs split: if_splits)
qed (use x ok sbumpc_in [OF ok rs] in \<open>auto simp: sync_def sb_connect_def init_buffers_in
    split: option.splits dest: overflow_in [OF ok] sputc_in [OF ok]\<close>)

text \<open>A property of stream buffers that every operation keeps holds after every program.\<close>

lemma sb_run_keeps:
  assumes step: "\<And>op sb ns rs sb' ns' rs'. I sb \<Longrightarrow> \<forall>r\<in>set rs. Q r \<Longrightarrow> sb_exec op (sb, ns, rs) = Some (sb', ns', rs') \<Longrightarrow>
      I sb' \<and> set rs' \<subseteq> set rs"
    and "I sb" and "\<forall>r\<in>set rs. Q r" and "sb_run ops (sb, ns, rs) = Some (sb', ns', rs')"
  shows "I sb'"
  using assms(2-)
proof (induction ops arbitrary: sb ns rs)
  case (Cons op ops)
  obtain sb1 ns1 rs1 where "sb_exec op (sb, ns, rs) = Some (sb1, ns1, rs1)" "sb_run ops (sb1, ns1, rs1) = Some (sb', ns', rs')"
    using Cons.prems(3) by (auto split: option.splits)
  then show ?case using Cons.IH [of sb1 rs1 ns1] step [OF Cons.prems(1,2)] Cons.prems(2) by blast
qed simp

text \<open>
  C27.  Whatever a program does with a stream buffer (puts, gets, flushes, reconnects, closes, requests
  unbuffered mode), whatever the sends and receives answer, as long as a receive stores no more bytes
  than it has room for: the get and put areas stay inside the two 512-byte arrays, the first 8 bytes of
  the get array stay reserved for putback, and an unbuffered stream has no put area.  The read position
  may pass the end of the get area only by the one byte of an empty receive that the fiber took for
  a success, which stays inside the array; if there is no such receive, it never does.
\<close>

theorem streambuf_areas_in_bounds:
  assumes "length g = buffer_size" and "length p = buffer_size" and "\<forall>r\<in>set rs. length (fst r) \<le> buffer_size - putback_max"
    and "sb_run ops (make_streambuf g p, ns, rs) = Some (sb, ns', rs')"
  shows "sb_in sb \<and> ((\<forall>r\<in>set rs. snd r = 0 \<longrightarrow> fst r \<noteq> []) \<longrightarrow> sb_gptr sb \<le> sb_egptr sb)"
proof -
  have ok: "sb_ok (make_streambuf g p)" using make_streambuf_ok assms(1,2) by blast
  then have "sb_in (make_streambuf g p)" by (simp add: sb_ok_def sb_in_def)
  then have "sb_in sb"
    by (rule sb_run_keeps [of sb_in "\<lambda>r. length (fst r) \<le> buffer_size - putback_max", rotated, OF _ assms(3,4)])
      (rule exec_in; assumption)
  moreover have "sb_ok sb" if "\<forall>r\<in>set rs. snd r = 0 \<longrightarrow> fst r \<noteq> []"
  proof -
    have "\<forall>r\<in>set rs. recv_ok r" using that assms(3) by (simp add: recv_ok_def)
    with ok show ?thesis by (rule sb_run_keeps [of sb_ok recv_ok, rotated, OF _ _ assms(4)]) (rule exec_ok; assumption)
  qed
  ultimately show ?thesis by (auto simp: sb_ok_def)
qed

theorem streambuf_areas_in_bounds_witness:
  "\<exists>sb. sb_run [Op_Put 65, Op_Get, Op_Sync] (make_streambuf (replicate 512 0) (replicate 512 0), [(1, 0)], [([], 0)]) =
     Some (sb, [], []) \<and> sb_in sb"
proof -
  let ?x = "(make_streambuf (replicate 512 0) (replicate 512 0), [(1, 0)], [([], 0)])"
  have "\<exists>sb. sb_run [Op_Put 65, Op_Get, Op_Sync] ?x = Some (sb, [], [])"
    by (simp add: sputc_def sbumpc_def underflow_def bump_def sync_def overflow_def make_streambuf_def init_buffers_def
        sb_ptr_defs Let_def to_int_type_def eof_def numeral_eq_Suc)
  moreover have "\<forall>r\<in>set [([] :: byte list, 0 :: int)]. length (fst r) \<le> buffer_size - putback_max" by simp
  ultimately show ?thesis using streambuf_areas_in_bounds [of "replicate 512 0" "replicate 512 0" "[([], 0)]"]
    by (metis length_replicate buffer_size_def)
qed

section \<open>Output in order\<close>

definition held :: "streambuf \<Rightarrow> byte list" where
  "held sb = take (sb_pptr sb) (sb_put_buffer sb)"

text \<open>Answers of a healthy connection: no error, and a send of a non-empty buffer takes a byte at least.\<close>

definition sends_ok :: "sends \<Rightarrow> bool" where
  "sends_ok ns \<longleftrightarrow> (\<forall>(n, ec) \<in> set ns. 1 \<le> n \<and> ec = 0)"

lemma sends_ok_drop: "sends_ok ns \<Longrightarrow> sends_ok (drop k ns)"
  by (auto simp: sends_ok_def dest!: in_set_dropD)

lemma send_all_ok:
  "sends_ok ns \<Longrightarrow> length bs \<le> length ns \<Longrightarrow> \<exists>k \<le> length bs. send_all bs ns = Some (True, bs, drop k ns)"
proof (induction bs ns rule: send_all.induct)
  case (3 b bs n ec ns)
  have n: "1 \<le> n" and ec: "ec = 0" and ns: "sends_ok ns" using 3(2) by (auto simp: sends_ok_def)
  have "length (drop n (b # bs)) \<le> length ns" using n 3(3) by simp
  then obtain k where "k \<le> length (drop n (b # bs))" "send_all (drop n (b # bs)) ns = Some (True, drop n (b # bs), drop k ns)"
    using 3(1) ec ns by blast
  then show ?case using n ec by (intro exI [of _ "Suc k"]) (auto simp del: drop_append)
qed simp_all

lemma take_Suc_update: "n < length xs \<Longrightarrow> take (Suc n) (xs[n := b]) = take n xs @ [b]"
  by (simp add: take_Suc_conv_app_nth)

lemma sputc_step:
  assumes ok: "sb_ok sb" and ns: "sends_ok ns" and l: "length (held sb) < length ns"
  obtains out sb' k where "sputc b sb ns = Some (to_int_type b, out, sb', drop k ns)" "sb_ok sb'"
    "held sb @ [b] = out @ held sb'" "k \<le> length out"
proof -
  consider "sb_pptr sb < sb_epptr sb" | "sb_unbuffered sb" | "\<not> sb_unbuffered sb" "\<not> sb_pptr sb < sb_epptr sb" by blast
  then show thesis
  proof cases
    case 1
    let ?sb = "sb\<lparr>sb_put_buffer := (sb_put_buffer sb)[sb_pptr sb := b], sb_pptr := sb_pptr sb + 1\<rparr>"
    have "sb_pptr sb < length (sb_put_buffer sb)" using 1 ok by (simp add: sb_ok_def split: if_splits)
    then show thesis
      by (intro that [of "[]" ?sb 0]) (use 1 ok in \<open>auto simp: sputc_def held_def sb_ok_def take_Suc_update\<close>)
  next
    case 2
    then have e: "sb_pptr sb = 0" "sb_epptr sb = 0" using ok by (auto simp: sb_ok_def)
    obtain n ns' where N: "ns = (n, 0) # ns'" "1 \<le> n" using ns l by (cases ns) (auto simp: sends_ok_def)
    show thesis
      by (rule that [of "[b]" sb 1]) (use 2 ok e N in \<open>auto simp: sputc_def overflow_def held_def\<close>)
  next
    case 3
    obtain k where k: "k \<le> length (held sb)" "send_all (held sb) ns = Some (True, held sb, drop k ns)"
      using send_all_ok [OF ns, of "held sb"] l by auto
    let ?sb = "(setp_all sb)\<lparr>sb_put_buffer := (sb_put_buffer sb)[0 := b], sb_pptr := 1\<rparr>"
    have "take (Suc 0) ((sb_put_buffer sb)[0 := b]) = [b]" using ok by (subst take_Suc_update) (auto simp: sb_ok_def)
    then show thesis
      by (intro that [of "held sb" ?sb k])
        (use 3 ok k in \<open>auto simp: sputc_def overflow_def held_def sb_ok_def setp_all_def Let_def\<close>)
  qed
qed

lemma sync_step:
  assumes ok: "sb_ok sb" and ns: "sends_ok ns" and l: "length (held sb) \<le> length ns"
  obtains sb' k where "sync sb ns = Some (not_eof eof, held sb, sb', drop k ns)" "sb_ok sb'" "held sb' = []"
proof (cases "sb_unbuffered sb")
  case True
  then show thesis using ok by (intro that [of sb 0]) (auto simp: sync_def overflow_def held_def sb_ok_def)
next
  case False
  obtain k where "send_all (held sb) ns = Some (True, held sb, drop k ns)" using send_all_ok [OF ns l] by blast
  then show thesis using ok False
    by (intro that [of "setp_all sb" k]) (auto simp: sync_def overflow_def held_def sb_ok_def setp_all_def Let_def)
qed

text \<open>Putting bytes one by one, up to a failure, then flushing; the flag says that nothing failed.\<close>

fun put_flush :: "byte list \<Rightarrow> streambuf \<Rightarrow> sends \<Rightarrow> (bool \<times> byte list \<times> streambuf \<times> sends) option" where
  "put_flush [] sb ns = (case sync sb ns of None \<Rightarrow> None | Some (r, out, sb, ns) \<Rightarrow> Some (r \<noteq> eof, out, sb, ns))"
| "put_flush (b # bs) sb ns =
     (case sputc b sb ns of
        None \<Rightarrow> None
      | Some (r, out, sb, ns) \<Rightarrow>
          if r = eof then Some (False, out, sb, ns)
          else case put_flush bs sb ns of
                 None \<Rightarrow> None
               | Some (ok, out', sb, ns) \<Rightarrow> Some (ok, out @ out', sb, ns))"

lemma put_flush_sends:
  assumes "sb_ok sb" and "sends_ok ns" and "length (held sb) + length bs \<le> length ns"
  shows "\<exists>sb' ns'. put_flush bs sb ns = Some (True, held sb @ bs, sb', ns') \<and> sb_ok sb' \<and> held sb' = []"
  using assms
proof (induction bs arbitrary: sb ns)
  case Nil
  have l: "length (held sb) \<le> length ns" using Nil(3) by simp
  obtain sb' k where "sync sb ns = Some (not_eof eof, held sb, sb', drop k ns)" "sb_ok sb'" "held sb' = []"
    by (rule sync_step [OF Nil(1,2) l]) (rule that; assumption)
  then show ?case by (simp add: not_eof_def eof_def)
next
  case (Cons b bs)
  have l: "length (held sb) < length ns" using Cons.prems(3) by simp
  obtain out sb1 k where S: "sputc b sb ns = Some (to_int_type b, out, sb1, drop k ns)" "sb_ok sb1"
    "held sb @ [b] = out @ held sb1" "k \<le> length out"
    by (rule sputc_step [OF Cons.prems(1,2) l, of b]) (rule that; assumption)
  have "length (held sb) + 1 = length out + length (held sb1)" using arg_cong [OF S(3), of length] by simp
  then have "length (held sb1) + length bs \<le> length (drop k ns)" using S(4) Cons.prems(3) by simp
  then obtain sb' ns' where "put_flush bs sb1 (drop k ns) = Some (True, held sb1 @ bs, sb', ns')" "sb_ok sb'" "held sb' = []"
    using Cons.IH [OF S(2) sends_ok_drop [OF Cons.prems(2)]] by blast
  moreover have "out @ held sb1 @ bs = held sb @ b # bs" using S(3) by (metis append.assoc append_Cons append_Nil)
  ultimately show ?case using S(1) by simp
qed

text \<open>
  C25.  Buffering does not change the output: on a healthy connection any bytes put and then
  flushed reach the network exactly once and in order, whether the stream is buffered, in
  whatever pieces the network takes them, or unbuffered, and at most one send per byte is needed.
\<close>

theorem streambuf_output_transparent:
  assumes "sb_ok sb" and "held sb = []" and "sends_ok ns" and "length bs \<le> length ns"
  shows "\<exists>sb' ns'. put_flush bs sb ns = Some (True, bs, sb', ns') \<and> held sb' = []"
  using put_flush_sends [OF assms(1,3), of bs] assms(2,4) by auto

theorem streambuf_output_transparent_witness:
  "\<exists>sb' ns'. put_flush [1, 2, 3] (snd (setbuf True 0 (make_streambuf (replicate 512 0) (replicate 512 0)))) [(1, 0), (5, 0), (1, 0)] =
     Some (True, [1, 2, 3], sb', ns')"
proof -
  let ?sb = "snd (setbuf True 0 (make_streambuf (replicate 512 0) (replicate 512 0)))"
  have "sb_ok ?sb" "held ?sb = []"
    by (simp_all add: sb_ok_def held_def setbuf_def make_streambuf_def init_buffers_def sb_ptr_defs Let_def)
  then show ?thesis using streambuf_output_transparent [of ?sb "[(1, 0), (5, 0), (1, 0)]" "[1, 2, 3]"]
    by (auto simp: sends_ok_def)
qed

text \<open>
  C39.  A failed flush keeps the whole put area: when a send takes the first \<open>n\<close> bytes and the next
  one fails after \<open>m\<close> more, the following flush sends the buffer from its first byte again, so the
  peer gets those \<open>n + m\<close> bytes twice.
\<close>

theorem failed_flush_resends:
  assumes "sb_ok sb" and "\<not> sb_unbuffered sb" and "0 < n" and "n < length (held sb)" and "ec \<noteq> 0"
    and "sends_ok ns" and "length (held sb) \<le> length ns"
  shows "sync sb ((n, 0) # (m, ec) # ns) = Some (eof, take (n + m) (held sb), sb, ns) \<and>
    (\<exists>sb' ns'. sync sb ns = Some (not_eof eof, held sb, sb', ns'))"
proof -
  obtain c cs where c: "held sb = c # cs" using assms(4) by (cases "held sb") auto
  obtain d ds where d: "drop n (held sb) = d # ds" using assms(4) by (cases "drop n (held sb)") auto
  have "send_all (held sb) ((n, 0) # (m, ec) # ns) = Some (False, take (n + m) (held sb), ns)"
    unfolding take_add using assms(5) c d by (metis (no_types, lifting) case_prod_conv option.case(2) send_all.simps(3))
  then have "sync sb ((n, 0) # (m, ec) # ns) = Some (eof, take (n + m) (held sb), sb, ns)"
    using assms(2) by (simp add: sync_def overflow_def flip: held_def)
  then show ?thesis using sync_step [OF assms(1,6,7)] by blast
qed

theorem failed_flush_resends_witness:
  "let sb = (make_streambuf (replicate 512 0) (replicate 512 7))\<lparr>sb_pptr := 3\<rparr> in
     sb_ok sb \<and> sync sb [(1, 0), (1, 9), (3, 0), (1, 0), (1, 0)] = Some (eof, [7, 7], sb, [(3, 0), (1, 0), (1, 0)])"
proof -
  let ?sb = "(make_streambuf (replicate 512 0) (replicate 512 7))\<lparr>sb_pptr := 3\<rparr>"
  have h: "held ?sb = [7, 7, 7]" by (simp add: held_def make_streambuf_def init_buffers_def sb_ptr_defs Let_def numeral_3_eq_3)
  have "sb_ok ?sb" "\<not> sb_unbuffered ?sb"
    by (simp_all add: sb_ok_def make_streambuf_def init_buffers_def sb_ptr_defs Let_def)
  then show ?thesis using failed_flush_resends [of ?sb 1 9 "[(3, 0), (1, 0), (1, 0)]" 1] unfolding h
    by (simp add: sends_ok_def Let_def numeral_2_eq_2)
qed

section \<open>Input in order\<close>

definition readable :: "streambuf \<Rightarrow> byte list" where
  "readable sb = take (sb_egptr sb - sb_gptr sb) (drop (sb_gptr sb) (sb_get_buffer sb))"

definition unread :: "streambuf \<Rightarrow> recvs \<Rightarrow> byte list" where
  "unread sb rs = readable sb @ concat (map fst rs)"

lemma bump_readable:
  assumes "sb_ok sb" and "sb_gptr sb < sb_egptr sb"
  shows "\<exists>b sb'. bump sb = (to_int_type b, sb') \<and> readable sb = b # readable sb' \<and> sb_ok sb'"
proof -
  have l: "sb_gptr sb < length (sb_get_buffer sb)" using assms by (simp add: sb_ok_def)
  then have "readable sb = sb_get_buffer sb ! sb_gptr sb # readable (sb\<lparr>sb_gptr := sb_gptr sb + 1\<rparr>)"
    using assms(2) by (simp add: readable_def Cons_nth_drop_Suc [symmetric] take_Cons' del: Cons_nth_drop_Suc)
  then show ?thesis using bump_nonempty_ok [OF assms] by (auto simp: bump_def)
qed

lemma underflow_readable:
  assumes ok: "sb_ok sb" and e: "sb_gptr sb = sb_egptr sb" and rs: "rs = (bs, 0) # rs'" "recv_ok (bs, 0)"
  obtains sb' where "underflow sb rs = Some (to_int_type (hd bs), sb', rs')" "sb_ok sb'" "readable sb' = bs"
    "sb_gptr sb' < sb_egptr sb'"
proof -
  let ?sb = "setg 8 (8 + length bs) (sb\<lparr>sb_get_buffer := take 8 (sb_get_buffer sb) @ bs @ drop (8 + length bs) (sb_get_buffer sb)\<rparr>)"
  have l: "length (sb_get_buffer sb) = 512" "length bs \<le> 504" "bs \<noteq> []" using ok rs(2) by (auto simp: sb_ok_def recv_ok_def)
  have b: "sb_get_buffer ?sb ! 8 = hd bs" using l by (simp add: setg_def nth_append hd_conv_nth)
  show thesis
  proof (rule that [of ?sb])
    show "underflow sb rs = Some (to_int_type (hd bs), ?sb, rs')" using e rs(1) b by (simp add: underflow_def Let_def setg_def)
    show "sb_ok ?sb" using ok l by (auto simp: sb_ok_def setg_def)
  qed (use l in \<open>auto simp: readable_def setg_def\<close>)
qed

lemma sbumpc_step:
  assumes ok: "sb_ok sb" and rs: "\<forall>r\<in>set rs. recv_ok r \<and> snd r = 0" and u: "unread sb rs = b # rest"
  obtains sb' rs' where "sbumpc sb rs = Some (to_int_type b, sb', rs')" "sb_ok sb'" "set rs' \<subseteq> set rs" "unread sb' rs' = rest"
proof (cases "sb_gptr sb < sb_egptr sb")
  case True
  obtain c sb' where "bump sb = (to_int_type c, sb')" "readable sb = c # readable sb'" "sb_ok sb'"
    using bump_readable [OF ok True] by blast
  then show thesis using u True by (intro that [of sb' rs]) (auto simp: sbumpc_def unread_def)
next
  case False
  then have e: "sb_gptr sb = sb_egptr sb" using ok by (simp add: sb_ok_def)
  then have r: "readable sb = []" by (simp add: readable_def)
  then obtain bs rs1 where R: "rs = (bs, 0) # rs1" "recv_ok (bs, 0)" using u rs by (cases rs) (auto simp: unread_def)
  obtain sb1 where S: "underflow sb rs = Some (to_int_type (hd bs), sb1, rs1)" "sb_ok sb1" "readable sb1 = bs"
    "sb_gptr sb1 < sb_egptr sb1"
    by (rule underflow_readable [OF ok e R]) (rule that; assumption)
  obtain c sb' where "bump sb1 = (to_int_type c, sb')" "readable sb1 = c # readable sb'" "sb_ok sb'"
    using bump_readable [OF S(2,4)] by blast
  then show thesis using u r R S False by (intro that [of sb' rs1]) (auto simp: sbumpc_def unread_def)
qed

text \<open>Reading \<open>k\<close> characters, up to the end of file.\<close>

fun get_chars :: "nat \<Rightarrow> streambuf \<Rightarrow> recvs \<Rightarrow> (byte list \<times> streambuf \<times> recvs) option" where
  "get_chars 0 sb rs = Some ([], sb, rs)"
| "get_chars (Suc k) sb rs =
     (case sbumpc sb rs of
        None \<Rightarrow> None
      | Some (c, sb, rs) \<Rightarrow>
          if c = eof then Some ([], sb, rs)
          else case get_chars k sb rs of None \<Rightarrow> None | Some (cs, sb, rs) \<Rightarrow> Some (to_char_type c # cs, sb, rs))"

text \<open>
  C26.  The characters a program reads are the bytes received, in order, across the boundaries of
  the receives: as long as bytes are outstanding, reading \<open>k\<close> of them neither blocks nor ends, and
  what is left is the rest.
\<close>

theorem streambuf_input_in_order:
  assumes "sb_ok sb" and "\<forall>r\<in>set rs. recv_ok r \<and> snd r = 0" and "k \<le> length (unread sb rs)"
  shows "\<exists>sb' rs'. get_chars k sb rs = Some (take k (unread sb rs), sb', rs') \<and> unread sb' rs' = drop k (unread sb rs)"
  using assms
proof (induction k arbitrary: sb rs)
  case 0
  then show ?case by simp
next
  case (Suc k)
  obtain b rest where u: "unread sb rs = b # rest" using Suc.prems(3) by (cases "unread sb rs") auto
  obtain sb1 rs1 where S: "sbumpc sb rs = Some (to_int_type b, sb1, rs1)" "sb_ok sb1" "set rs1 \<subseteq> set rs" "unread sb1 rs1 = rest"
    by (rule sbumpc_step [OF Suc.prems(1,2) u]) (rule that; assumption)
  moreover have "\<forall>r\<in>set rs1. recv_ok r \<and> snd r = 0" using S(3) Suc.prems(2) by blast
  ultimately obtain sb' rs' where "get_chars k sb1 rs1 = Some (take k rest, sb', rs')" "unread sb' rs' = drop k rest"
    using Suc.IH [of sb1 rs1] Suc.prems(3) u by auto
  then show ?case using S(1) u by simp
qed

theorem streambuf_input_in_order_witness:
  "\<exists>sb' rs'. get_chars 3 (make_streambuf (replicate 512 0) (replicate 512 0)) [([4, 5], 0), ([6, 7], 0)] =
     Some ([4, 5, 6], sb', rs') \<and> unread sb' rs' = [7]"
proof -
  let ?sb = "make_streambuf (replicate 512 0) (replicate 512 0)" let ?rs = "[([4 :: byte, 5], 0 :: int), ([6, 7], 0)]"
  have "sb_ok ?sb" by (rule make_streambuf_ok) simp_all
  moreover have "\<forall>r\<in>set ?rs. recv_ok r \<and> snd r = 0" by (simp add: recv_ok_def)
  moreover have "unread ?sb ?rs = [4, 5, 6, 7]"
    by (simp add: unread_def readable_def make_streambuf_def init_buffers_def sb_ptr_defs Let_def)
  ultimately show ?thesis using streambuf_input_in_order [of ?sb ?rs 3] by (simp add: numeral_3_eq_3)
qed

section \<open>Connecting by name\<close>

lemma try_all:
  assumes "ec \<noteq> 0" and "\<forall>(ep, c, e) \<in> set xs. c = 0 \<and> e \<noteq> 0"
  shows "try_endpoints ec xs = (map fst xs, Inr (last (ec # map (snd \<circ> snd) xs)))"
  using assms by (induction xs arbitrary: ec) auto

lemma try_until_success:
  assumes "ec \<noteq> 0" and "\<forall>(ep, c, e) \<in> set xs. c = 0 \<and> e \<noteq> 0"
  shows "try_endpoints ec (xs @ (ep, 0, 0) # ys) = (map fst xs @ [ep], Inr 0)"
  using assms by (induction xs arbitrary: ec; cases ys) auto

text \<open>
  Connecting by name tries the resolved endpoints in their order, each once, and stops at the
  first that accepts, with success; when none does, all have been tried and the code is that of
  the last attempt, \<open>host_not_found\<close> when the name resolves to nothing.  A failed resolution is
  reported without an attempt.
\<close>

lemma resolve_and_connect_in_order:
  assumes "\<forall>(ep, c, e) \<in> set xs. c = 0 \<and> e \<noteq> 0" and "ec \<noteq> 0"
  shows "resolve_and_connect ec xs = ([], Inr ec) \<and>
    resolve_and_connect 0 xs = (map fst xs, Inr (last (host_not_found # map (snd \<circ> snd) xs))) \<and>
    resolve_and_connect 0 (xs @ (ep, 0, 0) # ys) = (map fst xs @ [ep], Inr 0)"
  using try_all [OF _ assms(1)] try_until_success [OF _ assms(1)] assms(2)
  by (simp add: resolve_and_connect_def host_not_found_def)

lemma resolve_and_connect_in_order_example:
  "resolve_and_connect 0 ([(''a'', 0, 111), (''b'', 0, 110)] @ (''c'', 0, 0) # [(''d'', 0, 0)]) = ([''a'', ''b'', ''c''], Inr 0)"
  using resolve_and_connect_in_order [of "[(''a'', 0, 111), (''b'', 0, 110)]" 2 "''c''" "[(''d'', 0, 0)]"] by simp

end
