(* ===== verification/CMT_Iostream.thy ===== *)
theory CMT_Iostream
  imports CMT_Streambuf
begin

text \<open>
  The constructors of \<open>basic_socket_iostream\<close>, its \<open>connect\<close> by name, and what their \<open>tie(this)\<close> does: every
  input operation of the stream flushes its own output first.
\<close>

section \<open>Construction\<close>

text \<open>On the uninitialised arrays of the buffer; the stream is tied to itself.\<close>

definition make_iostream :: "byte list \<Rightarrow> byte list \<Rightarrow> iostream" where
  "make_iostream g p = \<lparr>io_buf = make_streambuf g p, io_failbit = False, io_badbit = False, io_tied = True\<rparr>"

text \<open>\<open>connect\<close> by name: the endpoints tried, and the stream or the exception of a \<open>close()\<close>.\<close>

definition io_connect_query :: "int \<Rightarrow> ('e \<times> int \<times> int) list \<Rightarrow> iostream \<Rightarrow> 'e list \<times> (exn + iostream)" where
  "io_connect_query ec i io =
     (let (tried, r, sb) = sb_connect_query ec i (io_buf io)
      in (tried, case r of Inl e \<Rightarrow> Inl e | Inr ok \<Rightarrow> Inr (io_note ok (io\<lparr>io_buf := sb\<rparr>))))"

definition make_iostream_query :: "int \<Rightarrow> ('e \<times> int \<times> int) list \<Rightarrow> byte list \<Rightarrow> byte list \<Rightarrow> 'e list \<times> (exn + iostream)" where
  "make_iostream_query ec i g p = io_connect_query ec i (make_iostream g p)"

section \<open>The tie\<close>

text \<open>
  \<open>std::ostream::flush\<close>, and \<open>std::istream::get\<close>, whose sentry flushes the tied stream; a sentry that fails,
  and the end of the file, set \<open>failbit\<close>.
\<close>

definition io_flush :: "iostream \<Rightarrow> sends \<Rightarrow> (byte list \<times> iostream \<times> sends) option" where
  "io_flush io ns =
     (case sync (io_buf io) ns of
        None \<Rightarrow> None
      | Some (r, out, sb, ns) \<Rightarrow> Some (out, io\<lparr>io_buf := sb, io_badbit := io_badbit io \<or> r = eof\<rparr>, ns))"

definition io_good :: "iostream \<Rightarrow> bool" where
  "io_good io = (\<not> io_failbit io \<and> \<not> io_badbit io)"

definition io_get :: "iostream \<Rightarrow> sends \<Rightarrow> recvs \<Rightarrow> (int \<times> byte list \<times> iostream \<times> sends \<times> recvs) option" where
  "io_get io ns rs =
     (if \<not> io_good io then Some (eof, [], io_note False io, ns, rs)
      else case (if io_tied io then io_flush io ns else Some ([], io, ns)) of
             None \<Rightarrow> None
           | Some (out, io, ns) \<Rightarrow>
               if \<not> io_good io then Some (eof, out, io_note False io, ns, rs)
               else case sbumpc (io_buf io) rs of
                      None \<Rightarrow> None
                    | Some (c, sb, rs) \<Rightarrow> Some (c, out, io_note (c \<noteq> eof) (io\<lparr>io_buf := sb\<rparr>), ns, rs))"

lemma make_iostream_query_failbit:
  assumes "\<forall>(ep, c, e) \<in> set xs. c = 0 \<and> e \<noteq> 0"
  shows "\<exists>io. make_iostream_query 0 xs g p = (map fst xs, Inr io) \<and> io_failbit io \<and> io_tied io"
    "\<exists>io. make_iostream_query 0 (xs @ (ep, 0, 0) # ys) g p = (map fst xs @ [ep], Inr io) \<and> io_good io \<and> io_tied io"
proof -
  have "last (host_not_found # map (snd \<circ> snd) xs) \<noteq> 0"
    using assms by (cases xs rule: rev_cases) (auto simp: host_not_found_def)
  then show "\<exists>io. make_iostream_query 0 xs g p = (map fst xs, Inr io) \<and> io_failbit io \<and> io_tied io"
    using try_all [OF _ assms, of host_not_found]
    by (simp add: make_iostream_query_def io_connect_query_def sb_connect_query_def resolve_and_connect_def
        io_note_def make_iostream_def host_not_found_def)
  show "\<exists>io. make_iostream_query 0 (xs @ (ep, 0, 0) # ys) g p = (map fst xs @ [ep], Inr io) \<and> io_good io \<and> io_tied io"
    using try_until_success [OF _ assms, of host_not_found ep ys]
    by (simp add: make_iostream_query_def io_connect_query_def sb_connect_query_def resolve_and_connect_def
        io_note_def make_iostream_def host_not_found_def io_good_def)
qed

text \<open>A flush leaves the bytes that were received alone.\<close>

lemma sync_readable: "sync sb ns = Some (r, out, sb', ns') \<Longrightarrow> readable sb' = readable sb"
  by (auto simp: sync_def overflow_def readable_def setp_all_def Let_def split: if_splits list.splits option.splits)

text \<open>
  Reading a character from a tied stream first sends all the output that is still held, so that a
  program that writes a request and reads the answer does not wait for an answer to a request it
  kept; the character is the next byte received.
\<close>

lemma tied_get_flushes_first:
  assumes ok: "sb_ok (io_buf io)" "io_good io" "io_tied io" and ns: "sends_ok ns" "length (held (io_buf io)) \<le> length ns"
    and rs: "\<forall>r\<in>set rs. recv_ok r \<and> snd r = 0"
    and u: "unread (io_buf io) rs = b # rest"
  shows "\<exists>io' ns' rs'. io_get io ns rs = Some (to_int_type b, held (io_buf io), io', ns', rs') \<and>
    io_good io' \<and> unread (io_buf io') rs' = rest"
proof -
  obtain sb' k where S: "sync (io_buf io) ns = Some (not_eof eof, held (io_buf io), sb', drop k ns)" "sb_ok sb'" "held sb' = []"
    by (rule sync_step [OF ok(1) ns]) (rule that; assumption)
  have u': "unread sb' rs = b # rest" using u sync_readable [OF S(1)] by (simp add: unread_def)
  obtain sb2 rs' where R: "sbumpc sb' rs = Some (to_int_type b, sb2, rs')" "unread sb2 rs' = rest"
    by (rule sbumpc_step [OF S(2) rs u']) (rule that; assumption)
  have "not_eof eof \<noteq> eof" by (simp add: not_eof_def eof_def)
  then show ?thesis using S(1) R ok(2,3) by (simp add: io_get_def io_flush_def io_good_def io_note_def)
qed

end
