(* ===== verification/CMT_Intake.thy ===== *)
theory CMT_Intake
  imports CMT_Prelude
begin

text \<open>
  The concurrent side of posting a task: the compare-exchange loop of
  \<open>thread::async( const task::ptr& )\<close>, the \<open>exchange\<close> by which \<open>dequeue\<close> takes the whole list,
  and the condition variable on which \<open>process_tasks\<close> waits, as an interleaving of atomic steps
  of any number of posting threads and the one thread that runs the tasks.
\<close>

section \<open>State and steps\<close>

text \<open>
  Where the thread that posts a task stands: it has read \<open>stale_head\<close>, has set \<open>t->next\<close>, has
  succeeded with the compare-exchange, holds the mutex in order to notify, is done.
\<close>

datatype post_pc =
  Post_Start | Post_Loaded "tptr option" | Post_Linked "tptr option" | Post_Pushed
| Post_Notifying | Post_Done

text \<open>
  Where the thread that runs the tasks stands: running (not holding the mutex), holding the mutex
  before the last \<open>dequeue\<close>, holding it after that \<open>dequeue\<close> returned null, waiting on the
  condition variable, woken and about to get the mutex back.
\<close>

datatype loop_pc = Loop_Running | Loop_Locked | Loop_Empty | Loop_Waiting | Loop_Woken

datatype owner = Loop_Owns | Post_Owns tptr

record intake_state =
  ik_head :: "tptr option"
  ik_next :: "tptr \<Rightarrow> tptr option"
  ik_post :: "tptr \<Rightarrow> post_pc"
  ik_taken :: "tptr list"
  ik_loop :: loop_pc
  ik_mutex :: "owner option"

definition intake_init :: intake_state where
  "intake_init = \<lparr>ik_head = None, ik_next = (\<lambda>_. None), ik_post = (\<lambda>_. Post_Start), ik_taken = [],
                  ik_loop = Loop_Running, ik_mutex = None\<rparr>"

definition set_post :: "tptr \<Rightarrow> post_pc \<Rightarrow> intake_state \<Rightarrow> intake_state" where
  "set_post k pc s = s\<lparr>ik_post := (ik_post s)(k := pc)\<rparr>"

text \<open>The steps of the thread that posts task \<open>k\<close>.\<close>

inductive post_step :: "tptr \<Rightarrow> intake_state \<Rightarrow> intake_state \<Rightarrow> bool" for k :: tptr where
  Load: "ik_post s k = Post_Start \<Longrightarrow> post_step k s (set_post k (Post_Loaded (ik_head s)) s)"
| Link: "ik_post s k = Post_Loaded st \<Longrightarrow>
    post_step k s ((set_post k (Post_Linked st) s)\<lparr>ik_next := (ik_next s)(k := st)\<rparr>)"
| Cas_Succeeds: "ik_post s k = Post_Linked st \<Longrightarrow> ik_head s = st \<Longrightarrow>
    post_step k s ((set_post k Post_Pushed s)\<lparr>ik_head := Some k\<rparr>)"
| Cas_Fails: "ik_post s k = Post_Linked st \<Longrightarrow> post_step k s (set_post k (Post_Loaded (ik_head s)) s)"
| Own_Thread: "ik_post s k = Post_Pushed \<Longrightarrow> ik_loop s = Loop_Running \<Longrightarrow> post_step k s (set_post k Post_Done s)"
| Lock: "ik_post s k = Post_Pushed \<Longrightarrow> ik_mutex s = None \<Longrightarrow>
    post_step k s ((set_post k Post_Notifying s)\<lparr>ik_mutex := Some (Post_Owns k)\<rparr>)"
| Notify: "ik_post s k = Post_Notifying \<Longrightarrow>
    post_step k s ((set_post k Post_Done s)
      \<lparr>ik_mutex := None, ik_loop := (if ik_loop s = Loop_Waiting then Loop_Woken else ik_loop s)\<rparr>)"

text \<open>
  The steps of the thread that runs the tasks; \<open>ks\<close> is the list that \<open>exchange\<close> hands it.  The last
  \<open>dequeue\<close>, under the mutex, takes the list in any case.  It returns a task, and the loop goes on with
  it, or it returns null, and the loop waits: null comes from an empty list as well as from one whose
  tasks are all scheduled for later, and a task can come from the queue although the list is empty.
\<close>

inductive loop_step :: "intake_state \<Rightarrow> intake_state \<Rightarrow> bool" where
  Dequeue: "ik_loop s = Loop_Running \<Longrightarrow> chain (ik_next s) (ik_head s) ks \<Longrightarrow>
    loop_step s (s\<lparr>ik_head := None, ik_taken := ik_taken s @ ks\<rparr>)"
| Lock_Mutex: "ik_loop s = Loop_Running \<Longrightarrow> ik_mutex s = None \<Longrightarrow>
    loop_step s (s\<lparr>ik_loop := Loop_Locked, ik_mutex := Some Loop_Owns\<rparr>)"
| Last_Look_None: "ik_loop s = Loop_Locked \<Longrightarrow> ik_head s = None \<Longrightarrow> loop_step s (s\<lparr>ik_loop := Loop_Empty\<rparr>)"
| Last_Look_Some: "ik_loop s = Loop_Locked \<Longrightarrow> ik_head s \<noteq> None \<Longrightarrow> chain (ik_next s) (ik_head s) ks \<Longrightarrow>
    loop_step s (s\<lparr>ik_head := None, ik_taken := ik_taken s @ ks, ik_loop := Loop_Running, ik_mutex := None\<rparr>)"
| Last_Look_Due: "ik_loop s = Loop_Locked \<Longrightarrow> ik_head s = None \<Longrightarrow>
    loop_step s (s\<lparr>ik_loop := Loop_Running, ik_mutex := None\<rparr>)"
| Last_Look_Later: "ik_loop s = Loop_Locked \<Longrightarrow> ik_head s \<noteq> None \<Longrightarrow> chain (ik_next s) (ik_head s) ks \<Longrightarrow>
    loop_step s (s\<lparr>ik_head := None, ik_taken := ik_taken s @ ks, ik_loop := Loop_Empty\<rparr>)"
| Wait: "ik_loop s = Loop_Empty \<Longrightarrow> loop_step s (s\<lparr>ik_loop := Loop_Waiting, ik_mutex := None\<rparr>)"
| Timeout: "ik_loop s = Loop_Waiting \<Longrightarrow> loop_step s (s\<lparr>ik_loop := Loop_Woken\<rparr>)"
| Relock: "ik_loop s = Loop_Woken \<Longrightarrow> ik_mutex s = None \<Longrightarrow> loop_step s (s\<lparr>ik_loop := Loop_Running\<rparr>)"

inductive_cases post_stepE: "post_step k s s'"
inductive_cases loop_stepE: "loop_step s s'"

inductive intake_reach :: "intake_state \<Rightarrow> bool" where
  Init: "intake_reach intake_init"
| Post: "intake_reach s \<Longrightarrow> post_step k s s' \<Longrightarrow> intake_reach s'"
| Loop: "intake_reach s \<Longrightarrow> loop_step s s' \<Longrightarrow> intake_reach s'"

section \<open>The intake list\<close>

definition pushed :: "intake_state \<Rightarrow> tptr \<Rightarrow> bool" where
  "pushed s k = (ik_post s k \<in> {Post_Pushed, Post_Notifying, Post_Done})"

text \<open>
  The list from \<open>task_in_queue\<close> and the tasks taken so far are together exactly the tasks whose
  compare-exchange succeeded, each once; a thread before its compare-exchange has linked its task
  to the head it read.
\<close>

definition intake_inv :: "intake_state \<Rightarrow> tptr list \<Rightarrow> bool" where
  "intake_inv s ks =
     (chain (ik_next s) (ik_head s) ks \<and> distinct (ks @ ik_taken s) \<and>
      (\<forall>k. k \<in> set ks \<union> set (ik_taken s) \<longleftrightarrow> pushed s k) \<and>
      (\<forall>k st. ik_post s k = Post_Linked st \<longrightarrow> ik_next s k = st))"

lemma intake_inv_post:
  assumes "intake_inv s ks" and "post_step k s s'"
  shows "\<exists>ks'. intake_inv s' ks'"
  using assms(2)
proof cases
  case (Link st)
  then have "\<not> pushed s k" by (simp add: pushed_def)
  then have "k \<notin> set ks" using assms(1) by (auto simp: intake_inv_def)
  then have "intake_inv s' ks"
    using assms(1) Link by (auto simp: intake_inv_def set_post_def pushed_def)
  then show ?thesis ..
next
  case (Cas_Succeeds st)
  then have "\<not> pushed s k" by (simp add: pushed_def)
  then have "k \<notin> set (ks @ ik_taken s)" using assms(1) by (auto simp: intake_inv_def)
  then have "intake_inv s' (k # ks)"
    using assms(1) Cas_Succeeds by (auto simp: intake_inv_def set_post_def pushed_def)
  then show ?thesis ..
qed (use assms(1) in \<open>force simp: intake_inv_def set_post_def pushed_def\<close>)+

lemma intake_inv_loop:
  assumes "intake_inv s ks" and "loop_step s s'"
  shows "\<exists>ks'. intake_inv s' ks'"
  using assms(2)
proof cases
  case (Dequeue ks')
  then have "ks' = ks" using assms(1) chain_functional by (auto simp: intake_inv_def)
  with Dequeue assms(1) have "intake_inv s' []" by (auto simp: intake_inv_def pushed_def)
  then show ?thesis ..
next
  case (Last_Look_Some ks')
  then have "ks' = ks" using assms(1) chain_functional by (auto simp: intake_inv_def)
  with Last_Look_Some assms(1) have "intake_inv s' []" by (auto simp: intake_inv_def pushed_def)
  then show ?thesis ..
next
  case (Last_Look_Later ks')
  then have "ks' = ks" using assms(1) chain_functional by (auto simp: intake_inv_def)
  with Last_Look_Later assms(1) have "intake_inv s' []" by (auto simp: intake_inv_def pushed_def)
  then show ?thesis ..
qed (use assms(1) in \<open>auto simp: intake_inv_def pushed_def\<close>)

lemma intake_inv_reach: "intake_reach s \<Longrightarrow> \<exists>ks. intake_inv s ks"
proof (induction rule: intake_reach.induct)
  case Init
  have "intake_inv intake_init []" by (simp add: intake_inv_def intake_init_def pushed_def)
  then show ?case ..
qed (blast dest: intake_inv_post intake_inv_loop)+

text \<open>
  C10.  However the posting threads interleave with each other and with the thread that takes the
  list, no task is lost and none is taken twice: at every moment the tasks whose post has
  succeeded are exactly those in the intake list and those already taken, each once.
\<close>

theorem intake_no_task_lost:
  assumes "intake_reach s"
  shows "\<exists>ks. chain (ik_next s) (ik_head s) ks \<and> distinct (ks @ ik_taken s) \<and>
    (\<forall>k. pushed s k \<longleftrightarrow> k \<in> set ks \<or> k \<in> set (ik_taken s))"
  using intake_inv_reach [OF assms] by (auto simp: intake_inv_def)

section \<open>Waking the loop\<close>

text \<open>Some posting thread has still to notify.\<close>

definition notify_pending :: "intake_state \<Rightarrow> bool" where
  "notify_pending s = (\<exists>k. ik_post s k \<in> {Post_Pushed, Post_Notifying})"

lemma notify_pending_upd:
  "notify_pending s \<Longrightarrow> ik_post s k \<notin> {Post_Pushed, Post_Notifying} \<Longrightarrow> ik_post s' = (ik_post s)(k := pc) \<Longrightarrow>
   notify_pending s'"
  unfolding notify_pending_def by (metis fun_upd_apply)

lemma notify_pendingI: "ik_post s k \<in> {Post_Pushed, Post_Notifying} \<Longrightarrow> notify_pending s"
  by (auto simp: notify_pending_def)

definition wake_inv :: "intake_state \<Rightarrow> bool" where
  "wake_inv s =
     ((ik_mutex s = Some Loop_Owns \<longleftrightarrow> ik_loop s \<in> {Loop_Locked, Loop_Empty}) \<and>
      (\<forall>k. ik_mutex s = Some (Post_Owns k) \<longleftrightarrow> ik_post s k = Post_Notifying) \<and>
      (ik_loop s \<in> {Loop_Empty, Loop_Waiting} \<and> ik_head s \<noteq> None \<longrightarrow> notify_pending s))"

lemma wake_inv_post:
  assumes inv: "wake_inv s" and st: "post_step k s s'"
  shows "wake_inv s'"
  using st
proof cases
  case Load
  then show ?thesis using inv notify_pending_upd [of s k s'] by (auto simp: wake_inv_def set_post_def)
next
  case Link
  then show ?thesis using inv notify_pending_upd [of s k s'] by (auto simp: wake_inv_def set_post_def)
next
  case Cas_Succeeds
  then show ?thesis using inv notify_pendingI [of s' k] by (auto simp: wake_inv_def set_post_def)
next
  case Cas_Fails
  then show ?thesis using inv notify_pending_upd [of s k s'] by (auto simp: wake_inv_def set_post_def)
next
  case Own_Thread
  then show ?thesis using inv by (auto simp: wake_inv_def set_post_def)
next
  case Lock
  then show ?thesis using inv notify_pendingI [of s' k] by (auto simp: wake_inv_def set_post_def)
next
  case Notify
  then have "ik_mutex s = Some (Post_Owns k)" using inv by (simp add: wake_inv_def)
  then have "ik_post s j = Post_Notifying \<longleftrightarrow> j = k" "ik_loop s \<noteq> Loop_Locked" "ik_loop s \<noteq> Loop_Empty" for j
    using inv by (auto simp: wake_inv_def)
  then show ?thesis using Notify by (simp add: wake_inv_def set_post_def)
qed

lemma wake_inv_loop: "wake_inv s \<Longrightarrow> loop_step s s' \<Longrightarrow> wake_inv s'"
  by (erule loop_stepE) (auto simp: wake_inv_def notify_pending_def)

lemma wake_inv_reach: "intake_reach s \<Longrightarrow> wake_inv s"
proof (induction rule: intake_reach.induct)
  case Init
  show ?case by (simp add: wake_inv_def intake_init_def)
qed (blast intro: wake_inv_post wake_inv_loop)+

text \<open>
  C11.  No wake-up is lost: whenever the loop waits on the condition variable (or is about to,
  under the mutex) while a task is in the intake list, some posting thread has still to notify it.
  So the loop never sleeps over a task once all posting threads have returned.
\<close>

theorem no_lost_wakeup:
  assumes "intake_reach s" and "ik_loop s \<in> {Loop_Empty, Loop_Waiting}" and "ik_head s \<noteq> None"
  shows "\<exists>k. ik_post s k = Post_Pushed \<or> ik_post s k = Post_Notifying"
  using wake_inv_reach [OF assms(1)] assms(2,3) by (auto simp: wake_inv_def notify_pending_def)

section \<open>Two posting threads\<close>

text \<open>
  Tasks 1 and 2 posted at the same time: both threads read the empty list, the compare-exchange of
  the second fails once; then the loop has found the list empty before and waits.
\<close>

definition race :: intake_state where
  "race = \<lparr>ik_head = Some 2, ik_next = (\<lambda>_. None)(1 := None, 2 := Some 1),
           ik_post = (\<lambda>_. Post_Start)(1 := Post_Pushed, 2 := Post_Pushed), ik_taken = [],
           ik_loop = Loop_Waiting, ik_mutex = None\<rparr>"

lemma race_reach: "intake_reach race"
proof -
  let ?s1 = "intake_init\<lparr>ik_loop := Loop_Locked, ik_mutex := Some Loop_Owns\<rparr>"
  let ?s2 = "?s1\<lparr>ik_loop := Loop_Empty\<rparr>" let ?s3 = "?s2\<lparr>ik_loop := Loop_Waiting, ik_mutex := None\<rparr>"
  have "intake_reach ?s1" by (rule intake_reach.Loop [OF Init], rule Lock_Mutex) (simp_all add: intake_init_def)
  then have "intake_reach ?s2" by (rule intake_reach.Loop, intro Last_Look_None) (simp_all add: intake_init_def)
  then have s3: "intake_reach ?s3" by (rule intake_reach.Loop, intro Wait) (simp add: intake_init_def)
  let ?a1 = "set_post 1 (Post_Loaded None) ?s3" let ?a2 = "set_post 2 (Post_Loaded None) ?a1"
  let ?a3 = "(set_post 1 (Post_Linked None) ?a2)\<lparr>ik_next := (ik_next ?a2)(1 := None)\<rparr>"
  let ?a4 = "(set_post 2 (Post_Linked None) ?a3)\<lparr>ik_next := (ik_next ?a3)(2 := None)\<rparr>"
  let ?a5 = "(set_post 1 Post_Pushed ?a4)\<lparr>ik_head := Some 1\<rparr>"
  let ?a6 = "set_post 2 (Post_Loaded (Some 1)) ?a5"
  let ?a7 = "(set_post 2 (Post_Linked (Some 1)) ?a6)\<lparr>ik_next := (ik_next ?a6)(2 := Some 1)\<rparr>"
  let ?a8 = "(set_post 2 Post_Pushed ?a7)\<lparr>ik_head := Some 2\<rparr>"
  note d = set_post_def intake_init_def
  have "post_step 1 ?s3 ?a1" using Load [of ?s3 1] by (simp add: d)
  with s3 have r1: "intake_reach ?a1" by (rule intake_reach.Post)
  have "post_step 2 ?a1 ?a2" using Load [of ?a1 2] by (simp add: d)
  with r1 have r2: "intake_reach ?a2" by (rule intake_reach.Post)
  have "post_step 1 ?a2 ?a3" by (rule Link) (simp add: d)
  with r2 have r3: "intake_reach ?a3" by (rule intake_reach.Post)
  have "post_step 2 ?a3 ?a4" by (rule Link) (simp add: d)
  with r3 have r4: "intake_reach ?a4" by (rule intake_reach.Post)
  have "post_step 1 ?a4 ?a5" by (rule Cas_Succeeds) (simp_all add: d)
  with r4 have r5: "intake_reach ?a5" by (rule intake_reach.Post)
  have "post_step 2 ?a5 ?a6" using Cas_Fails [of ?a5 2 None] by (simp add: d)
  with r5 have r6: "intake_reach ?a6" by (rule intake_reach.Post)
  have "post_step 2 ?a6 ?a7" by (rule Link) (simp add: d)
  with r6 have r7: "intake_reach ?a7" by (rule intake_reach.Post)
  have "post_step 2 ?a7 ?a8" by (rule Cas_Succeeds) (simp_all add: d)
  with r7 have "intake_reach ?a8" by (rule intake_reach.Post)
  then show ?thesis by (simp add: d race_def fun_upd_twist)
qed

theorem intake_no_task_lost_witness:
  "\<exists>ks. chain (ik_next race) (ik_head race) ks \<and> distinct (ks @ ik_taken race) \<and>
    (\<forall>k. pushed race k \<longleftrightarrow> k \<in> set ks \<or> k \<in> set (ik_taken race))"
  by (rule intake_no_task_lost [OF race_reach])

theorem no_lost_wakeup_witness:
  "\<exists>k. ik_post race k = Post_Pushed \<or> ik_post race k = Post_Notifying"
  by (rule no_lost_wakeup [OF race_reach]) (simp_all add: race_def)

end
