(* ===== verification/CMT_Locks.thy ===== *)
theory CMT_Locks
  imports CMT_Prelude
begin

text \<open>
  The two locks of the library, \<open>include/boost/cmt/mutex.hpp\<close> and
  \<open>include/boost/cmt/spin_lock.hpp\<close>: an atomic flag taken by \<open>exchange\<close>.  Mutual exclusion is
  proved once, for the contract of a try-lock, and both locks are shown to meet the contract.
\<close>

section \<open>The locks\<close>

datatype lock_state = locked | unlocked

text \<open>\<open>m_state.exchange(locked, ...)\<close>: the old value, and the new state.\<close>

definition exchange_locked :: "lock_state \<Rightarrow> lock_state \<times> lock_state" where
  "exchange_locked m = (m, locked)"

definition mutex_init :: lock_state where
  "mutex_init = unlocked"

definition mutex_try_lock :: "lock_state \<Rightarrow> bool \<times> lock_state" where
  "mutex_try_lock m = (let (old, m) = exchange_locked m in (old \<noteq> locked, m))"

definition mutex_unlock :: "lock_state \<Rightarrow> lock_state" where
  "mutex_unlock m = unlocked"

definition spin_init :: lock_state where
  "spin_init = unlocked"

definition spin_try_lock :: "lock_state \<Rightarrow> bool \<times> lock_state" where
  "spin_try_lock m = (let (old, m) = exchange_locked m in (old \<noteq> locked, m))"

definition spin_unlock :: "lock_state \<Rightarrow> lock_state" where
  "spin_unlock m = unlocked"

text \<open>
  The loops.  Every attempt finds the flag as the other threads have left it: the argument lists
  what the successive attempts find (with the clock reading before each for \<open>timed_lock\<close>).  The
  result is the number of yields made and how the call ended; \<open>None\<close> means that the call still
  loops after these attempts.  \<open>spin_lock\<close> differs only in not yielding.
\<close>

fun mutex_lock :: "lock_state list \<Rightarrow> (nat \<times> lock_state) option" where
  "mutex_lock [] = None"
| "mutex_lock (m # ms) =
     (let (old, m) = exchange_locked m in
      if old = locked then map_option (\<lambda>(n, m). (Suc n, m)) (mutex_lock ms) else Some (0, m))"

fun mutex_timed_lock :: "time_point \<Rightarrow> (time_point \<times> lock_state) list \<Rightarrow> (nat \<times> bool) option" where
  "mutex_timed_lock abs_time [] = None"
| "mutex_timed_lock abs_time ((now, m) # ms) =
     (if abs_time > now then
        (let (ok, m) = mutex_try_lock m in
         if ok then Some (0, True) else map_option (\<lambda>(n, r). (Suc n, r)) (mutex_timed_lock abs_time ms))
      else Some (0, False))"

fun spin_lock :: "lock_state list \<Rightarrow> lock_state option" where
  "spin_lock [] = None"
| "spin_lock (m # ms) =
     (let (old, m) = exchange_locked m in if old = locked then spin_lock ms else Some m)"

fun spin_timed_lock :: "time_point \<Rightarrow> (time_point \<times> lock_state) list \<Rightarrow> bool option" where
  "spin_timed_lock abs_time [] = None"
| "spin_timed_lock abs_time ((now, m) # ms) =
     (if abs_time > now then
        (let (ok, m) = spin_try_lock m in if ok then Some True else spin_timed_lock abs_time ms)
      else Some False)"

section \<open>Mutual exclusion\<close>

text \<open>
  What threads do with a lock: attempt to take it, or give it back (only its holders do).  The
  second component of the state is the list of those who hold it.
\<close>

datatype lock_event = Attempt nat | Unlock nat

fun lock_run :: "('l \<Rightarrow> bool \<times> 'l) \<Rightarrow> ('l \<Rightarrow> 'l) \<Rightarrow> lock_event list \<Rightarrow> 'l \<times> nat list \<Rightarrow> 'l \<times> nat list" where
  "lock_run tryl unl [] st = st"
| "lock_run tryl unl (Attempt a # es) (l, hs) =
     (let (ok, l) = tryl l in lock_run tryl unl es (l, if ok then a # hs else hs))"
| "lock_run tryl unl (Unlock a # es) (l, hs) =
     (if a \<in> set hs then lock_run tryl unl es (unl l, remove1 a hs) else lock_run tryl unl es (l, hs))"

text \<open>The contract of a try-lock.\<close>

locale try_lock =
  fixes tryl :: "'l \<Rightarrow> bool \<times> 'l" and unl :: "'l \<Rightarrow> 'l" and start :: 'l and taken :: "'l \<Rightarrow> bool"
  assumes start_free: "\<not> taken start"
    and try_result: "fst (tryl l) = (\<not> taken l)"
    and try_takes: "taken (snd (tryl l))"
    and unlock_frees: "\<not> taken (unl l)"
begin

text \<open>At most one holder, and the flag says whether there is one.\<close>

definition exclusive :: "'l \<times> nat list \<Rightarrow> bool" where
  "exclusive st = (length (snd st) \<le> 1 \<and> (taken (fst st) \<longleftrightarrow> snd st \<noteq> []))"

lemma run_exclusive: "exclusive st \<Longrightarrow> exclusive (lock_run tryl unl es st)"
proof (induction es arbitrary: st)
  case (Cons e es)
  obtain l hs where st: "st = (l, hs)" by (cases st)
  show ?case
  proof (cases e)
    case (Attempt a)
    obtain ok l' where t: "tryl l = (ok, l')" by fastforce
    have "exclusive (l', if ok then a # hs else hs)"
      using Cons.prems try_result [of l] try_takes [of l] t st by (auto simp: exclusive_def)
    with Cons.IH Attempt t st show ?thesis by simp
  next
    case (Unlock a)
    have "exclusive (unl l, remove1 a hs)" if "a \<in> set hs"
      using Cons.prems unlock_frees [of l] that st by (cases hs) (auto simp: exclusive_def)
    with Cons Unlock st show ?thesis by simp
  qed
qed simp

lemma holders: "length (snd (lock_run tryl unl es (start, []))) \<le> 1"
  using run_exclusive [of "(start, [])" es] start_free by (simp add: exclusive_def)

lemma free_again: "snd (lock_run tryl unl es (start, [])) = [] \<Longrightarrow>
    fst (tryl (fst (lock_run tryl unl es (start, []))))"
  using run_exclusive [of "(start, [])" es] start_free try_result by (simp add: exclusive_def)

end

interpretation mtx: try_lock mutex_try_lock mutex_unlock mutex_init "\<lambda>m. m = locked"
  by unfold_locales (auto simp: mutex_try_lock_def mutex_unlock_def mutex_init_def exchange_locked_def)

interpretation spl: try_lock spin_try_lock spin_unlock spin_init "\<lambda>m. m = locked"
  by unfold_locales (auto simp: spin_try_lock_def spin_unlock_def spin_init_def exchange_locked_def)

text \<open>
  C28.  \<open>mutex\<close> excludes: after any sequence of attempts and unlocks by any threads and fibers at
  most one of them holds it; and when nobody does, the next attempt succeeds, so that a released
  lock is never lost.
\<close>

theorem mutex_exclusion:
  "length (snd (lock_run mutex_try_lock mutex_unlock es (mutex_init, []))) \<le> 1 \<and>
   (snd (lock_run mutex_try_lock mutex_unlock es (mutex_init, [])) = [] \<longrightarrow>
    fst (mutex_try_lock (fst (lock_run mutex_try_lock mutex_unlock es (mutex_init, [])))))"
  using mtx.holders mtx.free_again by blast

theorem mutex_exclusion_witness:
  "length (snd (lock_run mutex_try_lock mutex_unlock [Attempt 1, Attempt 2, Unlock 1] (mutex_init, []))) \<le> 1 \<and>
   fst (mutex_try_lock (fst (lock_run mutex_try_lock mutex_unlock [Attempt 1, Attempt 2, Unlock 1] (mutex_init, []))))"
proof -
  have "snd (lock_run mutex_try_lock mutex_unlock [Attempt 1, Attempt 2, Unlock 1] (mutex_init, [])) = []"
    by (simp add: mutex_try_lock_def mutex_unlock_def mutex_init_def exchange_locked_def)
  with mutex_exclusion [of "[Attempt 1, Attempt 2, Unlock 1]"] show ?thesis by simp
qed

text \<open>
  \<open>spin_lock\<close>, which guards \<open>task::active_context\<close>, excludes in the same way.
\<close>

lemma spin_lock_exclusion:
  "length (snd (lock_run spin_try_lock spin_unlock es (spin_init, []))) \<le> 1 \<and>
   (snd (lock_run spin_try_lock spin_unlock es (spin_init, [])) = [] \<longrightarrow>
    fst (spin_try_lock (fst (lock_run spin_try_lock spin_unlock es (spin_init, [])))))"
  using spl.holders spl.free_again by blast

section \<open>The loops\<close>

text \<open>
  \<open>mutex::lock\<close> returns at the first attempt that finds the flag free, after one yield for
  each attempt before it, and goes on for ever only if every attempt finds it taken.
\<close>

lemma mutex_lock_first_free:
  "mutex_lock ms = (if unlocked \<in> set ms then Some (length (takeWhile (\<lambda>m. m = locked) ms), locked) else None)"
proof (induction ms)
  case (Cons m ms)
  then show ?case by (cases m) (auto simp: exchange_locked_def)
qed simp

text \<open>
  \<open>mutex::timed_lock\<close> ends as soon as one clock reading is not before the deadline or one
  attempt finds the flag free; it reports success exactly if an attempt found the flag free while
  all readings up to it were before the deadline.
\<close>

lemma mutex_timed_lock_spec:
  "mutex_timed_lock abs_time ms =
     (let tries = takeWhile (\<lambda>(now, m). now < abs_time \<and> m = locked) ms in
      case drop (length tries) ms of
        [] \<Rightarrow> None
      | (now, m) # _ \<Rightarrow> Some (length tries, now < abs_time))"
proof (induction ms)
  case (Cons x ms)
  obtain now m where x: "x = (now, m)" by (cases x)
  show ?case
  proof (cases "now < abs_time \<and> m = locked")
    case True
    with Cons x show ?thesis
      by (auto simp: mutex_try_lock_def exchange_locked_def Let_def split: list.split)
  next
    case False
    with x show ?thesis by (cases m) (auto simp: mutex_try_lock_def exchange_locked_def)
  qed
qed simp

end
