(* ===== verification/CMT_Retainable.thy ===== *)
theory CMT_Retainable
  imports CMT_Prelude "HOL-Library.Word"
begin

text \<open>
  Reference counting, \<open>include/boost/cmt/retainable.hpp\<close>: the counted object \<open>retainable\<close> with
  its 32-bit count, and the smart pointer \<open>retainable_ptr<T>\<close>.  Objects live in a store; smart
  pointers are variables that hold a possibly null object pointer.  Some of these variables are
  members of objects: the destructor of an object destroys them, which may release further objects.
\<close>

section \<open>Objects\<close>

text \<open>
  Touching an object or a smart pointer after its destruction is the fault that reference counting
  must prevent.
\<close>

datatype rc_fault = Use_After_Free

record rc_state =
  rc_count :: "ptr \<Rightarrow> 32 word"
  rc_heap :: "ptr list"
  rc_members :: "ptr \<Rightarrow> nat list"
  rc_vars :: "nat \<Rightarrow> ptr option option"

text \<open>
  \<open>rc_heap\<close> lists the objects that exist, \<open>rc_members s a\<close> the smart pointers that are members of \<open>a\<close>
  in the order of their declaration; \<open>rc_vars s x\<close> is \<open>None\<close> when variable \<open>x\<close> does not exist,
  \<open>Some None\<close> when it is null.
\<close>

definition rc_live :: "rc_state \<Rightarrow> ptr \<Rightarrow> bool" where
  "rc_live s a = (a \<in> set (rc_heap s))"



definition retain :: "ptr \<Rightarrow> rc_state \<Rightarrow> rc_fault + rc_state" where
  "retain a s =
     (if rc_live s a then Inr (s\<lparr>rc_count := (rc_count s)(a := rc_count s a + 1)\<rparr>) else Inl Use_After_Free)"

definition fetch_sub :: "ptr \<Rightarrow> rc_state \<Rightarrow> rc_state" where
  "fetch_sub a s = s\<lparr>rc_count := (rc_count s)(a := rc_count s a - 1)\<rparr>"

definition del_object :: "ptr \<Rightarrow> rc_state \<Rightarrow> rc_state" where
  "del_object a s = s\<lparr>rc_heap := removeAll a (rc_heap s)\<rparr>"

definition del_ptr :: "nat \<Rightarrow> rc_state \<Rightarrow> rc_state" where
  "del_ptr x s = s\<lparr>rc_vars := (rc_vars s)(x := None)\<rparr>"

lemma heap_simps [simp]:
  "rc_heap (fetch_sub a s) = rc_heap s" "rc_heap (del_ptr x s) = rc_heap s" "rc_heap (del_object a s) = removeAll a (rc_heap s)"
  "rc_vars (fetch_sub a s) = rc_vars s" "rc_vars (del_object a s) = rc_vars s" "rc_vars (del_ptr x s) = (rc_vars s)(x := None)"
  "rc_members (fetch_sub a s) = rc_members s" "rc_members (del_object a s) = rc_members s" "rc_members (del_ptr x s) = rc_members s"
  "rc_count (fetch_sub a s) = (rc_count s)(a := rc_count s a - 1)" "rc_count (del_object a s) = rc_count s"
  "rc_count (del_ptr x s) = rc_count s"
  by (simp_all add: fetch_sub_def del_ptr_def del_object_def)

text \<open>
  The destructor of a smart pointer, for a list of smart pointers that are to be destroyed one after
  the other.  When it gives up the last reference to an object, \<open>delete this\<close> runs the destructors of
  the members of that object, in the reverse order of their declaration, before the others.
\<close>

function destroy_all :: "nat list \<Rightarrow> rc_state \<Rightarrow> rc_fault + rc_state" where
  "destroy_all [] s = Inr s"
| "destroy_all (x # xs) s =
     (case rc_vars s x of
        None \<Rightarrow> Inl Use_After_Free
      | Some None \<Rightarrow> destroy_all xs (del_ptr x s)
      | Some (Some a) \<Rightarrow>
          if \<not> rc_live s a then Inl Use_After_Free
          else if rc_count s a = 1
          then destroy_all (rev (rc_members s a) @ xs) (del_object a (fetch_sub a (del_ptr x s)))
          else destroy_all xs (fetch_sub a (del_ptr x s)))"
  by pat_completeness auto

termination destroy_all
  by (relation "measures [\<lambda>(xs, s). length (rc_heap s), \<lambda>(xs, s). length xs]")
    (auto simp: rc_live_def length_removeAll_less)

definition release :: "ptr \<Rightarrow> rc_state \<Rightarrow> rc_fault + rc_state" where
  "release a s =
     (if rc_live s a then
        (if rc_count s a = 1 then destroy_all (rev (rc_members s a)) (del_object a (fetch_sub a s))
         else Inr (fetch_sub a s))
      else Inl Use_After_Free)"

section \<open>Smart pointers\<close>

definition get_ptr :: "nat \<Rightarrow> rc_state \<Rightarrow> ptr option" where
  "get_ptr x s = (case rc_vars s x of Some p \<Rightarrow> p | None \<Rightarrow> None)"

definition set_ptr :: "nat \<Rightarrow> ptr option \<Rightarrow> rc_state \<Rightarrow> rc_state" where
  "set_ptr x p s = s\<lparr>rc_vars := (rc_vars s)(x := Some p)\<rparr>"

definition retain_opt :: "ptr option \<Rightarrow> rc_state \<Rightarrow> rc_fault + rc_state" where
  "retain_opt p s = (case p of Some a \<Rightarrow> retain a s | None \<Rightarrow> Inr s)"

definition release_opt :: "ptr option \<Rightarrow> rc_state \<Rightarrow> rc_fault + rc_state" where
  "release_opt p s = (case p of Some a \<Rightarrow> release a s | None \<Rightarrow> Inr s)"




text \<open>\<open>x = std::move(y)\<close>.\<close>

definition ptr_move_assign :: "nat \<Rightarrow> nat \<Rightarrow> rc_state \<Rightarrow> rc_fault + rc_state" where
  "ptr_move_assign x y s = Inr (set_ptr y None (set_ptr x (get_ptr y s) s))"

text \<open>
  \<open>x = y\<close>: the old object is released first; then \<open>y\<close> is read and \<open>x\<close> written, which must still
  exist.
\<close>

definition ptr_assign :: "nat \<Rightarrow> nat \<Rightarrow> rc_state \<Rightarrow> rc_fault + rc_state" where
  "ptr_assign x y s =
     (if get_ptr x s = get_ptr y s then Inr s
      else case release_opt (get_ptr x s) s of
             Inl f \<Rightarrow> Inl f
           | Inr s \<Rightarrow>
               (if rc_vars s x = None \<or> rc_vars s y = None then Inl Use_After_Free
                else (let p = get_ptr y s; s = set_ptr x p s in retain_opt p s)))"




section \<open>Ownership\<close>

text \<open>The variables that point to an object.\<close>

definition holders_of :: "ptr \<Rightarrow> rc_state \<Rightarrow> nat set" where
  "holders_of a s = {x. rc_vars s x = Some (Some a)}"

text \<open>
  Every live object is counted exactly: the count is the number of smart pointers to it plus the
  \<open>raw a\<close> references held outside smart pointers; there is at least one, and fewer than the 32-bit
  count can express.  No smart pointer points to a dead object.
\<close>

definition rc_obj :: "nat \<Rightarrow> ptr \<Rightarrow> rc_state \<Rightarrow> bool" where
  "rc_obj n a s =
     (finite (holders_of a s) \<and>
      (if rc_live s a then 0 < unat (rc_count s a) \<and> unat (rc_count s a) = card (holders_of a s) + n
       else holders_of a s = {} \<and> n = 0))"

definition rc_inv :: "(ptr \<Rightarrow> nat) \<Rightarrow> rc_state \<Rightarrow> bool" where
  "rc_inv raw s = (\<forall>a. rc_obj (raw a) a s)"

text \<open>
  Every member of a live object exists and belongs to one object only; \<open>ws\<close> are variables outside
  objects that are to be destroyed.
\<close>

definition rc_mem :: "nat list \<Rightarrow> rc_state \<Rightarrow> bool" where
  "rc_mem ws s =
     (distinct ws \<and> (\<forall>x \<in> set ws. rc_vars s x \<noteq> None) \<and>
      (\<forall>a. rc_live s a \<longrightarrow> distinct (rc_members s a) \<and> set (rc_members s a) \<inter> set ws = {} \<and>
         (\<forall>x \<in> set (rc_members s a). rc_vars s x \<noteq> None)) \<and>
      (\<forall>a b x. rc_live s a \<and> rc_live s b \<and> x \<in> set (rc_members s a) \<and> x \<in> set (rc_members s b) \<longrightarrow> a = b))"

lemma rc_invD: "rc_inv raw s \<Longrightarrow> rc_obj (raw a) a s"
  by (simp add: rc_inv_def)

text \<open>Two states that agree on an object.\<close>

lemma rc_obj_cong: "holders_of a s' = holders_of a s \<Longrightarrow> rc_live s' a = rc_live s a \<Longrightarrow>
    rc_count s' a = rc_count s a \<Longrightarrow> rc_obj n a s' = rc_obj n a s"
  by (simp add: rc_obj_def)

lemma rc_inv_change:
  assumes "rc_inv raw s" and "rc_obj n a s'"
    and "\<And>b. b \<noteq> a \<Longrightarrow> holders_of b s' = holders_of b s \<and> rc_live s' b = rc_live s b \<and> rc_count s' b = rc_count s b"
  shows "rc_inv (raw(a := n)) s'"
  using assms rc_obj_cong [of _ s' s] by (auto simp: rc_inv_def)

text \<open>Room for one more reference before the signed count overflows.\<close>

definition room :: "ptr option \<Rightarrow> rc_state \<Rightarrow> bool" where
  "room p s = (case p of Some a \<Rightarrow> unat (rc_count s a) < 2147483647 | None \<Rightarrow> True)"

lemma unat_inc32:
  assumes "unat (w :: 32 word) < 2147483647"
  shows "unat (w + 1) = unat w + 1"
proof -
  have "unat (w + 1) = (unat w + unat (1 :: 32 word)) mod 2 ^ 32" by (simp add: unat_word_ariths(1))
  then show ?thesis using assms by simp
qed

lemma unat_dec32:
  assumes "0 < unat (w :: 32 word)"
  shows "unat (w - 1) = unat w - 1"
proof -
  have "w - 1 = of_nat (unat w - 1)" using assms by (simp add: of_nat_diff)
  then have "unat (w - 1) = (unat w - 1) mod 2 ^ 32" by (simp add: unat_of_nat)
  moreover have "unat w < 2 ^ 32" using unsigned_less [where w = w and 'a = nat] by simp
  ultimately show ?thesis by simp
qed

lemma unat_one32: "w = (1 :: 32 word) \<longleftrightarrow> unat w = 1"
  by (metis unat_1 word_unat_eq_iff)

lemma set_ptr_simps [simp]:
  "rc_vars (set_ptr x p s) = (rc_vars s)(x := Some p)" "rc_heap (set_ptr x p s) = rc_heap s"
  "rc_members (set_ptr x p s) = rc_members s" "rc_count (set_ptr x p s) = rc_count s"
  by (simp_all add: set_ptr_def)

lemma live_simps [simp]:
  "rc_live (s\<lparr>rc_count := c\<rparr>) a = rc_live s a" "rc_live (set_ptr x p s) a = rc_live s a" "rc_live (del_ptr x s) a = rc_live s a"
  "rc_live (fetch_sub b s) a = rc_live s a" "rc_live (del_object b s) a \<longleftrightarrow> rc_live s a \<and> a \<noteq> b"
  by (auto simp: rc_live_def)

lemma holders_simps [simp]:
  "holders_of a (s\<lparr>rc_count := c\<rparr>) = holders_of a s" "holders_of a (fetch_sub b s) = holders_of a s"
  "holders_of a (del_object b s) = holders_of a s" "holders_of a (del_ptr x s) = holders_of a s - {x}"
  "holders_of a (set_ptr x p s) = (if p = Some a then insert x (holders_of a s) else holders_of a s - {x})"
  by (auto simp: holders_of_def)

lemma retain_opt_set: "retain_opt p (set_ptr x q s) = map_sum id (set_ptr x q) (retain_opt p s)"
  by (cases p) (simp_all add: retain_opt_def retain_def set_ptr_def rc_live_def)

text \<open>
  The elementary moves, with references in flight counted as raw ones: take a reference, give one
  up, put one into a null variable, take one out of a variable.
\<close>

lemma retain_inv:
  assumes inv: "rc_inv raw s" and "rc_live s a" and "unat (rc_count s a) < 2147483647"
  shows "\<exists>s'. retain a s = Inr s' \<and> rc_inv (raw(a := raw a + 1)) s' \<and> rc_vars s' = rc_vars s \<and>
    rc_heap s' = rc_heap s \<and> rc_members s' = rc_members s"
proof -
  let ?s = "s\<lparr>rc_count := (rc_count s)(a := rc_count s a + 1)\<rparr>"
  have "rc_obj (raw a + 1) a ?s" using rc_invD [OF inv, of a] assms(2,3) by (simp add: rc_obj_def unat_inc32)
  then have "rc_inv (raw(a := raw a + 1)) ?s" by (rule rc_inv_change [OF inv]) simp
  then show ?thesis using assms(2) by (simp add: retain_def)
qed

lemma fetch_sub_inv:
  assumes inv: "rc_inv raw s" and raw: "0 < raw a"
  shows "rc_live s a" "rc_count s a = 1 \<Longrightarrow> rc_inv (raw(a := raw a - 1)) (del_object a (fetch_sub a s))"
    "rc_count s a \<noteq> 1 \<Longrightarrow> rc_inv (raw(a := raw a - 1)) (fetch_sub a s)"
proof -
  show live: "rc_live s a" using rc_invD [OF inv, of a] raw by (auto simp: rc_obj_def split: if_splits)
  then have c: "0 < unat (rc_count s a)" "unat (rc_count s a) = card (holders_of a s) + raw a"
    "finite (holders_of a s)" using rc_invD [OF inv, of a] by (auto simp: rc_obj_def)
  show "rc_inv (raw(a := raw a - 1)) (del_object a (fetch_sub a s))" if "rc_count s a = 1"
  proof (rule rc_inv_change [OF inv])
    have "unat (rc_count s a) = 1" using that by simp
    then have "card (holders_of a s) = 0" "raw a - 1 = 0" using c(2) raw by linarith+
    then show "rc_obj (raw a - 1) a (del_object a (fetch_sub a s))" using c(3) by (simp add: rc_obj_def)
  qed auto
  show "rc_inv (raw(a := raw a - 1)) (fetch_sub a s)" if "rc_count s a \<noteq> 1"
  proof (rule rc_inv_change [OF inv])
    have "unat (rc_count s a) \<noteq> 1" using that by (simp add: unat_one32)
    then have "0 < unat (rc_count s a - 1)" "unat (rc_count s a - 1) = card (holders_of a s) + (raw a - 1)"
      using c(1,2) raw unat_dec32 [OF c(1)] by linarith+
    then show "rc_obj (raw a - 1) a (fetch_sub a s)" using live c(3) by (simp add: rc_obj_def)
  qed auto
qed

lemma null_holder: "get_ptr x s = None \<Longrightarrow> x \<notin> holders_of b s"
  by (auto simp: holders_of_def get_ptr_def)

lemma adopt_inv:
  assumes inv: "rc_inv raw s" and raw: "0 < raw a" and x: "get_ptr x s = None"
  shows "rc_inv (raw(a := raw a - 1)) (set_ptr x (Some a) s)"
proof (rule rc_inv_change [OF inv])
  show "rc_obj (raw a - 1) a (set_ptr x (Some a) s)"
    using rc_invD [OF inv, of a] raw null_holder [OF x, of a] by (auto simp: rc_obj_def split: if_splits)
qed (use null_holder [OF x] in auto)

lemma null_inv:
  assumes "rc_inv raw s" and "get_ptr x s = None"
  shows "rc_inv raw (set_ptr x None s)" "rc_inv raw (del_ptr x s)"
proof -
  have h: "holders_of b (set_ptr x None s) = holders_of b s" "holders_of b (del_ptr x s) = holders_of b s" for b
    using null_holder [OF assms(2), of b] by auto
  have "rc_obj n b (set_ptr x None s) = rc_obj n b s" "rc_obj n b (del_ptr x s) = rc_obj n b s" for n b
    by (rule rc_obj_cong; simp add: h del: holders_simps)+
  then show "rc_inv raw (set_ptr x None s)" "rc_inv raw (del_ptr x s)" using assms(1) by (simp_all add: rc_inv_def)
qed

lemma disown_inv:
  assumes inv: "rc_inv raw s" and x: "get_ptr x s = Some a" and s': "s' = set_ptr x None s \<or> s' = del_ptr x s"
  shows "rc_inv (raw(a := raw a + 1)) s'"
proof (rule rc_inv_change [OF inv])
  have xa: "x \<in> holders_of a s" using x by (auto simp: holders_of_def get_ptr_def split: option.splits)
  have o: "rc_live s a" "finite (holders_of a s)" "0 < unat (rc_count s a)"
      "unat (rc_count s a) = card (holders_of a s) + raw a"
    using rc_invD [OF inv, of a] xa by (auto simp: rc_obj_def split: if_splits)
  have "card (holders_of a s) = Suc (card (holders_of a s - {x}))" by (rule card.remove [OF o(2) xa])
  then have "unat (rc_count s a) = card (holders_of a s - {x}) + (raw a + 1)" using o(4) by linarith
  moreover have "holders_of a s' = holders_of a s - {x}" "rc_live s' a = rc_live s a" "rc_count s' = rc_count s"
    using s' by auto
  ultimately show "rc_obj (raw a + 1) a s'" using o(1-3) by (simp add: rc_obj_def)
  fix b assume "b \<noteq> a"
  then have "x \<notin> holders_of b s" using x by (auto simp: holders_of_def get_ptr_def split: option.splits)
  then show "holders_of b s' = holders_of b s \<and> rc_live s' b = rc_live s b \<and> rc_count s' b = rc_count s b"
    using s' by auto
qed

section \<open>Destruction runs through\<close>

lemma get_live: "rc_inv raw s \<Longrightarrow> rc_vars s y = Some (Some a) \<Longrightarrow> rc_live s a"
  using rc_invD [of raw s a] by (auto simp: rc_obj_def holders_of_def split: if_splits)

text \<open>Destruction removes variables and objects and changes no other variable.\<close>

definition shrunk :: "rc_state \<Rightarrow> rc_state \<Rightarrow> bool" where
  "shrunk s s' =
     ((\<forall>z. rc_vars s' z = None \<or> rc_vars s' z = rc_vars s z) \<and> set (rc_heap s') \<subseteq> set (rc_heap s) \<and>
      rc_members s' = rc_members s)"

lemma destroy_all_shrinks: "destroy_all ws s = Inr s' \<Longrightarrow> shrunk s s'"
proof (induction ws s rule: destroy_all.induct)
  case (2 x xs s)
  then show ?case by (fastforce simp: shrunk_def split: option.splits if_splits)
qed (simp add: shrunk_def)

text \<open>When an object dies its members are left over for destruction.\<close>

lemma rc_mem_tl: "rc_mem (x # xs) s \<Longrightarrow> rc_mem xs (del_ptr x s)"
  by (auto simp: rc_mem_def)

lemma rc_mem_del:
  assumes m: "rc_mem ws s" and a: "rc_live s a"
  shows "rc_mem (rev (rc_members s a) @ ws) (del_object a (fetch_sub a s))"
proof -
  have one: "b = a" if "rc_live s b" "x \<in> set (rc_members s a)" "x \<in> set (rc_members s b)" for b x
    using m a that unfolding rc_mem_def by blast
  have "distinct (rc_members s a)" "set (rc_members s a) \<inter> set ws = {}" "\<forall>x \<in> set (rc_members s a). rc_vars s x \<noteq> None"
    using m a unfolding rc_mem_def by blast+
  with m one show ?thesis unfolding rc_mem_def by (auto; blast)
qed

text \<open>
  A list of variables outside objects is destroyed without fault, however many objects that takes
  along; the counts stay exact, and variables that belong to no object stay.
\<close>

lemma destroy_all_inv:
  assumes "rc_inv raw s" and "rc_mem ws s"
  shows "\<exists>s'. destroy_all ws s = Inr s' \<and> rc_inv raw s' \<and> rc_mem [] s' \<and>
    (\<forall>z. z \<notin> set ws \<and> (\<forall>a. rc_live s a \<longrightarrow> z \<notin> set (rc_members s a)) \<longrightarrow> rc_vars s' z = rc_vars s z)"
  using assms
proof (induction ws s rule: destroy_all.induct)
  case (2 x xs s)
  have x: "rc_vars s x \<noteq> None" using 2(5) by (simp add: rc_mem_def)
  show ?case
  proof (cases "get_ptr x s")
    case None
    then have v: "rc_vars s x = Some None" using x by (auto simp: get_ptr_def)
    have "rc_mem xs (del_ptr x s)" using 2(5) by (auto simp: rc_mem_def)
    from "2.IH"(1) [OF v refl null_inv(2) [OF 2(4) None] this] show ?thesis using v by auto
  next
    case (Some a)
    then have v: "rc_vars s x = Some (Some a)" using x by (auto simp: get_ptr_def)
    let ?d = "del_ptr x s"
    have live: "\<not> \<not> rc_live s a" using get_live [OF 2(4) v] by simp
    have inv: "rc_inv (raw(a := raw a + 1)) ?d" by (rule disown_inv [OF 2(4) Some]) simp
    have raw: "(raw(a := raw a + 1))(a := (raw(a := raw a + 1)) a - 1) = raw" by auto
    note F = fetch_sub_inv [OF inv, of a, unfolded raw]
    show ?thesis
    proof (cases "rc_count s a = 1")
      case True
      have "rc_inv raw (del_object a (fetch_sub a ?d))" using F(2) True by simp
      moreover have "rc_mem (rev (rc_members s a) @ xs) (del_object a (fetch_sub a ?d))"
        using rc_mem_del [OF rc_mem_tl [OF 2(5)], of a] live by simp
      ultimately show ?thesis using "2.IH"(2) [OF v refl live True] v live True by auto
    next
      case False
      have "rc_inv raw (fetch_sub a ?d)" using F(3) False by simp
      moreover have "rc_mem xs (fetch_sub a ?d)" using 2(5) by (auto simp: rc_mem_def)
      ultimately show ?thesis using "2.IH"(3) [OF v refl live False] v live False by auto
    qed
  qed
qed (simp add: rc_mem_def)

text \<open>
  A variable that still points to a dead object: destruction does the same with it as with a null
  pointer as long as it does not come to the variable itself, and faults if it does.
\<close>

lemma set_ptr_commute:
  "z \<noteq> x \<Longrightarrow> del_ptr z (set_ptr x p s) = set_ptr x p (del_ptr z s)" "fetch_sub a (set_ptr x p s) = set_ptr x p (fetch_sub a s)"
  "del_object a (set_ptr x p s) = set_ptr x p (del_object a s)" "set_ptr x p (set_ptr x q s) = set_ptr x p s"
  by (simp_all add: set_ptr_def del_ptr_def fetch_sub_def del_object_def fun_upd_twist)

lemma destroy_all_shift:
  assumes "destroy_all ws (set_ptr x None s) = Inr s1" and "rc_vars s x = Some (Some a)" and "\<not> rc_live s a"
  shows "destroy_all ws s = (if rc_vars s1 x = None then Inl Use_After_Free else Inr (set_ptr x (Some a) s1))"
  using assms
proof (induction ws s rule: destroy_all.induct)
  case (1 s)
  have "set_ptr x (Some a) s = s" using 1(2) by (simp add: set_ptr_def fun_upd_idem)
  then show ?case using 1 by (simp add: set_ptr_commute) (metis option.distinct(1) set_ptr_simps(1) fun_upd_same set_ptr_commute(4))
next
  case (2 z xs s)
  show ?case
  proof (cases "z = x")
    case True
    then have "shrunk (del_ptr x (set_ptr x None s)) s1" using 2(4) by (auto intro: destroy_all_shrinks)
    then have "rc_vars s1 x = None" by (auto simp: shrunk_def dest: spec [of _ x])
    with True 2(5,6) show ?thesis by simp
  next
    case False
    with 2 show ?thesis
      by (auto simp: set_ptr_commute split: option.splits if_splits)
  qed
qed

section \<open>Programs over smart pointers\<close>



text \<open>The variable is a member of a live object.\<close>

definition member_var :: "nat \<Rightarrow> rc_state \<Rightarrow> bool" where
  "member_var x s = (\<exists>a. rc_live s a \<and> x \<in> set (rc_members s a))"


lemma get_ptr_set [simp]: "get_ptr y (set_ptr x p s) = (if y = x then p else get_ptr y s)"
  by (simp add: get_ptr_def)

text \<open>New variables and new values of variables leave the members of objects in place.\<close>

lemma rc_mem_mono:
  assumes "rc_mem [] s" and "rc_heap s' = rc_heap s" "rc_members s' = rc_members s" "\<And>x. rc_vars s x \<noteq> None \<Longrightarrow> rc_vars s' x \<noteq> None"
  shows "rc_mem [] s'"
  using assms unfolding rc_mem_def rc_live_def by (simp; blast)

lemma copy_inv:
  assumes inv: "rc_inv raw s" and mem: "rc_mem [] s" and x: "get_ptr x s = None"
    and y: "t = get_ptr y s \<or> t = None" and room: "room t s"
  shows "\<exists>s'. retain_opt t (set_ptr x t s) = Inr s' \<and> rc_inv raw s' \<and> rc_mem [] s'"
proof (cases t)
  case None
  have "rc_mem [] (set_ptr x None s)" by (rule rc_mem_mono [OF mem]) simp_all
  with null_inv(1) [OF inv x] None show ?thesis by (simp add: retain_opt_def)
next
  case (Some a)
  have live: "rc_live s a" using get_live [OF inv, of y a] y Some by (auto simp: get_ptr_def split: option.splits)
  have "unat (rc_count s a) < 2147483647" using room Some by (simp add: room_def)
  from retain_inv [OF inv live this] obtain s1 where r: "retain a s = Inr s1"
    and i: "rc_inv (raw(a := raw a + 1)) s1" and v: "rc_vars s1 = rc_vars s" "rc_heap s1 = rc_heap s" "rc_members s1 = rc_members s"
    by blast
  have "get_ptr x s1 = None" using x v by (simp add: get_ptr_def)
  from adopt_inv [OF i _ this, of a] have "rc_inv raw (set_ptr x t s1)" using Some by simp
  moreover have "retain_opt t (set_ptr x t s) = Inr (set_ptr x t s1)"
    using r Some retain_opt_set [of t x t s] by (simp add: retain_opt_def)
  moreover have "rc_mem [] (set_ptr x t s1)" by (rule rc_mem_mono [OF mem]) (use v in simp_all)
  ultimately show ?thesis by blast
qed

text \<open>
  Whether the variable \<open>z\<close> still exists once \<open>x\<close> has given up its reference: it may be a member of an
  object that this destroys.
\<close>

definition outlives :: "nat \<Rightarrow> nat \<Rightarrow> rc_state \<Rightarrow> bool" where
  "outlives z x s =
     (case release_opt (get_ptr x s) (set_ptr x None s) of Inl f \<Rightarrow> False | Inr s' \<Rightarrow> rc_vars s' z \<noteq> None)"

lemma give_up:
  assumes inv: "rc_inv raw s" and mem: "rc_mem [] s" and v: "rc_vars s x \<noteq> None"
  obtains s1 where "release_opt (get_ptr x s) (set_ptr x None s) = Inr s1" "rc_inv raw s1" "rc_mem [] s1"
    "shrunk (set_ptr x None s) s1" "\<And>z. rc_vars s z \<noteq> None \<Longrightarrow> \<not> member_var z s \<Longrightarrow> rc_vars s1 z \<noteq> None"
proof (cases "get_ptr x s")
  case None
  have "rc_mem [] (set_ptr x None s)" by (rule rc_mem_mono [OF mem]) simp_all
  with None null_inv(1) [OF inv] that [of "set_ptr x None s"] show thesis by (simp add: release_opt_def shrunk_def)
next
  case (Some a)
  let ?s = "set_ptr x None s"
  have i: "rc_inv (raw(a := raw a + 1)) ?s" by (rule disown_inv [OF inv Some]) simp
  have raw: "(raw(a := raw a + 1))(a := (raw(a := raw a + 1)) a - 1) = raw" by auto
  note F = fetch_sub_inv [OF i, of a, unfolded raw]
  have live: "rc_live s a" using F(1) by simp
  have m: "rc_mem [] (set_ptr x None s)" by (rule rc_mem_mono [OF mem]) simp_all
  show thesis
  proof (cases "rc_count s a = 1")
    case False
    have "rc_mem [] (fetch_sub a ?s)" by (rule rc_mem_mono [OF m]) simp_all
    with Some False F(1,3) that [of "fetch_sub a ?s"] show thesis
      by (simp add: release_opt_def release_def shrunk_def)
  next
    case True
    have "rc_mem (rev (rc_members s a)) (del_object a (fetch_sub a ?s))"
      using rc_mem_del [OF m, of a] live by simp
    with destroy_all_inv [of raw "del_object a (fetch_sub a ?s)" "rev (rc_members s a)"] F(2) True
    obtain s1 where D: "destroy_all (rev (rc_members s a)) (del_object a (fetch_sub a ?s)) = Inr s1" "rc_inv raw s1" "rc_mem [] s1"
      "\<forall>z. z \<notin> set (rev (rc_members s a)) \<and> (\<forall>b. rc_live (del_object a (fetch_sub a ?s)) b \<longrightarrow> z \<notin> set (rc_members s b)) \<longrightarrow>
        rc_vars s1 z = rc_vars (del_object a (fetch_sub a ?s)) z" by auto
    have "shrunk ?s s1" using destroy_all_shrinks [OF D(1)] by (auto simp: shrunk_def)
    moreover have "rc_vars s1 z \<noteq> None" if "rc_vars s z \<noteq> None" "\<not> member_var z s" for z
    proof -
      have "rc_vars s1 z = rc_vars (del_object a (fetch_sub a ?s)) z" using D(4) that(2) F(1) by (auto simp: member_var_def)
      with that(1) show ?thesis by simp
    qed
    moreover have "release_opt (get_ptr x s) ?s = Inr s1" using Some True F(1) D(1) by (simp add: release_opt_def release_def)
    ultimately show thesis using that D(2,3) by blast
  qed
qed

text \<open>The release that \<open>reset\<close> and assignment do, with the variable still pointing to the object.\<close>

lemma release_shift:
  assumes inv: "rc_inv raw s" and v: "rc_vars s x = Some (Some a)" and r: "release a (set_ptr x None s) = Inr s1"
  shows "release a s = (if rc_vars s1 x = None then Inl Use_After_Free else Inr (set_ptr x (Some a) s1))"
proof (cases "rc_count s a = 1")
  case True
  then have "destroy_all (rev (rc_members s a)) (set_ptr x None (del_object a (fetch_sub a s))) = Inr s1"
    using r get_live [OF inv v] by (simp add: release_def set_ptr_commute)
  from destroy_all_shift [OF this] v True get_live [OF inv v] show ?thesis by (simp add: release_def)
next
  case False
  have "set_ptr x (Some a) (fetch_sub a s) = fetch_sub a s" using v by (simp add: set_ptr_def fun_upd_idem)
  then show ?thesis using False r get_live [OF inv v] by (auto simp: release_def set_ptr_commute)
qed


lemma assign_inv:
  assumes inv: "rc_inv raw s" and mem: "rc_mem [] s" and v: "rc_vars s x \<noteq> None" "rc_vars s y \<noteq> None" and room: "room (get_ptr y s) s"
  shows "if get_ptr x s = get_ptr y s \<or> (outlives x x s \<and> outlives y x s)
    then \<exists>s'. ptr_assign x y s = Inr s' \<and> rc_inv raw s' \<and> rc_mem [] s'
    else ptr_assign x y s = Inl Use_After_Free"
proof (cases "get_ptr x s = get_ptr y s")
  case True
  with inv mem show ?thesis by (simp add: ptr_assign_def)
next
  case False
  then have xy: "x \<noteq> y" by auto
  obtain s1 where G: "release_opt (get_ptr x s) (set_ptr x None s) = Inr s1" "rc_inv raw s1" "rc_mem [] s1"
    "shrunk (set_ptr x None s) s1" by (rule give_up [OF inv mem v(1)]) (rule that; assumption)
  have out: "outlives z x s \<longleftrightarrow> rc_vars s1 z \<noteq> None" for z using G(1) by (simp add: outlives_def)
  have rel: "release_opt (get_ptr x s) s = (if rc_vars s1 x = None then Inl Use_After_Free else Inr (set_ptr x (get_ptr x s) s1))"
  proof (cases "get_ptr x s")
    case None
    then have "set_ptr x None s = s" using v(1) by (auto simp: set_ptr_def get_ptr_def fun_upd_idem)
    with None G(1) v(1) show ?thesis by (auto simp: release_opt_def)
  next
    case (Some a)
    then have "rc_vars s x = Some (Some a)" using v(1) by (auto simp: get_ptr_def)
    with release_shift [OF inv this, of s1] G(1) Some show ?thesis by (simp add: release_opt_def)
  qed
  show ?thesis
  proof (cases "rc_vars s1 x = None \<or> rc_vars s1 y = None")
    case True
    with rel False xy show ?thesis by (auto simp: out ptr_assign_def)
  next
    case ex: False
    have sh: "rc_vars s1 z = None \<or> rc_vars s1 z = ((rc_vars s)(x := Some None)) z" for z using G(4) by (simp add: shrunk_def)
    have y1: "get_ptr y s1 = get_ptr y s" and x1: "get_ptr x s1 = None"
      using sh [of y] sh [of x] ex xy by (auto simp: get_ptr_def)
    have "room (get_ptr y s) s1"
    proof (cases "get_ptr y s")
      case (Some b)
      have vy: "rc_vars s1 y = Some (Some b)" "rc_vars s y = Some (Some b)"
        using ex v(2) Some y1 by (auto simp: get_ptr_def split: option.splits)
      have "holders_of b s1 \<subseteq> holders_of b s"
      proof
        fix z assume "z \<in> holders_of b s1"
        with sh [of z] show "z \<in> holders_of b s" by (cases "z = x") (auto simp: holders_of_def)
      qed
      moreover have "finite (holders_of b s)" "unat (rc_count s b) = card (holders_of b s) + raw b"
        "unat (rc_count s1 b) = card (holders_of b s1) + raw b"
        using rc_invD [OF inv, of b] rc_invD [OF G(2), of b] get_live [OF inv vy(2)] get_live [OF G(2) vy(1)] by (auto simp: rc_obj_def)
      ultimately have "unat (rc_count s1 b) \<le> unat (rc_count s b)" by (simp add: card_mono)
      with room Some show ?thesis by (simp add: room_def)
    qed (simp add: room_def)
    from copy_inv [OF G(2,3) x1 _ this, of y] y1 obtain s' where
      "retain_opt (get_ptr y s) (set_ptr x (get_ptr y s) s1) = Inr s'" "rc_inv raw s'" "rc_mem [] s'" by auto
    with rel ex False xy y1 show ?thesis by (auto simp: out ptr_assign_def set_ptr_commute)
  qed
qed














text \<open>
  \<open>head = head->next\<close>: the assignment reads \<open>y\<close> after it has released the object of \<open>x\<close>.  When \<open>x\<close> is
  the only pointer to that object and \<open>y\<close> is a member of it, \<open>y\<close> is gone by then.
\<close>

lemma destroy_all_gone: "destroy_all ws s = Inr s' \<Longrightarrow> y \<in> set ws \<Longrightarrow> rc_vars s' y = None"
proof (induction ws s rule: destroy_all.induct)
  case (2 x xs s)
  show ?case
  proof (cases "y = x")
    case True
    have gone: "rc_vars s' x = None" if "destroy_all vs t = Inr s'" "rc_vars t x = None" for vs t
      using destroy_all_shrinks [OF that(1)] that(2) by (auto simp: shrunk_def dest: spec [of _ x])
    show ?thesis
    proof (cases "rc_vars s x")
      case None
      with 2(4) show ?thesis by simp
    next
      case (Some p)
      with 2(4) gone [of xs "del_ptr x s"] True show ?thesis
        by (cases p) (auto split: if_splits dest: gone)
    qed
  next
    case False
    with 2 show ?thesis by (auto split: option.splits if_splits)
  qed
qed simp

lemma assign_from_member_faults:
  assumes inv: "rc_inv (\<lambda>_. 0) s" and mem: "rc_mem [] s" and x: "rc_vars s x = Some (Some a)" "holders_of a s = {x}"
    and y: "y \<in> set (rc_members s a)" "get_ptr y s \<noteq> Some a" and room: "room (get_ptr y s) s"
  shows "ptr_assign x y s = Inl Use_After_Free"
proof -
  have live: "rc_live s a" using get_live [OF inv x(1)] .
  then have v: "rc_vars s y \<noteq> None" using mem y(1) by (simp add: rc_mem_def)
  have "unat (rc_count s a) = 1" using rc_invD [OF inv, of a] live x(2) by (simp add: rc_obj_def)
  then have one: "rc_count s a = 1" by (simp add: unat_one32)
  have gx: "get_ptr x s = Some a" using x(1) by (simp add: get_ptr_def)
  have "\<not> outlives y x s"
    using destroy_all_gone [of "rev (rc_members s a)" _ _ y] y(1) live one
    by (simp add: outlives_def gx release_opt_def release_def split: sum.splits)
  with assign_inv [OF inv mem _ v room, of x] x(1) y(2) gx show ?thesis by auto
qed

text \<open>
  Move assignment leaks: after \<open>x = std::move(y)\<close>, when \<open>x\<close> was the only pointer to its
  object, that object is still alive with a count of one, and no smart pointer points to it.
\<close>

lemma move_assign_leaks:
  assumes "rc_inv (\<lambda>_. 0) s" and "rc_vars s x = Some (Some a)" and "holders_of a s = {x}" and "get_ptr y s \<noteq> Some a"
  shows "\<exists>s'. ptr_move_assign x y s = Inr s' \<and> rc_live s' a \<and> unat (rc_count s' a) = 1 \<and> holders_of a s' = {}"
proof -
  let ?s = "set_ptr y None (set_ptr x (get_ptr y s) s)"
  have "rc_live s a" "unat (rc_count s a) = 1"
    using rc_invD [OF assms(1), of a] assms(3) by (auto simp: rc_obj_def split: if_splits)
  moreover have "holders_of a ?s = {}" using assms(3,4) by auto
  ultimately show ?thesis by (intro exI [of _ ?s]) (simp add: ptr_move_assign_def)
qed

end
