(* ===== verification/CMT_Strand.thy ===== *)
theory CMT_Strand
  imports CMT_Sched_Inv
begin

text \<open>
  The pool of strands, \<open>src/strand_pool.cpp\<close>: the list of ready strands threaded through \<open>next\<close>,
  the heap of waiting strands, and the operations that move strands between them.  The file is
  unfinished and not built: it does not switch between strands yet.  The members that it names
  without \<open>my->\<close> are read as those of \<open>strand_pool_private\<close>.  \<open>strand\<close> has a declaration only, so what its constructor gives is a
  parameter, and so is \<open>max_thread_count\<close>, which is declared nowhere.
\<close>

lemma length_make_heap: "length (make_heap lt xs) = length xs"
  by (rule mset_eq_length) (rule mset_make_heap)

section \<open>State\<close>

record strand =
  st_my :: ptr
  st_next :: "ptr option"

record waiting_strand =
  ws_timeout :: time_point
  ws_str :: ptr

definition ws_less :: "waiting_strand \<Rightarrow> waiting_strand \<Rightarrow> bool" where
  "ws_less a b \<longleftrightarrow> ws_timeout a < ws_timeout b"

record strand_pool =
  sp_waiting_strands :: "waiting_strand list"
  sp_ready_head :: "ptr option"
  sp_ready_tail :: "ptr option"
  sp_ready_strand_count :: "32 word"
  sp_idle_thread_count :: "32 word"
  sp_thread_pool :: nat

type_synonym strands = "(ptr \<Rightarrow> strand) \<times> strand_pool"

section \<open>Operations\<close>

text \<open>
  The pool as \<open>new strand_pool_private()\<close> makes it: no strand, no thread.  The initial counts are those
  that the default constructor of \<open>boost::atomic\<close> gives.
\<close>

definition make_strand_pool :: "32 word \<Rightarrow> 32 word \<Rightarrow> strand_pool" where
  "make_strand_pool ready idle = \<lparr>sp_waiting_strands = [], sp_ready_head = None, sp_ready_tail = None,
     sp_ready_strand_count = ready, sp_idle_thread_count = idle, sp_thread_pool = 0\<rparr>"

definition pool_ready_push_back :: "ptr \<Rightarrow> strands \<Rightarrow> strands" where
  "pool_ready_push_back a = (\<lambda>(st, sp).
     (case sp_ready_tail sp of
        Some l \<Rightarrow> (st(l := (st l)\<lparr>st_next := Some a\<rparr>),
                   sp\<lparr>sp_ready_tail := Some a, sp_ready_strand_count := sp_ready_strand_count sp + 1\<rparr>)
      | None \<Rightarrow> (st, sp\<lparr>sp_ready_strand_count := sp_ready_strand_count sp + 1,
                        sp_ready_head := Some a, sp_ready_tail := Some a\<rparr>)))"

text \<open>\<open>strand_pool::create\<close>; the strand is at the address \<open>a\<close>, \<open>mk\<close> is its constructor.\<close>

definition strand_pool_create :: "(string \<Rightarrow> strand) \<Rightarrow> ptr \<Rightarrow> string \<Rightarrow> strands \<Rightarrow> ptr \<times> strands" where
  "strand_pool_create mk a n = (\<lambda>(st, sp).
     (a, st(a := mk n),
      sp\<lparr>sp_waiting_strands := push_heap ws_less (sp_waiting_strands sp @ [\<lparr>ws_timeout = time_max, ws_str = a\<rparr>])\<rparr>))"

text \<open>\<open>strand_pool::yield\<close>; the result is \<open>next_ready\<close>, the strand to switch to.\<close>

definition strand_pool_yield :: "ptr \<Rightarrow> strands \<Rightarrow> fault + (ptr option \<times> strands)" where
  "strand_pool_yield a = (\<lambda>(st, sp).
     (case sp_ready_tail sp of
        None \<Rightarrow> Inr (None, st, sp)
      | Some l \<Rightarrow>
          (let st = st(l := (st l)\<lparr>st_next := Some a\<rparr>); sp = sp\<lparr>sp_ready_tail := Some a\<rparr> in
           case sp_ready_head sp of
             None \<Rightarrow> Inl Null_Deref
           | Some h \<Rightarrow>
               (let sp = sp\<lparr>sp_ready_head := st_next (st h)\<rparr>;
                    sp = (if sp_ready_head sp = None then sp\<lparr>sp_ready_tail := None\<rparr> else sp)
                in Inr (Some h, st, sp)))))"

definition strand_pool_wait_until :: "ptr \<Rightarrow> time_point \<Rightarrow> time_point \<Rightarrow> strands \<Rightarrow> strands" where
  "strand_pool_wait_until a tp now = (\<lambda>(st, sp).
     if tp < now then (st, sp)
     else (st, sp\<lparr>sp_waiting_strands := push_heap ws_less (sp_waiting_strands sp @ [\<lparr>ws_timeout = tp, ws_str = a\<rparr>])\<rparr>))"

text \<open>
  \<open>strand_pool::wake\<close>: the loop over the waiting strands, which goes on after a strand is found;
  then a pool thread is started, or an idle one is notified.
\<close>

function wake_loop :: "ptr \<Rightarrow> nat \<Rightarrow> waiting_strand list \<Rightarrow> waiting_strand list" where
  "wake_loop a i q =
     (if i < length q then
        if ws_str (q ! i) = a then wake_loop a (Suc i) (make_heap ws_less (butlast (q[i := last q])))
        else wake_loop a (Suc i) q
      else q)"
  by pat_completeness auto
termination
  by (relation "measure (\<lambda>(a, i, q). length q - i)") (auto simp: length_make_heap)

declare wake_loop.simps [simp del]

datatype wake_action = Start_Thread | Notify_One

definition strand_pool_wake :: "nat \<Rightarrow> ptr \<Rightarrow> strands \<Rightarrow> wake_action \<times> strands" where
  "strand_pool_wake max_thread_count a = (\<lambda>(st, sp).
     (let sp = sp\<lparr>sp_waiting_strands := wake_loop a 0 (sp_waiting_strands sp)\<rparr>;
          (st, sp) = pool_ready_push_back a (st, sp)
      in if sp_idle_thread_count sp = 0 \<and> sp_thread_pool sp < max_thread_count
         then (Start_Thread, st, sp\<lparr>sp_thread_pool := Suc (sp_thread_pool sp)\<rparr>)
         else (Notify_One, st, sp)))"

section \<open>The ready list\<close>

definition ready_strands :: "ptr list \<Rightarrow> strands \<Rightarrow> bool" where
  "ready_strands xs = (\<lambda>(st, sp). chain (\<lambda>x. st_next (st x)) (sp_ready_head sp) xs \<and>
     sp_ready_tail sp = (if xs = [] then None else Some (last xs)))"

lemma next_upd: "(\<lambda>x. st_next ((st(l := (st l)\<lparr>st_next := q\<rparr>)) x)) = (\<lambda>x. st_next (st x))(l := q)"
  by auto

text \<open>Linking a strand whose \<open>next\<close> is null behind the last one.\<close>

lemma chain_link_last:
  assumes "chain nxt p (xs @ [y])" "z \<notin> set (xs @ [y])" "nxt z = None"
  shows "chain (nxt(y := Some z)) p (xs @ [y, z])"
proof -
  have "nxt(z := None, y := Some z) = nxt(y := Some z)" using assms(2,3) by auto
  with chain_snoc [OF assms(1,2)] show ?thesis by metis
qed

lemma push_back_appends:
  assumes "ready_strands xs (st, sp)" "a \<notin> set xs" "st_next (st a) = None"
  shows "ready_strands (xs @ [a]) (pool_ready_push_back a (st, sp))"
proof (cases xs rule: rev_cases)
  case Nil
  then show ?thesis using assms by (simp add: ready_strands_def pool_ready_push_back_def)
next
  case (snoc ys y)
  then show ?thesis using assms chain_link_last [of "\<lambda>x. st_next (st x)" "sp_ready_head sp" ys y a]
    by (simp add: ready_strands_def pool_ready_push_back_def next_upd del: fun_upd_apply)
qed

text \<open>
  \<open>yield\<close> hands over to the strand that has been ready for longest and queues the caller behind the
  others, provided that \<open>next\<close> of the caller is null; with no other strand ready it does nothing.
\<close>

lemma strand_yield_rotates:
  assumes "ready_strands (x # xs) (st, sp)" "a \<notin> set (x # xs)" "st_next (st a) = None"
  obtains st' sp' where "strand_pool_yield a (st, sp) = Inr (Some x, st', sp')" "ready_strands (xs @ [a]) (st', sp')"
    "st_next (st' x) = Some (hd (xs @ [a]))" "sp_ready_strand_count sp' = sp_ready_strand_count sp"
proof -
  obtain ys y where y: "x # xs = ys @ [y]" by (metis list.distinct(1) rev_exhaust)
  let ?st = "st(y := (st y)\<lparr>st_next := Some a\<rparr>)"
  have h: "sp_ready_head sp = Some x" "sp_ready_tail sp = Some y" using assms(1) arg_cong [OF y, of last] by (simp_all add: ready_strands_def)
  have "chain (\<lambda>x. st_next (?st x)) (Some x) (ys @ [y, a])"
    using chain_link_last [of "\<lambda>x. st_next (st x)" "sp_ready_head sp" ys y a] assms y h
    by (simp add: ready_strands_def next_upd del: fun_upd_apply)
  moreover have "ys @ [y, a] = x # xs @ [a]" using y by simp
  ultimately have c: "chain (\<lambda>x. st_next (?st x)) (st_next (?st x)) (xs @ [a])" by (metis chain.simps(2))
  then have nx: "st_next (?st x) = Some (hd (xs @ [a]))" by (cases xs) auto
  have "strand_pool_yield a (st, sp) = Inr (Some x, ?st, sp\<lparr>sp_ready_tail := Some a, sp_ready_head := st_next (?st x)\<rparr>)"
    using h nx by (simp add: strand_pool_yield_def Let_def del: fun_upd_apply)
  then show thesis by (rule that) (use c nx in \<open>simp_all add: ready_strands_def del: fun_upd_apply\<close>)
qed

lemma yield_alone: "ready_strands [] (st, sp) \<Longrightarrow> strand_pool_yield a (st, sp) = Inr (None, st, sp)"
  by (simp add: ready_strands_def strand_pool_yield_def)

text \<open>
  The strand handed over to keeps its \<open>next\<close>.  When it yields in turn, the list of ready strands
  has no end any more.
\<close>

lemma chain_closed: "\<forall>y \<in> S. \<exists>z \<in> S. nxt y = Some z \<Longrightarrow> x \<in> S \<Longrightarrow> \<not> chain nxt (Some x) ys"
  by (induction ys arbitrary: x) auto

lemma chain_inner_next: "chain nxt p xs \<Longrightarrow> y \<in> set xs \<Longrightarrow> y \<noteq> last xs \<Longrightarrow> \<exists>z \<in> set xs. nxt y = Some z"
proof (induction xs arbitrary: p)
  case (Cons x xs)
  then show ?case by (cases xs) auto
qed simp

lemma yield_back_makes_cycle:
  assumes r: "ready_strands (x # xs) (st, sp)" "a \<notin> set (x # xs)" "st_next (st a) = None"
    and y: "strand_pool_yield a (st, sp) = Inr (Some x, st1, sp1)"
  obtains st2 sp2 where "strand_pool_yield x (st1, sp1) = Inr (Some (hd (xs @ [a])), st2, sp2)"
    "\<And>ys. \<not> ready_strands ys (st2, sp2)"
proof -
  let ?zs = "xs @ [a]" and ?h = "hd (xs @ [a])" and ?st = "st1(a := (st1 a)\<lparr>st_next := Some x\<rparr>)"
  have R: "ready_strands ?zs (st1, sp1)" "st_next (st1 x) = Some ?h" using strand_yield_rotates [OF r] y by auto
  have h: "sp_ready_head sp1 = Some ?h" "sp_ready_tail sp1 = Some a" using R(1) by (cases xs; simp add: ready_strands_def)+
  have ax: "a \<noteq> x" using r(2) by auto
  have S: "\<forall>y \<in> insert x (set ?zs). \<exists>z \<in> insert x (set ?zs). st_next (?st y) = Some z"
  proof
    fix y assume "y \<in> insert x (set ?zs)"
    then consider "y = a" | "y = x" | "y \<in> set ?zs" "y \<noteq> a" by auto
    then show "\<exists>z \<in> insert x (set ?zs). st_next (?st y) = Some z"
      by cases (use R ax chain_inner_next [of "\<lambda>x. st_next (st1 x)" "sp_ready_head sp1" ?zs y] in
          \<open>auto simp: ready_strands_def simp del: set_append\<close>)
  qed
  then obtain z where z: "st_next (?st ?h) = Some z" "z \<in> insert x (set ?zs)" by (cases xs) auto
  have "strand_pool_yield x (st1, sp1) = Inr (Some ?h, ?st, sp1\<lparr>sp_ready_tail := Some x, sp_ready_head := Some z\<rparr>)"
    using h z(1) by (simp add: strand_pool_yield_def Let_def del: fun_upd_apply)
  then show thesis by (rule that) (use chain_closed [OF S z(2)] in \<open>simp add: ready_strands_def del: fun_upd_apply\<close>)
qed

text \<open>The heap of waiting strands.\<close>

lemma swo_ws: "strict_weak_order ws_less"
  by unfold_locales (auto simp: ws_less_def)

interpretation waitq: std_heap ws_less "is_heap ws_less" "push_heap ws_less" "pop_heap ws_less" "make_heap ws_less"
  by (rule std_heap_algorithms [OF swo_ws])

lemma wake_loop_absent: "a \<notin> ws_str ` set q \<Longrightarrow> wake_loop a i q = q"
  by (induction a i q rule: wake_loop.induct) (subst wake_loop.simps, auto)

lemma wake_loop_heap: "is_heap ws_less q \<Longrightarrow> is_heap ws_less (wake_loop a i q)"
  by (induction a i q rule: wake_loop.induct) (subst wake_loop.simps, simp add: waitq.mk_heap)

text \<open>A strand that waits once is taken out, and no other.\<close>

lemma wake_loop_removes:
  assumes "distinct (map ws_str q)" "\<forall>j < i. j < length q \<longrightarrow> ws_str (q ! j) \<noteq> a"
  shows "mset (wake_loop a i q) = {#w \<in># mset q. ws_str w \<noteq> a#}"
  using assms
proof (induction a i q rule: wake_loop.induct)
  case (1 a i q)
  show ?case
  proof (cases "i < length q \<and> ws_str (q ! i) = a")
    case True
    let ?q = "make_heap ws_less (butlast (q[i := last q]))"
    have m: "mset ?q = mset q - {#q ! i#}" using True by (simp add: mset_make_heap mset_overwrite_last)
    have one: "mset q = add_mset (q ! i) (mset ?q)" using True m by simp
    have "a \<notin> ws_str ` set ?q"
    proof
      assume "a \<in> ws_str ` set ?q"
      then have "2 \<le> count (mset (map ws_str q)) a" using True one
        by (auto simp: image_iff count_greater_zero_iff Suc_le_eq simp flip: set_mset_mset)
      then show False using 1(3) by (simp add: distinct_count_atmost_1 split: if_splits)
    qed
    then have "{#w \<in># mset ?q. ws_str w \<noteq> a#} = mset ?q" "wake_loop a (Suc i) ?q = ?q"
      by (fastforce simp: filter_mset_eq_conv, simp add: wake_loop_absent)
    moreover have "wake_loop a i q = wake_loop a (Suc i) ?q" using True by (simp add: wake_loop.simps [of a i])
    ultimately show ?thesis using one True by simp
  next
    case False
    show ?thesis
    proof (cases "i < length q")
      case True
      then have "\<forall>j < Suc i. j < length q \<longrightarrow> ws_str (q ! j) \<noteq> a" using 1(4) False less_Suc_eq by auto
      then show ?thesis using True False 1(2) [OF True _ 1(3)] by (simp add: wake_loop.simps [of a i])
    next
      case False
      then have "\<forall>w \<in> set q. ws_str w \<noteq> a" using 1(4) by (metis in_set_conv_nth not_less order_less_le_trans)
      then have "{#w \<in># mset q. ws_str w \<noteq> a#} = mset q" by (simp add: filter_mset_eq_conv)
      then show ?thesis using False by (simp add: wake_loop.simps [of a i])
    qed
  qed
qed

text \<open>
  The pool as a whole: what is ready and what waits.  A woken strand that waited once and whose
  \<open>next\<close> is null leaves the heap and is the last of the ready ones.
\<close>

lemma wake_moves_to_back:
  assumes r: "ready_strands xs (st, sp)" "a \<notin> set xs" "st_next (st a) = None"
    and w: "is_heap ws_less (sp_waiting_strands sp)" "distinct (map ws_str (sp_waiting_strands sp))"
    and k: "strand_pool_wake m a (st, sp) = (act, st', sp')"
  shows "ready_strands (xs @ [a]) (st', sp')" "is_heap ws_less (sp_waiting_strands sp')"
    "mset (sp_waiting_strands sp') = {#w \<in># mset (sp_waiting_strands sp). ws_str w \<noteq> a#}"
    "sp_ready_strand_count sp' = sp_ready_strand_count sp + 1"
    "sp_thread_pool sp' \<le> max m (sp_thread_pool sp)"
proof -
  let ?q = "wake_loop a 0 (sp_waiting_strands sp)"
  let ?p = "pool_ready_push_back a (st, sp\<lparr>sp_waiting_strands := ?q\<rparr>)"
  obtain st1 sp1 where p: "?p = (st1, sp1)" by fastforce
  have "ready_strands xs (st, sp\<lparr>sp_waiting_strands := ?q\<rparr>)" using r(1) by (simp add: ready_strands_def)
  then have "ready_strands (xs @ [a]) (st1, sp1)" using push_back_appends r(2,3) p by metis
  moreover have s1: "sp_waiting_strands sp1 = ?q" "sp_ready_strand_count sp1 = sp_ready_strand_count sp + 1" "sp_thread_pool sp1 = sp_thread_pool sp"
    using p by (auto simp: pool_ready_push_back_def split: option.splits)
  moreover have e: "st' = st1" "sp' = sp1 \<or> sp' = sp1\<lparr>sp_thread_pool := Suc (sp_thread_pool sp1)\<rparr> \<and> sp_thread_pool sp1 < m"
    using k p by (auto simp: strand_pool_wake_def Let_def split: if_splits)
  ultimately show "ready_strands (xs @ [a]) (st', sp')" "is_heap ws_less (sp_waiting_strands sp')"
    "mset (sp_waiting_strands sp') = {#w \<in># mset (sp_waiting_strands sp). ws_str w \<noteq> a#}"
    "sp_ready_strand_count sp' = sp_ready_strand_count sp + 1" "sp_thread_pool sp' \<le> max m (sp_thread_pool sp)"
    using wake_loop_heap [OF w(1)] wake_loop_removes [OF w(2)] by (auto simp: ready_strands_def)
qed

text \<open>The front of the heap is the strand with the latest time: one that was never woken hides all others.\<close>

lemma wait_until_front_latest:
  assumes "is_heap ws_less (sp_waiting_strands sp)" "strand_pool_wait_until a tp now (st, sp) = (st', sp')" "now \<le> tp"
  shows "mset (sp_waiting_strands sp') = mset (sp_waiting_strands sp) + {#\<lparr>ws_timeout = tp, ws_str = a\<rparr>#}"
    "is_heap ws_less (sp_waiting_strands sp')" "w \<in> set (sp_waiting_strands sp') \<Longrightarrow> ws_timeout w \<le> ws_timeout (hd (sp_waiting_strands sp'))"
proof -
  have q: "sp_waiting_strands sp' = push_heap ws_less (sp_waiting_strands sp @ [\<lparr>ws_timeout = tp, ws_str = a\<rparr>])"
    using assms(2,3) by (auto simp: strand_pool_wait_until_def split: if_splits)
  show h: "is_heap ws_less (sp_waiting_strands sp')" unfolding q by (rule waitq.push_heap [OF assms(1)])
  show "mset (sp_waiting_strands sp') = mset (sp_waiting_strands sp) + {#\<lparr>ws_timeout = tp, ws_str = a\<rparr>#}"
    unfolding q by (rule waitq.push_mset)
  show "ws_timeout w \<le> ws_timeout (hd (sp_waiting_strands sp'))" if "w \<in> set (sp_waiting_strands sp')"
    using waitq.front_max [OF h that] by (simp add: ws_less_def)
qed

lemma new_pool_empty: "ready_strands [] (st, make_strand_pool r i)" "is_heap ws_less (sp_waiting_strands (make_strand_pool r i))"
  by (simp_all add: ready_strands_def make_strand_pool_def waitq.heap_Nil)

lemma create_waits_for_ever:
  assumes "is_heap ws_less (sp_waiting_strands sp)" "strand_pool_create mk a n (st, sp) = (b, st', sp')"
  shows "b = a" "st' a = mk n" "is_heap ws_less (sp_waiting_strands sp')"
    "mset (sp_waiting_strands sp') = mset (sp_waiting_strands sp) + {#\<lparr>ws_timeout = time_max, ws_str = a\<rparr>#}"
  using assms waitq.push_heap [OF assms(1)] by (auto simp: strand_pool_create_def waitq.push_mset)

end
