(* ===== verification/CMT_Log.thy ===== *)
theory CMT_Log
  imports CMT_Fiber
begin

text \<open>
  Logging: the console codes of \<open>log/console_defines.h\<close> and the \<open>log\<close> functions and macros of
  \<open>log/log.hpp\<close>.  The formatting of arguments is \<open>boost::format\<close>, a parameter; the stream is the string
  written to it so far.
\<close>

section \<open>Console codes\<close>

text \<open>
  The styles, foreground and background colours, with their text when the console has colours
  (\<open>COLOR_CONSOLE\<close>, defined unless \<open>WIN32\<close> is) and without.
\<close>

datatype console_style =
  CONSOLE_DEFAULT | CONSOLE_BOLD | CONSOLE_HALF_BRIGHT | CONSOLE_ITALIC
| CONSOLE_UNDERLINE | CONSOLE_BLINK | CONSOLE_RAPID_BLINK | CONSOLE_REVERSED
| CONSOLE_CONCEALED | CONSOLE_STRIKETHROUGH

datatype console_color =
  CONSOLE_BLACK | CONSOLE_RED | CONSOLE_GREEN | CONSOLE_BROWN
| CONSOLE_BLUE | CONSOLE_MAGENTA | CONSOLE_CYAN | CONSOLE_WHITE

datatype console_background =
  CONSOLE_BLACK_BG | CONSOLE_RED_BG | CONSOLE_GREEN_BG | CONSOLE_BROWN_BG
| CONSOLE_BLUE_BG | CONSOLE_MAGENTA_BG | CONSOLE_CYAN_BG | CONSOLE_WHITE_BG

fun style_code :: "bool \<Rightarrow> console_style \<Rightarrow> string" where
  "style_code True CONSOLE_DEFAULT = CHR 0x1B # ''[0m''"
| "style_code True CONSOLE_BOLD = CHR 0x1B # ''[1m''"
| "style_code True CONSOLE_HALF_BRIGHT = CHR 0x1B # ''[2m''"
| "style_code True CONSOLE_ITALIC = CHR 0x1B # ''[3m''"
| "style_code True CONSOLE_UNDERLINE = CHR 0x1B # ''[4m''"
| "style_code True CONSOLE_BLINK = CHR 0x1B # ''[5m''"
| "style_code True CONSOLE_RAPID_BLINK = CHR 0x1B # ''[6m''"
| "style_code True CONSOLE_REVERSED = CHR 0x1B # ''[7m''"
| "style_code True CONSOLE_CONCEALED = CHR 0x1B # ''[8m''"
| "style_code True CONSOLE_STRIKETHROUGH = CHR 0x1B # ''[9m''"
| "style_code False _ = []"

fun color_code :: "bool \<Rightarrow> console_color \<Rightarrow> string" where
  "color_code True CONSOLE_BLACK = CHR 0x1B # ''[30m''"
| "color_code True CONSOLE_RED = CHR 0x1B # ''[31m''"
| "color_code True CONSOLE_GREEN = CHR 0x1B # ''[32m''"
| "color_code True CONSOLE_BROWN = CHR 0x1B # ''[33m''"
| "color_code True CONSOLE_BLUE = CHR 0x1B # ''[34m''"
| "color_code True CONSOLE_MAGENTA = CHR 0x1B # ''[35m''"
| "color_code True CONSOLE_CYAN = CHR 0x1B # ''[36m''"
| "color_code True CONSOLE_WHITE = CHR 0x1B # ''[37m''"
| "color_code False _ = []"

fun background_code :: "bool \<Rightarrow> console_background \<Rightarrow> string" where
  "background_code True CONSOLE_BLACK_BG = CHR 0x1B # ''[40m''"
| "background_code True CONSOLE_RED_BG = CHR 0x1B # ''[41m''"
| "background_code True CONSOLE_GREEN_BG = CHR 0x1B # ''[42m''"
| "background_code True CONSOLE_BROWN_BG = CHR 0x1B # ''[43m''"
| "background_code True CONSOLE_BLUE_BG = CHR 0x1B # ''[44m''"
| "background_code True CONSOLE_MAGENTA_BG = CHR 0x1B # ''[45m''"
| "background_code True CONSOLE_CYAN_BG = CHR 0x1B # ''[46m''"
| "background_code True CONSOLE_WHITE_BG = CHR 0x1B # ''[47m''"
| "background_code False _ = []"

section \<open>Log lines\<close>

text \<open>
  \<open>std::string::rfind\<close> with \<open>npos\<close> for not found, and \<open>short_name\<close>, where \<open>npos + 1\<close> wraps to zero.
\<close>

definition npos :: nat where
  "npos = 2 ^ 64 - 1"

fun rfind_from :: "char \<Rightarrow> string \<Rightarrow> nat \<Rightarrow> nat \<Rightarrow> nat" where
  "rfind_from c [] i found = found"
| "rfind_from c (x # xs) i found = rfind_from c xs (Suc i) (if x = c then i else found)"

definition rfind :: "char \<Rightarrow> string \<Rightarrow> nat" where
  "rfind c s = rfind_from c s 0 npos"

definition short_name :: "string \<Rightarrow> string" where
  "short_name file_name = drop ((rfind (CHR ''/'') file_name + 1) mod 2 ^ 64) file_name"

text \<open>The decimal text of an unsigned number, and \<open>std::left << std::setw(10)\<close>.\<close>

fun decimal :: "nat \<Rightarrow> string" where
  "decimal n = (if n < 10 then [char_of (48 + n)] else decimal (n div 10) @ [char_of (48 + n mod 10)])"

definition pad10 :: "string \<Rightarrow> string" where
  "pad10 s = s @ replicate (10 - length s) CHR '' ''"

text \<open>The macros give their colour, the file, the line and the function; the thread gives its name.\<close>

record log_site =
  ls_file :: string
  ls_line :: nat
  ls_method :: string
  ls_thread :: string

definition log_prefix :: "string \<Rightarrow> log_site \<Rightarrow> string" where
  "log_prefix color l =
     color @ pad10 (ls_thread l) @ '' '' @ short_name (ls_file l) @ '':'' @ decimal (ls_line l) @ '' '' @ ls_method l @ '']'' @ '' ''"

definition log_text :: "bool \<Rightarrow> string \<Rightarrow> log_site \<Rightarrow> string \<Rightarrow> string" where
  "log_text colored color l text = log_prefix color l @ text @ style_code colored CONSOLE_DEFAULT @ [CHR 0x0A]"

text \<open>
  What formatting gives: the text, or an exception, thrown before or after the first part of the line
  is in the stream (the order of evaluation is open, and missing arguments are only noticed when the
  format is written).
\<close>

datatype formatted = Formatted string | Format_Throws bool exn

type_synonym formatter = "string \<Rightarrow> string list \<Rightarrow> formatted"

definition log :: "bool \<Rightarrow> formatter \<Rightarrow> string \<Rightarrow> log_site \<Rightarrow> string \<Rightarrow> string list \<Rightarrow> string \<Rightarrow> exn option \<times> string" where
  "log colored fmt color l format args os =
     (case (if args = [] then Formatted format else fmt format args) of
        Formatted text \<Rightarrow> (None, os @ log_text colored color l text)
      | Format_Throws written e \<Rightarrow> (Some e, os @ (if written then log_prefix color l else [])))"

datatype log_level = Dlog | Slog | Elog | Wlog

definition level_color :: "bool \<Rightarrow> log_level \<Rightarrow> string" where
  "level_color colored lv =
     (case lv of
        Dlog \<Rightarrow> style_code colored CONSOLE_DEFAULT
      | Slog \<Rightarrow> style_code colored CONSOLE_DEFAULT
      | Elog \<Rightarrow> color_code colored CONSOLE_RED
      | Wlog \<Rightarrow> color_code colored CONSOLE_BROWN)"

text \<open>The macros: an exception in the formatting is caught and logged in its turn.\<close>

definition log_macro :: "bool \<Rightarrow> formatter \<Rightarrow> (exn \<Rightarrow> string) \<Rightarrow> log_level \<Rightarrow> log_site \<Rightarrow> string \<Rightarrow> string list \<Rightarrow> string \<Rightarrow> exn option \<times> string" where
  "log_macro colored fmt diag lv l format args os =
     (case log colored fmt (level_color colored lv) l format args os of
        (None, os) \<Rightarrow> (None, os)
      | (Some (Other_Error _), os) \<Rightarrow>
          log colored fmt (color_code colored CONSOLE_RED) l ''Invalid logs - exception while formating args'' [] os
      | (Some e, os) \<Rightarrow>
          log colored fmt (color_code colored CONSOLE_RED) l ''Invalid logs: %1%'' [diag e] os)"

section \<open>Properties\<close>

text \<open>\<open>short_name\<close> is the part after the last slash, the whole name if there is none.\<close>

lemma rfind_none: "c \<notin> set s \<Longrightarrow> rfind_from c s i found = found"
  by (induction s arbitrary: i) auto

lemma rfind_last: "c \<notin> set b \<Longrightarrow> rfind_from c (a @ c # b) i found = i + length a"
  by (induction a arbitrary: i found) (auto simp: rfind_none)

lemma short_name_plain: "CHR ''/'' \<notin> set f \<Longrightarrow> short_name f = f"
  by (simp add: short_name_def rfind_def rfind_none npos_def)

lemma short_name_path:
  assumes "CHR ''/'' \<notin> set b" and "length a < 2 ^ 64 - 1"
  shows "short_name (a @ CHR ''/'' # b) = b"
  using assms by (simp add: short_name_def rfind_def rfind_last)

text \<open>
  A coloured output and a plain one: the coloured one is the plain one with codes of the console
  inserted.
\<close>

inductive decorated :: "string \<Rightarrow> string \<Rightarrow> bool" where
  Nothing: "decorated [] []"
| Text: "decorated a b \<Longrightarrow> decorated (a @ t) (b @ t)"
| Style: "decorated a b \<Longrightarrow> decorated (a @ style_code True x) b"
| Color: "decorated a b \<Longrightarrow> decorated (a @ color_code True c) b"

lemma code_off [simp]: "level_color False lv = []" "style_code False x = []" "color_code False y = []"
  by (simp_all add: level_color_def split: log_level.split)

lemma decorated_level: "decorated a b \<Longrightarrow> decorated (a @ level_color True lv) b"
  using Style [of a b CONSOLE_DEFAULT] Color [of a b CONSOLE_RED] Color [of a b CONSOLE_BROWN]
  by (simp add: level_color_def split: log_level.split)

lemma decorated_text:
  assumes "decorated (os @ color) os'"
  shows "decorated (os @ log_text True color l t) (os' @ log_text False [] l t)"
proof -
  have "decorated (((os @ color) @ log_prefix [] l @ t) @ style_code True CONSOLE_DEFAULT) (os' @ log_prefix [] l @ t)"
    by (rule Style, rule Text, rule assms)
  from Text [OF this, of "[CHR 0x0A]"] show ?thesis by (simp add: log_text_def log_prefix_def)
qed

lemma decorated_prefix: "decorated (os @ color) os' \<Longrightarrow> decorated (os @ log_prefix color l) (os' @ log_prefix [] l)"
  using Text [of "os @ color" os' "log_prefix [] l"] by (simp add: log_prefix_def)

lemma decorated_log:
  assumes "decorated os os'" and "decorated (os @ color) os'"
  shows "fst (log True fmt color l format args os) = fst (log False fmt [] l format args os') \<and>
    decorated (snd (log True fmt color l format args os)) (snd (log False fmt [] l format args os'))"
  using assms by (auto simp: log_def decorated_text decorated_prefix split: formatted.split)

lemma decorated_macro:
  assumes "decorated os os'"
  shows "fst (log_macro True fmt diag lv l format args os) = fst (log_macro False fmt diag lv l format args os') \<and>
    decorated (snd (log_macro True fmt diag lv l format args os)) (snd (log_macro False fmt diag lv l format args os'))"
proof -
  obtain x o1 o2 where 1: "log True fmt (level_color True lv) l format args os = (x, o1)"
    "log False fmt [] l format args os' = (x, o2)" "decorated o1 o2"
    using decorated_log [OF assms decorated_level [OF assms, of lv], of fmt l format args]
    by (cases "log True fmt (level_color True lv) l format args os"; cases "log False fmt [] l format args os'") auto
  note again = decorated_log [OF 1(3) Color [OF 1(3), of CONSOLE_RED], of fmt l]
  show ?thesis using 1 again by (auto simp: log_macro_def split: option.split exn.split)
qed

text \<open>
  The macros catch what the formatting throws and log a diagnosis in its place.  The handler formats
  again, outside the \<open>try\<close>: no exception leaves the macro provided that the diagnosis can be formatted.
\<close>

lemma macro_returns:
  assumes "\<And>d. \<exists>t. fmt ''Invalid logs: %1%'' [d] = Formatted t"
  shows "fst (log_macro colored fmt diag lv l format args os) = None"
proof (cases "log colored fmt (level_color colored lv) l format args os")
  case (Pair x os1)
  have "fst (log colored fmt c l ''Invalid logs: %1%'' [d] o1) = None" for c d o1 using assms [of d] by (auto simp: log_def)
  moreover have "fst (log colored fmt c l f [] o1) = None" for c f o1 by (simp add: log_def)
  ultimately show ?thesis using Pair by (simp add: log_macro_def split: option.split exn.split)
qed

text \<open>A program's log statements, one after the other; an exception would end it.\<close>

fun log_run :: "bool \<Rightarrow> formatter \<Rightarrow> (exn \<Rightarrow> string) \<Rightarrow> (log_level \<times> log_site \<times> string \<times> string list) list \<Rightarrow> string \<Rightarrow> exn option \<times> string" where
  "log_run colored fmt diag [] os = (None, os)"
| "log_run colored fmt diag ((lv, l, format, args) # sts) os =
     (case log_macro colored fmt diag lv l format args os of
        (Some e, os) \<Rightarrow> (Some e, os)
      | (None, os) \<Rightarrow> log_run colored fmt diag sts os)"

text \<open>
  Colours change nothing but colours: for every formatter and every sequence of log statements, the
  program with colours ends as the one without, with the same exception or none, and its output is the
  plain output with codes of the console inserted.
\<close>

lemma log_color_transparent:
  assumes "decorated os os'"
  shows "fst (log_run True fmt diag sts os) = fst (log_run False fmt diag sts os') \<and>
    decorated (snd (log_run True fmt diag sts os)) (snd (log_run False fmt diag sts os'))"
  using assms
proof (induction sts arbitrary: os os')
  case (Cons st sts)
  obtain lv l format args where st: "st = (lv, l, format, args)" by (cases st)
  obtain x o1 o2 where "log_macro True fmt diag lv l format args os = (x, o1)"
    "log_macro False fmt diag lv l format args os' = (x, o2)" "decorated o1 o2"
    using decorated_macro [OF Cons.prems, of fmt diag lv l format args]
    by (cases "log_macro True fmt diag lv l format args os"; cases "log_macro False fmt diag lv l format args os'") auto
  with Cons.IH [of o1 o2] st show ?case by (simp split: option.split)
qed simp

end
