(* ===== verification/Spec2Isabelle.thy ===== *)
theory Spec2Isabelle
  imports CMT_Fiber_Props CMT_Quit CMT_Crossing CMT_Signal_Wiring CMT_Tcp_Write CMT_Iostream CMT_Intake CMT_Locks CMT_Retainable CMT_Strand CMT_Log
begin

text \<open>
  Boost.CMT is a C++ library for cooperative multi-tasking: an operating system thread runs many
  fibers (contexts with their own stacks), a fiber that waits for a promise is switched away from,
  and the thread goes on with another one.  On top of that the library wraps \<open>boost::asio\<close>, so that
  blocking calls block the fiber and not the thread.  This development models its parts as
  functions and step relations on explicit state and proves what makes them correct.

  \<^bold>\<open>The parts and their theories.\<close>

  \<^item> \<open>CMT_Prelude\<close>: pointers, time points, faults, linked lists through a \<open>next\<close> field.
  \<^item> \<open>Std_Heap\<close>: \<open>push_heap\<close>, \<open>pop_heap\<close> and \<open>make_heap\<close> of the standard library as array algorithms,
    with the locale \<open>std_heap\<close> that states what the scheduler relies on.
  \<^item> \<open>CMT_Task\<close>: exceptions (\<open>error.hpp\<close>), priorities and tasks (\<open>task.hpp\<close>), contexts and the three
    comparison objects (\<open>src/thread.cpp\<close>), each comparison an instance of \<open>std_heap\<close>.
  \<^item> \<open>CMT_Promise\<close>: \<open>promise<T>\<close> (\<open>future.hpp\<close>, \<open>src/future.cpp\<close>), the parts under its mutex.
  \<^item> \<open>CMT_Thread\<close>: the fields of \<open>thread_private\<close> and its linked lists; the locale \<open>ready_deque\<close> is the
    contract of the ready queue.
  \<^item> \<open>CMT_Sched\<close>: the system state (contexts, tasks, promises, threads), posting, \<open>enqueue\<close> and
    \<open>dequeue\<close>, \<open>notify\<close>, delivery of values and exceptions, \<open>check_for_timeouts\<close>.
  \<^item> \<open>CMT_Fiber\<close>: \<open>start_next_task\<close>, \<open>wait\<close>, \<open>sleep_until\<close>, \<open>yield\<close>, \<open>quit\<close>, futures.
  \<^item> \<open>CMT_Process\<close>: \<open>process_tasks\<close>, round by round.
  \<^item> \<open>CMT_Intake\<close>: the lock-free intake list and its condition variable (\<open>thread::async\<close> against
    \<open>process_tasks\<close>), as interleaved atomic steps.
  \<^item> \<open>CMT_Actor\<close>: \<open>sync\<close>, the free functions, \<open>thread::create\<close>, \<open>thread::current\<close>, delegates, method members
    of actors (const methods, which are posted by reference, apart) and the visitors that fill their tables (\<open>actor.hpp\<close>, \<open>actor_interface.hpp\<close>).
  \<^item> \<open>CMT_Signal\<close>: signal members of actors and the guard \<open>scoped_block_signal\<close> (\<open>actor_interface.hpp\<close>),
    waiting for a signal (\<open>signals.hpp\<close>), over the operations of \<open>boost::signals\<close> as a parameter.
  \<^item> \<open>CMT_Asio\<close>: handlers and wrappers (\<open>asio.hpp\<close>, \<open>src/asio.cpp\<close>, \<open>udp/socket.cpp\<close>), the acceptor
    from its construction to its destruction.
  \<^item> \<open>CMT_Tcp\<close>, \<open>CMT_Tcp_Write\<close>: the buffered socket (\<open>src/asio/tcp/socket.cpp\<close>), reading and writing.
  \<^item> \<open>CMT_Streambuf\<close>, \<open>CMT_Iostream\<close>: \<open>basic_socket_streambuf\<close> and \<open>basic_socket_iostream\<close>.
  \<^item> \<open>CMT_Locks\<close>: \<open>mutex\<close> and \<open>spin_lock\<close>; \<open>CMT_Retainable\<close>: reference counting.
  \<^item> \<open>CMT_Strand\<close>: the ready list and the heap of waiting strands (\<open>src/strand_pool.cpp\<close>).
  \<^item> \<open>CMT_Log\<close>: console codes, log functions and macros (\<open>log/log.hpp\<close>, \<open>log/console_defines.h\<close>).

  \<^bold>\<open>How the state corresponds to the code.\<close>  Every object of the C++ heap is a number, a pointer an
  \<open>option\<close> of one; the stores \<open>s_ctxs\<close>, \<open>s_tasks\<close>, \<open>s_proms\<close> and \<open>s_thrs\<close> give the objects.  A call that
  switches fibers is cut at the jump: the function ending in \<open>_begin\<close> is the part before it, the one
  ending in \<open>_end\<close> the part after it.  Each clock reading is an argument.  A failed assertion, a null
  pointer, an access outside an array and an endless walk are values of \<open>fault\<close>; exceptions are
  values of \<open>exn\<close>.  User code is a parameter that gives the outcome of each call; it neither posts, waits nor blocks.  The network is a
  parameter with the documented behaviour of a stream as hypothesis (\<open>stream_net\<close>, \<open>sends_ok\<close>,
  \<open>recv_ok\<close>).  \<open>boost::signals\<close> is a record of its operations with the hypothesis \<open>signals_laws\<close>;
  \<open>boost::format\<close> is a function from a format and its arguments to a text or an exception.

  \<^bold>\<open>What is shown.\<close>

  \<^item> \<open>CMT_Sched_Inv\<close>, \<open>CMT_Fiber_Inv\<close>, \<open>CMT_Reach\<close>: the invariant of a thread's lists and heap, and what
    every operation keeps of it; \<open>CMT_Runs\<close>: histories of calls by all threads, without guards, and the
    condition \<open>orderly\<close> (nobody blocks on a promise that a fiber is blocked on already, no thread quits
    itself) under which the invariant holds for every thread at every moment; \<open>CMT_Fiber_Props\<close>: along
    such histories no context is lost; waiting blocks where the wake-up looks, values and timeouts
    reach their waiters, yielding is round robin.
  \<^item> \<open>CMT_Queues\<close>: \<open>dequeue\<close> conserves tasks and orders them by priority and posting order.
  \<^item> \<open>CMT_Process\<close>, \<open>CMT_Roundtrip\<close>: the loop runs every task that is posted and not scheduled for
    later, and delivers its result; a call and its answer pass through all the layers of one thread,
    also before \<open>exec\<close>.
  \<^item> \<open>CMT_Crossing\<close>: the same between two threads, for the methods of actors, for \<open>sync\<close> and for the
    handshake of \<open>thread::create\<close>: the caller's thread sleeps, the other one answers, the caller is
    switched back to and gets the result.
  \<^item> \<open>CMT_Intake\<close>: no posted task and no wake-up is lost under any interleaving.
  \<^item> \<open>CMT_Actor\<close>, \<open>CMT_Asio\<close>: results cross threads and reach the fiber that waits for them.
  \<^item> \<open>CMT_Signal_Props\<close>, \<open>CMT_Signal_Wiring\<close>: which functors a call of a signal member and an emission reach, and that the
    guard restores every connection; after any operations no slot refers to a destroyed member that was
    bound at most once; waiting for a signal from beginning to end.
  \<^item> \<open>CMT_Strand\<close>: \<open>yield\<close> rotates the ready strands and \<open>wake\<close> moves a strand from the heap to the end of
    the ready list, as long as the strand's \<open>next\<close> is null; the code never clears it, and the second
    of two yields makes the list endless.
  \<^item> \<open>CMT_Log\<close>: colours only insert console codes, whatever the formatter does; a log statement does not
    throw if the diagnosis of a failed formatting can itself be formatted.
  \<^item> \<open>CMT_Retainable\<close>: releasing the last reference runs the destructors of the member pointers, which may
    release further objects.  Counts are exact over every program; a destroyed object or pointer is
    touched only by an assignment or \<open>reset\<close> that destroys its own operands, and leaks come from move
    assignment only.
  \<^item> \<open>CMT_Tcp\<close>, \<open>CMT_Tcp_Write\<close>, \<open>CMT_Streambuf\<close>: bytes are delivered in order, without loss or
    repetition; the double write buffer implements a byte queue (locale \<open>channel_impl\<close>), and its task
    sends what was accepted before, whatever is written meanwhile; the areas of the stream buffer stay
    inside its arrays, also when an empty receive passes for a success.
  \<^item> Defects found while modelling are theorems as well: a due scheduled task that is never run, \<open>quit\<close>
    using a null pointer and leaving a fiber ready and blocked at once (\<open>CMT_Quit\<close>), several waiters of one promise, the order of scheduled tasks,
    sleeping for no time, \<open>read_some\<close>, a flush after a failed one, a flush that takes the error away, the late error
    code, move assignment and assignment from a member of \<open>retainable_ptr\<close>, the late binding of const methods, the only subscriber of a signal member, a member bound twice, and
    the destruction of an acceptor that listens.

  \<^bold>\<open>Bounds and fuel.\<close>  The walks over linked lists take the number of allocated contexts or tasks as
  fuel; the invariant makes the lists duplicate-free, hence shorter.  \<open>expire_loop\<close> takes the length of
  the heap, which each round shortens.  \<open>pt_inner\<close> takes the clock readings of its turns, one more
  than there are queued tasks being enough.  \<open>ws_serve\<close> needs three turns.  \<open>call_slot\<close> takes
  the nesting of reverse connections, for which one is enough.  Task numbers are 64-bit
  words, reference counts 32-bit words, buffer indices 8-bit words; time points are kept in the
  signed 64-bit range by \<open>wrap64\<close>; the sizes of the socket code are natural numbers with the wrap-around
  of \<open>size_t\<close> and \<open>int\<close> written out where the code subtracts or converts.

  \<^bold>\<open>Not modelled.\<close>  Stack allocation and the register switch (\<open>boost::context\<close>); the mutex around log
  lines; \<open>blocking_promise\<close>, which is compiled out, and \<open>reftask\<close>, which is commented out; \<open>strand\<close>, which has no definitions,
  and the switch between strands, which is not written; the \<open>socket_streambuf\<close> of \<open>asio/streambuf.hpp\<close>,
  which does not compile and is not built; the colours of the Windows console, which are never selected; the examples.  Memory orders
  of the atomics are taken as sequentially consistent.
\<close>

end
